(* ===== verification/IEEE754.thy ===== *)
theory IEEE754
  imports Prelude
begin

text \<open>
  The floating-point arithmetic of the C sources: \<^verbatim>\<open>double\<close> (binary64) and \<^verbatim>\<open>float\<close> (binary32) as
  the words that hold them, with the operations brubeck performs on them. A word is decoded into
  a sign, an integer mantissa and a binary exponent; an operation computes the exact result as a
  fraction of natural numbers and rounds it once, to nearest with ties to even. The lemmas show
  that rounding is exact on representable values and monotone.
\<close>

section \<open>Numbers and rounding\<close>

text \<open>\<open>FFin s m e\<close> stands for \<open>m * 2^e\<close>, negated when \<open>s\<close>; a zero keeps its sign.\<close>

datatype fpnum = FNan | FInf bool | FFin bool nat int

text \<open>
  A format is given by the widths of the fraction and the exponent field. From these: the
  precision, and the exponents of the last place of the smallest and of the largest numbers.
\<close>

record fmt =
  fbits :: nat
  ebits :: nat

definition binary64 :: fmt where
  "binary64 = \<lparr>fbits = 52, ebits = 11\<rparr>"

definition binary32 :: fmt where
  "binary32 = \<lparr>fbits = 23, ebits = 8\<rparr>"

definition prec :: "fmt \<Rightarrow> nat" where
  "prec F = fbits F + 1"

definition emin :: "fmt \<Rightarrow> int" where
  "emin F = 2 - 2 ^ (ebits F - 1) - int (fbits F)"

definition emax :: "fmt \<Rightarrow> int" where
  "emax F = 2 ^ (ebits F - 1) - 1 - int (fbits F)"

text \<open>The integer part of the binary logarithm of \<open>n / d\<close>, for positive \<open>n\<close> and \<open>d\<close>.\<close>

definition flog2 :: "nat \<Rightarrow> nat \<Rightarrow> int" where
  "flog2 n d = (let k = int (floorlog 2 n) - int (floorlog 2 d)
     in if d * 2 ^ nat k \<le> n * 2 ^ nat (- k) then k else k - 1)"

text \<open>Division rounded to the nearest integer, ties to even.\<close>

definition rne :: "nat \<Rightarrow> nat \<Rightarrow> nat" where
  "rne n d = (let q = n div d; r = n mod d
     in if 2 * r < d \<or> (2 * r = d \<and> even q) then q else Suc q)"

definition ulp_exp :: "fmt \<Rightarrow> nat \<Rightarrow> nat \<Rightarrow> int" where
  "ulp_exp F n d = max (emin F) (flog2 n d - (int (prec F) - 1))"

definition fp_round :: "fmt \<Rightarrow> bool \<Rightarrow> nat \<Rightarrow> nat \<Rightarrow> fpnum" where
  "fp_round F s n d =
     (if n = 0 then FFin s 0 (emin F)
      else let e = ulp_exp F n d;
               m = rne (n * 2 ^ nat (- e)) (d * 2 ^ nat e);
               (m', e') = (if m = 2 ^ prec F then (2 ^ (prec F - 1), e + 1) else (m, e))
           in if emax F < e' then FInf s else FFin s m' e')"

text \<open>Rounding of \<open>n / d * 2^e\<close>.\<close>

definition fp_scale :: "fmt \<Rightarrow> bool \<Rightarrow> nat \<Rightarrow> nat \<Rightarrow> int \<Rightarrow> fpnum" where
  "fp_scale F s n d e = fp_round F s (n * 2 ^ nat e) (d * 2 ^ nat (- e))"

section \<open>Arithmetic\<close>

fun fp_neg :: "fpnum \<Rightarrow> fpnum" where
  "fp_neg FNan = FNan"
| "fp_neg (FInf s) = FInf (\<not> s)"
| "fp_neg (FFin s m e) = FFin (\<not> s) m e"

definition with_sign :: "bool \<Rightarrow> nat \<Rightarrow> int" where
  "with_sign s m = (if s then - int m else int m)"

fun fp_add :: "fmt \<Rightarrow> fpnum \<Rightarrow> fpnum \<Rightarrow> fpnum" where
  "fp_add F (FFin s m e) (FFin t n f) =
     (let g = min e f;
          k = with_sign s m * 2 ^ nat (e - g) + with_sign t n * 2 ^ nat (f - g)
      in if k = 0 then FFin (s \<and> t) 0 (emin F) else fp_scale F (k < 0) (nat \<bar>k\<bar>) 1 g)"
| "fp_add F (FInf s) (FInf t) = (if s = t then FInf s else FNan)"
| "fp_add F (FInf s) (FFin _ _ _) = FInf s"
| "fp_add F (FFin _ _ _) (FInf t) = FInf t"
| "fp_add F _ _ = FNan"

fun fp_mul :: "fmt \<Rightarrow> fpnum \<Rightarrow> fpnum \<Rightarrow> fpnum" where
  "fp_mul F (FFin s m e) (FFin t n f) = fp_scale F (s \<noteq> t) (m * n) 1 (e + f)"
| "fp_mul F (FInf s) (FInf t) = FInf (s \<noteq> t)"
| "fp_mul F (FInf s) (FFin t n _) = (if n = 0 then FNan else FInf (s \<noteq> t))"
| "fp_mul F (FFin s m _) (FInf t) = (if m = 0 then FNan else FInf (s \<noteq> t))"
| "fp_mul F _ _ = FNan"

fun fp_div :: "fmt \<Rightarrow> fpnum \<Rightarrow> fpnum \<Rightarrow> fpnum" where
  "fp_div F (FFin s m e) (FFin t n f) =
     (if n = 0 then (if m = 0 then FNan else FInf (s \<noteq> t))
      else fp_scale F (s \<noteq> t) m n (e - f))"
| "fp_div F (FInf s) (FFin t _ _) = FInf (s \<noteq> t)"
| "fp_div F (FFin s _ _) (FInf t) = FFin (s \<noteq> t) 0 (emin F)"
| "fp_div F _ _ = FNan"

text \<open>
  Comparison: a number is measured in units of the smallest positive number of the format, an
  infinity is larger than all of them. A comparison with a NaN is false.
\<close>

fun fp_key :: "fmt \<Rightarrow> fpnum \<Rightarrow> int" where
  "fp_key F (FFin s m e) = with_sign s (m * 2 ^ nat (e - emin F))"
| "fp_key F (FInf s) = with_sign s (2 ^ (nat (emax F - emin F) + prec F))"
| "fp_key F FNan = 0"

definition fp_lt :: "fmt \<Rightarrow> fpnum \<Rightarrow> fpnum \<Rightarrow> bool" where
  "fp_lt F x y \<longleftrightarrow> x \<noteq> FNan \<and> y \<noteq> FNan \<and> fp_key F x < fp_key F y"

definition fp_le :: "fmt \<Rightarrow> fpnum \<Rightarrow> fpnum \<Rightarrow> bool" where
  "fp_le F x y \<longleftrightarrow> x \<noteq> FNan \<and> y \<noteq> FNan \<and> fp_key F x \<le> fp_key F y"

section \<open>The machine words\<close>

type_synonym double = "64 word"
type_synonym float = "32 word"

text \<open>
  The layout of a word, from its low end: fraction, biased exponent, sign. The NaN that an
  operation produces is the default one of the x86-64 unit: quiet, sign bit set.
\<close>

definition fp_decode :: "fmt \<Rightarrow> nat \<Rightarrow> fpnum" where
  "fp_decode F u =
     (let s = (2 ^ (fbits F + ebits F) \<le> u);
          x = u div 2 ^ fbits F mod 2 ^ ebits F;
          f = u mod 2 ^ fbits F
      in if x = 2 ^ ebits F - 1 then (if f = 0 then FInf s else FNan)
         else if x = 0 then FFin s f (emin F)
         else FFin s (2 ^ fbits F + f) (int x - 1 + emin F))"

definition sign_bit :: "fmt \<Rightarrow> bool \<Rightarrow> nat" where
  "sign_bit F s = (if s then 2 ^ (fbits F + ebits F) else 0)"

fun fp_encode :: "fmt \<Rightarrow> fpnum \<Rightarrow> nat" where
  "fp_encode F FNan = sign_bit F True + (2 ^ ebits F - 1) * 2 ^ fbits F + 2 ^ (fbits F - 1)"
| "fp_encode F (FInf s) = sign_bit F s + (2 ^ ebits F - 1) * 2 ^ fbits F"
| "fp_encode F (FFin s m e) = sign_bit F s +
     (if m < 2 ^ fbits F then m else nat (e - emin F + 1) * 2 ^ fbits F + (m - 2 ^ fbits F))"

definition decode64 :: "double \<Rightarrow> fpnum" where
  "decode64 w = fp_decode binary64 (unat w)"

definition encode64 :: "fpnum \<Rightarrow> double" where
  "encode64 x = word_of_nat (fp_encode binary64 x)"

definition decode32 :: "float \<Rightarrow> fpnum" where
  "decode32 w = fp_decode binary32 (unat w)"

definition encode32 :: "fpnum \<Rightarrow> float" where
  "encode32 x = word_of_nat (fp_encode binary32 x)"

definition dadd :: "double \<Rightarrow> double \<Rightarrow> double" where
  "dadd x y = encode64 (fp_add binary64 (decode64 x) (decode64 y))"

definition dneg :: "double \<Rightarrow> double" where
  "dneg x = x XOR 0x8000000000000000"

definition dsub :: "double \<Rightarrow> double \<Rightarrow> double" where
  "dsub x y = dadd x (dneg y)"

definition dmul :: "double \<Rightarrow> double \<Rightarrow> double" where
  "dmul x y = encode64 (fp_mul binary64 (decode64 x) (decode64 y))"

definition ddiv :: "double \<Rightarrow> double \<Rightarrow> double" where
  "ddiv x y = encode64 (fp_div binary64 (decode64 x) (decode64 y))"

definition dlt :: "double \<Rightarrow> double \<Rightarrow> bool" where
  "dlt x y = fp_lt binary64 (decode64 x) (decode64 y)"

definition dle :: "double \<Rightarrow> double \<Rightarrow> bool" where
  "dle x y = fp_le binary64 (decode64 x) (decode64 y)"

definition deq :: "double \<Rightarrow> double \<Rightarrow> bool" where
  "deq x y \<longleftrightarrow> dle x y \<and> dle y x"

definition is_nan :: "double \<Rightarrow> bool" where
  "is_nan x \<longleftrightarrow> decode64 x = FNan"

text \<open>Conversions: integers to floating point, \<^verbatim>\<open>double\<close> to \<^verbatim>\<open>float\<close> and back, and truncation.\<close>

definition d_of_nat :: "nat \<Rightarrow> double" where
  "d_of_nat n = encode64 (fp_round binary64 False n 1)"

definition d_of_int :: "int \<Rightarrow> double" where
  "d_of_int i = (if i < 0 then dneg (d_of_nat (nat (- i))) else d_of_nat (nat i))"

definition f_of_nat :: "nat \<Rightarrow> float" where
  "f_of_nat n = encode32 (fp_round binary32 False n 1)"

text \<open>The decimal constants of the sources: \<open>n / d\<close> rounded, as the compiler does.\<close>

definition d_lit :: "nat \<Rightarrow> nat \<Rightarrow> double" where
  "d_lit n d = encode64 (fp_round binary64 False n d)"

definition f_lit :: "nat \<Rightarrow> nat \<Rightarrow> float" where
  "f_lit n d = encode32 (fp_round binary32 False n d)"

fun fp_conv :: "fmt \<Rightarrow> fpnum \<Rightarrow> fpnum" where
  "fp_conv F (FFin s m e) = fp_scale F s m 1 e"
| "fp_conv F x = x"

definition float_of_double :: "double \<Rightarrow> float" where
  "float_of_double x = encode32 (fp_conv binary32 (decode64 x))"

definition fmul :: "float \<Rightarrow> float \<Rightarrow> float" where
  "fmul x y = encode32 (fp_mul binary32 (decode32 x) (decode32 y))"

definition fadd :: "float \<Rightarrow> float \<Rightarrow> float" where
  "fadd x y = encode32 (fp_add binary32 (decode32 x) (decode32 y))"

text \<open>The integer part of the magnitude, and the conversion of a value to an unsigned type of
  \<open>w\<close> bits: undefined when the truncated value does not fit.\<close>

definition trunc_nat :: "nat \<Rightarrow> int \<Rightarrow> nat" where
  "trunc_nat m e = m * 2 ^ nat e div 2 ^ nat (- e)"

fun fp_to_unat :: "nat \<Rightarrow> fpnum \<Rightarrow> nat res" where
  "fp_to_unat w (FFin s m e) =
     (let t = trunc_nat m e
      in if (s \<and> t \<noteq> 0) \<or> 2 ^ w \<le> t then Inl BadConversion else Inr t)"
| "fp_to_unat w _ = Inl BadConversion"

section \<open>Well-formed numbers and their values\<close>

definition fmt_ok :: "fmt \<Rightarrow> bool" where
  "fmt_ok F \<longleftrightarrow> 1 \<le> fbits F \<and> 2 \<le> ebits F"

text \<open>The canonical numbers of a format.\<close>

fun fp_ok :: "fmt \<Rightarrow> fpnum \<Rightarrow> bool" where
  "fp_ok F (FFin s m e) \<longleftrightarrow> emin F \<le> e \<and> e \<le> emax F \<and> m < 2 ^ prec F
     \<and> (m < 2 ^ fbits F \<longrightarrow> e = emin F)"
| "fp_ok F _ \<longleftrightarrow> True"

fun fp_real :: "fpnum \<Rightarrow> real" where
  "fp_real (FFin s m e) = (if s then - 1 else 1) * (real m * 2 powi e)"
| "fp_real _ = 0"

text \<open>The magnitude before the overflow check.\<close>

definition round_mag :: "fmt \<Rightarrow> nat \<Rightarrow> nat \<Rightarrow> real" where
  "round_mag F n d = real (rne (n * 2 ^ nat (- ulp_exp F n d)) (d * 2 ^ nat (ulp_exp F n d)))
     * 2 powi ulp_exp F n d"

section \<open>Powers of two and the binary logarithm\<close>

lemma powi_split: "(2::real) powi k = 2 ^ nat k / 2 ^ nat (- k)"
  by (cases "0 \<le> k") (simp_all add: power_int_def field_simps)

lemma scaled_le_iff:
  assumes "0 < d"
  shows "d * 2 ^ nat k \<le> n * 2 ^ nat (- k) \<longleftrightarrow> 2 powi k \<le> real n / real d"
proof -
  have "d * 2 ^ nat k \<le> n * 2 ^ nat (- k) \<longleftrightarrow> real (d * 2 ^ nat k) \<le> real (n * 2 ^ nat (- k))"
    by (rule of_nat_le_iff [symmetric])
  also have "\<dots> \<longleftrightarrow> 2 powi k \<le> real n / real d"
    using assms by (simp add: powi_split field_simps)
  finally show ?thesis .
qed

lemma scaled_ratio:
  "real (n * 2 ^ nat (- e)) / real (d * 2 ^ nat e) = real n / real d / 2 powi e"
  by (simp add: powi_split)

lemma floorlog_powi:
  assumes "0 < n"
  shows "2 powi (int (floorlog 2 n) - 1) \<le> real n" "real n < 2 powi int (floorlog 2 n)"
proof -
  have b: "2 ^ (floorlog 2 n - 1) \<le> n" "n < 2 ^ floorlog 2 n"
    using floorlog_bounds [of n 2] assms by auto
  have pos: "0 < floorlog 2 n"
    using assms by (simp add: floorlog_def)
  have "int (floorlog 2 n) - 1 = int (floorlog 2 n - 1)"
    using pos by linarith
  then have "2 powi (int (floorlog 2 n) - 1) = (2::real) ^ (floorlog 2 n - 1)"
    by (simp only: power_int_of_nat)
  moreover have "(2::real) ^ (floorlog 2 n - 1) \<le> real n"
    using b(1) by (metis of_nat_le_iff of_nat_numeral of_nat_power)
  ultimately show "2 powi (int (floorlog 2 n) - 1) \<le> real n" by simp
  have "real n < 2 ^ floorlog 2 n"
    using b(2) by (metis of_nat_less_iff of_nat_numeral of_nat_power)
  then show "real n < 2 powi int (floorlog 2 n)" by simp
qed

lemma flog2_bounds:
  assumes "0 < n" "0 < d"
  shows "2 powi flog2 n d \<le> real n / real d" "real n / real d < 2 powi (flog2 n d + 1)"
proof -
  let ?k = "int (floorlog 2 n) - int (floorlog 2 d)"
  note N = floorlog_powi [OF assms(1)] and D = floorlog_powi [OF assms(2)]
  have "real n / real d < 2 powi int (floorlog 2 n) / 2 powi (int (floorlog 2 d) - 1)"
    using N D assms by (intro frac_less) auto
  also have "\<dots> = 2 powi (?k + 1)"
    by (simp add: power_int_diff power_int_add field_simps)
  finally have up: "real n / real d < 2 powi (?k + 1)" .
  have "2 powi (?k - 1) = 2 powi (int (floorlog 2 n) - 1) / (2::real) powi int (floorlog 2 d)"
    by (simp add: power_int_diff power_int_add field_simps)
  also have "\<dots> \<le> real n / real d"
    using N D assms by (intro frac_le) auto
  finally have lo: "2 powi (?k - 1) \<le> real n / real d" .
  show "2 powi flog2 n d \<le> real n / real d" "real n / real d < 2 powi (flog2 n d + 1)"
    using up lo by (auto simp: flog2_def Let_def scaled_le_iff [OF assms(2)])
qed

lemma powi_less_iff: "(2::real) powi a < 2 powi b \<longleftrightarrow> a < b"
  by (meson linorder_not_less one_less_numeral_iff power_int_increasing power_int_strict_increasing semiring_norm(76) order_less_imp_le)
lemma powi_le_iff: "(2::real) powi a \<le> 2 powi b \<longleftrightarrow> a \<le> b"
  by (meson linorder_not_less powi_less_iff)

lemma flog2_mono:
  assumes "0 < n" "0 < d" "0 < n'" "0 < d'" "real n / real d \<le> real n' / real d'"
  shows "flog2 n d \<le> flog2 n' d'"
proof -
  have "2 powi flog2 n d < (2::real) powi (flog2 n' d' + 1)"
    using flog2_bounds [OF assms(1,2)] flog2_bounds [OF assms(3,4)] assms(5) by linarith
  then show ?thesis by (simp add: powi_less_iff)
qed

section \<open>Rounding is monotone and exact on representable values\<close>

lemma rne_error:
  assumes "0 < d"
  shows "\<bar>real (rne n d) - real n / real d\<bar> \<le> 1 / 2"
    "\<bar>real (rne n d) - real n / real d\<bar> = 1 / 2 \<Longrightarrow> even (rne n d)"
proof -
  let ?q = "n div d" and ?r = "n mod d"
  define x where "x = real ?r / real d"
  have "real n = real ?q * real d + real ?r"
    by (metis div_mult_mod_eq of_nat_add of_nat_mult)
  then have eq: "real n / real d = real ?q + x"
    using assms by (simp add: x_def field_simps)
  have "?r < d" using assms by simp
  then have x: "0 \<le> x" "x < 1" using assms by (simp_all add: x_def)
  have h: "2 * ?r < d \<longleftrightarrow> x < 1 / 2" "2 * ?r = d \<longleftrightarrow> x = 1 / 2"
    using assms by (auto simp: x_def field_simps)
  show "\<bar>real (rne n d) - real n / real d\<bar> \<le> 1 / 2"
    using x by (auto simp: rne_def Let_def eq h abs_if)
  show "\<bar>real (rne n d) - real n / real d\<bar> = 1 / 2 \<Longrightarrow> even (rne n d)"
    using x by (auto simp: rne_def Let_def eq h abs_if split: if_splits)
qed

lemma rne_mono:
  assumes "0 < d" "0 < d'" "real n / real d \<le> real n' / real d'"
  shows "rne n d \<le> rne n' d'"
proof (rule ccontr)
  assume "\<not> rne n d \<le> rne n' d'"
  then have g: "real (rne n' d') + 1 \<le> real (rne n d)" by simp
  note e = rne_error(1) [OF assms(1), of n] rne_error(1) [OF assms(2), of n']
  have t: "real (rne n d) - real n / real d = 1 / 2" "real (rne n' d') - real n' / real d' = - (1 / 2)"
    "real (rne n d) = real (rne n' d') + 1"
    using e g assms(3) unfolding abs_le_iff by linarith+
  then have "rne n d = rne n' d' + 1" by linarith
  with rne_error(2) [OF assms(1), of n] rne_error(2) [OF assms(2), of n'] t show False by simp
qed

lemma rne_of_nat: "0 < d \<Longrightarrow> real n / real d = real k \<Longrightarrow> rne n d = k"
  using rne_mono [of d 1 n k] rne_mono [of 1 d k n] by (simp add: rne_def)

lemma fmt_ok_binary [simp]: "fmt_ok binary64" "fmt_ok binary32"
  by (simp_all add: fmt_ok_def binary64_def binary32_def)

lemma emin_le_emax: "fmt_ok F \<Longrightarrow> emin F \<le> emax F"
proof -
  assume "fmt_ok F"
  then have "(2::int) ^ 1 \<le> 2 ^ (ebits F - 1)"
    by (intro power_increasing) (auto simp: fmt_ok_def)
  then show ?thesis by (simp add: emin_def emax_def)
qed

lemma ulp_ratio_less:
  assumes "0 < n" "0 < d"
  shows "real n / real d / 2 powi ulp_exp F n d < 2 ^ prec F"
proof -
  have "flog2 n d + 1 \<le> ulp_exp F n d + int (prec F)"
    by (simp add: ulp_exp_def)
  then have "2 powi (flog2 n d + 1) \<le> (2::real) powi (ulp_exp F n d + int (prec F))"
    by (simp only: powi_le_iff)
  with flog2_bounds(2) [OF assms] have "real n / real d < 2 powi (ulp_exp F n d + int (prec F))"
    by linarith
  then show ?thesis by (subst pos_divide_less_eq) (simp_all add: power_int_add mult.commute)
qed

lemma ulp_ratio_ge:
  assumes "0 < n" "0 < d" "ulp_exp F n d \<noteq> emin F"
  shows "2 ^ fbits F \<le> real n / real d / 2 powi ulp_exp F n d"
proof -
  have "ulp_exp F n d + int (fbits F) = flog2 n d"
    using assms(3) by (auto simp: ulp_exp_def prec_def)
  with flog2_bounds(1) [OF assms(1,2)] have "2 powi (ulp_exp F n d + int (fbits F)) \<le> real n / real d"
    by simp
  then show ?thesis by (subst pos_le_divide_eq) (simp_all add: power_int_add mult.commute)
qed

lemma rne_le_of_nat: "0 < d \<Longrightarrow> real n / real d \<le> real k \<Longrightarrow> rne n d \<le> k"
  using rne_mono [of d 1 n k] rne_of_nat [of 1 k k] by simp

lemma rne_ge_of_nat: "0 < d \<Longrightarrow> real k \<le> real n / real d \<Longrightarrow> k \<le> rne n d"
  using rne_mono [of 1 d k n] rne_of_nat [of 1 k k] by simp

lemma ulp_mant_le:
  assumes "0 < n" "0 < d"
  shows "rne (n * 2 ^ nat (- ulp_exp F n d)) (d * 2 ^ nat (ulp_exp F n d)) \<le> 2 ^ prec F"
  using ulp_ratio_less [OF assms, of F] assms
  by (intro rne_le_of_nat) (simp_all only: scaled_ratio, simp_all)

lemma ulp_mant_ge:
  assumes "0 < n" "0 < d" "ulp_exp F n d \<noteq> emin F"
  shows "2 ^ fbits F \<le> rne (n * 2 ^ nat (- ulp_exp F n d)) (d * 2 ^ nat (ulp_exp F n d))"
  using ulp_ratio_ge [OF assms] assms
  by (intro rne_ge_of_nat) (simp_all only: scaled_ratio, simp_all)

lemma fp_round_ok:
  assumes "fmt_ok F" "0 < d"
  shows "fp_ok F (fp_round F s n d)"
proof (cases "n = 0")
  case True
  with assms show ?thesis by (simp add: fp_round_def emin_le_emax)
next
  case False
  then have "0 < n" by simp
  note le = ulp_mant_le [OF this assms(2), of F] and ge = ulp_mant_ge [OF this assms(2), of F]
  have "emin F \<le> ulp_exp F n d" by (simp add: ulp_exp_def)
  with le ge False show ?thesis
    by (auto simp: fp_round_def Let_def prec_def not_less le_less linorder_not_le)
qed

lemma round_mag_mono:
  assumes "0 < n" "0 < d" "0 < n'" "0 < d'" "real n / real d \<le> real n' / real d'"
  shows "round_mag F n d \<le> round_mag F n' d'"
proof -
  let ?e = "ulp_exp F n d" and ?e' = "ulp_exp F n' d'"
  have "?e \<le> ?e'" using flog2_mono [OF assms] by (simp add: ulp_exp_def)
  moreover have "emin F \<le> ?e" by (simp add: ulp_exp_def)
  ultimately consider "?e = ?e'" | "?e + 1 \<le> ?e'" "?e' \<noteq> emin F" by linarith
  then show ?thesis
  proof cases
    case 1
    have "real n / real d / 2 powi ?e \<le> real n' / real d' / 2 powi ?e'"
      unfolding 1 by (rule divide_right_mono [OF assms(5)]) simp
    then have "rne (n * 2 ^ nat (- ?e)) (d * 2 ^ nat ?e) \<le> rne (n' * 2 ^ nat (- ?e')) (d' * 2 ^ nat ?e')"
      using assms by (intro rne_mono) (simp_all only: scaled_ratio, simp_all)
    with 1 show ?thesis by (simp add: round_mag_def)
  next
    case 2
    have "round_mag F n d \<le> real (2 ^ prec F) * 2 powi ?e"
      unfolding round_mag_def
      by (intro mult_right_mono of_nat_mono ulp_mant_le [OF assms(1,2)]) simp
    also have "\<dots> = real (2 ^ fbits F) * 2 powi (?e + 1)"
      by (simp add: prec_def power_int_add)
    also have "\<dots> \<le> real (2 ^ fbits F) * 2 powi ?e'"
      using 2(1) by (simp add: powi_le_iff)
    also have "\<dots> \<le> round_mag F n' d'"
      unfolding round_mag_def
      by (intro mult_right_mono of_nat_mono ulp_mant_ge [OF assms(3,4) 2(2)]) simp
    finally show ?thesis .
  qed
qed

lemma fp_round_cases:
  assumes "fmt_ok F" "0 < n" "0 < d"
  obtains (inf) "fp_round F s n d = FInf s" "2 powi (int (prec F) + emax F) \<le> round_mag F n d"
    | (fin) m e where "fp_round F s n d = FFin s m e" "real m * 2 powi e = round_mag F n d"
        "emin F \<le> e" "e \<le> emax F" "m < 2 ^ prec F"
proof -
  let ?e = "ulp_exp F n d"
  let ?m = "rne (n * 2 ^ nat (- ?e)) (d * 2 ^ nat ?e)"
  define m' e' where "m' = (if ?m = 2 ^ prec F then 2 ^ fbits F else ?m)"
    and "e' = (if ?m = 2 ^ prec F then ?e + 1 else ?e)"
  have eq: "fp_round F s n d = (if emax F < e' then FInf s else FFin s m' e')"
    using assms(2) by (simp add: fp_round_def Let_def m'_def e'_def prec_def)
  have mag: "real m' * 2 powi e' = round_mag F n d"
    by (simp add: m'_def e'_def round_mag_def prec_def power_int_add)
  have e: "emin F \<le> e'" by (auto simp: e'_def ulp_exp_def)
  have lt: "m' < 2 ^ prec F"
    using ulp_mant_le [OF assms(2,3), of F] by (auto simp: m'_def prec_def)
  show thesis
  proof (cases "emax F < e'")
    case False
    with eq mag e lt show thesis by (intro fin) auto
  next
    case True
    have big: "2 ^ fbits F \<le> m'"
      using ulp_mant_ge [OF assms(2,3), of F] True emin_le_emax [OF assms(1)]
      by (auto simp: m'_def e'_def split: if_splits)
    have "2 powi (int (prec F) + emax F) = real (2 ^ fbits F) * 2 powi (emax F + 1)"
      by (simp add: prec_def power_int_add)
    also have "\<dots> \<le> real m' * 2 powi e'"
      using True by (intro mult_mono of_nat_mono big) (simp_all add: powi_le_iff)
    finally show thesis using True eq mag by (intro inf) auto
  qed
qed

lemma fp_key_real:
  "emin F \<le> e \<Longrightarrow> real_of_int (fp_key F (FFin s m e)) * 2 powi emin F = fp_real (FFin s m e)"
  by (simp add: with_sign_def power_int_diff flip: power_int_of_nat)

lemma mant_less_inf: "fmt_ok F \<Longrightarrow> m < 2 ^ prec F \<Longrightarrow> emin F \<le> e \<Longrightarrow> e \<le> emax F \<Longrightarrow>
   int (m * 2 ^ nat (e - emin F)) < 2 ^ (nat (emax F - emin F) + prec F)"
proof -
  assume a: "m < 2 ^ prec F" "emin F \<le> e" "e \<le> emax F"
  have "m * 2 ^ nat (e - emin F) < 2 ^ prec F * 2 ^ nat (e - emin F)"
    using a(1) by simp
  also have "\<dots> \<le> 2 ^ prec F * 2 ^ nat (emax F - emin F)"
    using a by (intro mult_le_mono2 power_increasing) auto
  finally have "m * 2 ^ nat (e - emin F) < 2 ^ (nat (emax F - emin F) + prec F)"
    by (simp add: power_add mult.commute)
  then show ?thesis by (metis of_nat_less_iff of_nat_numeral of_nat_power)
qed

lemma mant_lt_top:
  assumes "m < 2 ^ prec F" "e \<le> k"
  shows "real m * 2 powi e < 2 powi (int (prec F) + k)"
proof -
  have "real m < 2 ^ prec F"
    using assms(1) by (metis of_nat_less_iff of_nat_numeral of_nat_power)
  then have "real m * 2 powi e < 2 ^ prec F * 2 powi e" by simp
  also have "\<dots> \<le> 2 ^ prec F * 2 powi k"
    using assms(2) by (simp add: powi_le_iff)
  finally show ?thesis by (simp add: power_int_add)
qed

lemma fp_round_key_mono:
  assumes F: "fmt_ok F" and pos: "0 < d" "0 < d'" and le: "real n / real d \<le> real n' / real d'"
  shows "fp_key F (fp_round F False n d) \<le> fp_key F (fp_round F False n' d')"
proof (cases "n = 0")
  case True
  have "fp_ok F (fp_round F False n' d')" by (rule fp_round_ok [OF F pos(2)])
  then have "0 \<le> fp_key F (fp_round F False n' d')"
    by (auto simp: fp_round_def Let_def with_sign_def)
  with True show ?thesis by (simp add: fp_round_def with_sign_def)
next
  case False
  then have n: "0 < n" by simp
  then have "0 < real n / real d" using pos by simp
  with le have n': "0 < n'" using not_gr_zero by fastforce
  note mono = round_mag_mono [OF n pos(1) n' pos(2) le, of F]
  show ?thesis
  proof (cases rule: fp_round_cases [OF F n' pos(2), where s = False, case_names inf fin])
    case inf
    then show ?thesis
      by (cases rule: fp_round_cases [OF F n pos(1), where s = False, case_names inf fin])
        (use mant_less_inf [OF F] in \<open>force simp: with_sign_def\<close>)+
  next
    case (fin m' e')
    note r' = this
    show ?thesis
    proof (cases rule: fp_round_cases [OF F n pos(1), where s = False, case_names inf fin])
      case inf
      with mant_lt_top [OF r'(5,4)] r'(2) mono show ?thesis by linarith
    next
      case (fin m e)
      with r' mono have "real m * 2 powi e \<le> real m' * 2 powi e'" by simp
      with fin(3) r'(3) have "real_of_int (fp_key F (FFin False m e)) * 2 powi emin F
          \<le> real_of_int (fp_key F (FFin False m' e')) * 2 powi emin F"
        by (simp only: fp_key_real fp_real.simps if_False mult_1_left)
      then show ?thesis using fin(1) r'(1)
        by (simp only: mult_le_cancel_right_pos zero_less_power_int zero_less_numeral of_int_le_iff)
    qed
  qed
qed

lemma fp_round_exact:
  assumes F: "fmt_ok F" and d: "0 < d" and x: "real n / real d = real m * 2 powi e"
    and ok: "m < 2 ^ prec F" "emin F \<le> e" "e \<le> emax F"
  shows "\<exists>m' e'. fp_round F s n d = FFin s m' e' \<and> real m' * 2 powi e' = real m * 2 powi e"
proof (cases "n = 0")
  case True
  with x show ?thesis by (simp add: fp_round_def)
next
  case False
  then have n: "0 < n" by simp
  let ?e = "ulp_exp F n d"
  have "2 powi flog2 n d < (2::real) powi (int (prec F) + e)"
    using flog2_bounds(1) [OF n d] mant_lt_top [OF ok(1), of e e] x by simp
  then have le: "?e \<le> e" using ok(2) by (simp add: powi_less_iff ulp_exp_def)
  have "real n / real d / 2 powi ?e = real (m * 2 ^ nat (e - ?e))"
    using le by (simp add: x power_int_diff flip: power_int_of_nat)
  then have r: "rne (n * 2 ^ nat (- ?e)) (d * 2 ^ nat ?e) = m * 2 ^ nat (e - ?e)"
    using d by (intro rne_of_nat) (simp_all only: scaled_ratio, simp_all)
  then have mag: "round_mag F n d = real m * 2 powi e"
    using le by (simp add: round_mag_def power_int_diff flip: power_int_of_nat)
  show ?thesis
    by (cases rule: fp_round_cases [OF F n d, where s = s])
      (use mag mant_lt_top [OF ok(1,3)] in auto)
qed

lemma fp_ok_unique:
  assumes ok: "fp_ok F (FFin s m e)" "fp_ok F (FFin s m' e')"
    and eq: "real m * 2 powi e = real m' * 2 powi e'"
  shows "m = m' \<and> e = e'"
proof -
  have *: False if "real m * 2 powi e = real m' * 2 powi e'" "e < e'" "m < 2 ^ prec F"
      "e' = emin F \<or> 2 ^ fbits F \<le> m'" "emin F \<le> e" for m m' e e'
  proof -
    have "real m * 2 powi e = real (m' * 2 ^ nat (e' - e)) * 2 powi e"
      using that(1,2) by (simp add: power_int_diff flip: power_int_of_nat)
    then have "real m = real (m' * 2 ^ nat (e' - e))" by simp
    then have "m = m' * 2 ^ nat (e' - e)" by (simp only: of_nat_eq_iff)
    moreover have "2 ^ fbits F * 2 ^ 1 \<le> m' * 2 ^ nat (e' - e)"
      using that by (intro mult_le_mono power_increasing) auto
    ultimately show False using that(3) by (simp add: prec_def)
  qed
  have "e = e'"
    using * [of m e m' e'] * [of m' e' m e] ok eq by (force simp: not_less)
  with eq show ?thesis by simp
qed

lemma fp_round_self:
  assumes "fmt_ok F" "fp_ok F (FFin s m e)" "0 < d" "real n / real d = real m * 2 powi e"
  shows "fp_round F s n d = FFin s m e"
proof -
  from fp_round_exact [OF assms(1,3,4)] assms(2) obtain m' e' where
    r: "fp_round F s n d = FFin s m' e'" "real m' * 2 powi e' = real m * 2 powi e" by force
  moreover have "fp_ok F (FFin s m' e')"
    using fp_round_ok [OF assms(1,3), of s n] r by simp
  ultimately show ?thesis using fp_ok_unique [OF _ assms(2), of m' e'] by simp
qed

section \<open>Encoding and decoding\<close>

lemma decode_fields:
  assumes "x < 2 ^ ebits F" "f < 2 ^ fbits F"
  shows "(sign_bit F s + (x * 2 ^ fbits F + f)) mod 2 ^ fbits F = f"
    "(sign_bit F s + (x * 2 ^ fbits F + f)) div 2 ^ fbits F mod 2 ^ ebits F = x"
    "2 ^ (fbits F + ebits F) \<le> sign_bit F s + (x * 2 ^ fbits F + f) \<longleftrightarrow> s"
proof -
  let ?S = "(if s then 2 ^ ebits F else 0) :: nat"
  have eq: "sign_bit F s + (x * 2 ^ fbits F + f) = (?S + x) * 2 ^ fbits F + f"
    by (simp add: sign_bit_def power_add algebra_simps)
  show "(sign_bit F s + (x * 2 ^ fbits F + f)) mod 2 ^ fbits F = f"
    unfolding eq using assms by simp
  show "(sign_bit F s + (x * 2 ^ fbits F + f)) div 2 ^ fbits F mod 2 ^ ebits F = x"
    unfolding eq using assms by (auto simp: mult.commute)
  have "x * 2 ^ fbits F + f < (x + 1) * 2 ^ fbits F" using assms by simp
  also have "\<dots> \<le> 2 ^ ebits F * 2 ^ fbits F" using assms by (intro mult_le_mono1) simp
  finally show "2 ^ (fbits F + ebits F) \<le> sign_bit F s + (x * 2 ^ fbits F + f) \<longleftrightarrow> s"
    by (simp add: sign_bit_def power_add mult.commute)
qed

lemma ebits_gt: "fmt_ok F \<Longrightarrow> (4::nat) \<le> 2 ^ ebits F"
  using power_increasing [of 2 "ebits F" "2::nat"] by (simp add: fmt_ok_def)

lemma two_pow_ebits: "fmt_ok F \<Longrightarrow> (2::int) ^ ebits F = 2 * 2 ^ (ebits F - 1)"
  by (simp add: fmt_ok_def flip: power_Suc)

lemma exp_field_obtain:
  assumes "fmt_ok F" "emin F \<le> e" "e \<le> emax F"
  obtains x where "e = int x - 1 + emin F" "0 < x" "x + 1 < 2 ^ ebits F"
proof -
  have "e - emin F + 2 < 2 ^ ebits F"
    using assms two_pow_ebits [OF assms(1)] by (simp add: emin_def emax_def)
  moreover define x where "x = nat (e - emin F + 1)"
  ultimately have "int (x + 1) < int (2 ^ ebits F)" using assms by simp
  then have "x + 1 < 2 ^ ebits F" by (simp only: of_nat_less_iff)
  then show thesis using assms by (intro that [of x]) (auto simp: x_def)
qed

lemma fp_decode_fields:
  assumes "x < 2 ^ ebits F" "f < 2 ^ fbits F"
  shows "fp_decode F (sign_bit F s + (x * 2 ^ fbits F + f)) =
    (if x = 2 ^ ebits F - 1 then (if f = 0 then FInf s else FNan)
     else if x = 0 then FFin s f (emin F)
     else FFin s (2 ^ fbits F + f) (int x - 1 + emin F))"
  unfolding fp_decode_def Let_def decode_fields [OF assms] ..

lemma fp_decode_encode:
  assumes F: "fmt_ok F" and "fp_ok F x"
  shows "fp_decode F (fp_encode F x) = x"
proof (cases x)
  case FNan
  have "2 ^ (fbits F - 1) < (2::nat) ^ fbits F" using F by (simp add: fmt_ok_def)
  with FNan fp_decode_fields [of "2 ^ ebits F - 1" F "2 ^ (fbits F - 1)" True]
  show ?thesis by (simp add: add.assoc)
next
  case (FInf s)
  with fp_decode_fields [of "2 ^ ebits F - 1" F 0 s] show ?thesis by simp
next
  case (FFin s m e)
  with assms have ok: "emin F \<le> e" "e \<le> emax F" "m < 2 * 2 ^ fbits F" "m < 2 ^ fbits F \<Longrightarrow> e = emin F"
    by (auto simp: prec_def)
  show ?thesis
  proof (cases "m < 2 ^ fbits F")
    case True
    with fp_decode_fields [of 0 F m s] ebits_gt [OF F] FFin ok show ?thesis by simp
  next
    case False
    then obtain f where f: "m = 2 ^ fbits F + f" by (metis le_Suc_ex not_less)
    with ok have "f < 2 ^ fbits F" by simp
    moreover obtain x where "e = int x - 1 + emin F" "0 < x" "x + 1 < 2 ^ ebits F"
      by (rule exp_field_obtain [OF F ok(1,2)])
    moreover from this have "x \<noteq> 2 ^ ebits F - 1" by linarith
    ultimately show ?thesis using fp_decode_fields [of x F f s] FFin f by simp
  qed
qed

lemma fp_decode_ok:
  assumes "fmt_ok F"
  shows "fp_ok F (fp_decode F u)"
proof -
  have x: "u div 2 ^ fbits F mod 2 ^ ebits F < 2 ^ ebits F" and f: "u mod 2 ^ fbits F < 2 ^ fbits F"
    and f2: "u mod 2 ^ fbits F < 2 * 2 ^ fbits F"
    by (simp_all add: less_le_trans [OF mod_less_divisor])
  have e: "int x - 1 + emin F \<le> emax F" if "x < 2 ^ ebits F" "x \<noteq> 2 ^ ebits F - 1" for x
  proof -
    have "x + 2 \<le> 2 ^ ebits F" using that by linarith
    then have "int (x + 2) \<le> int (2 ^ ebits F)" by (simp only: of_nat_le_iff)
    then show ?thesis using two_pow_ebits [OF assms] by (simp add: emin_def emax_def)
  qed
  show ?thesis
    using e [OF x] f f2 emin_le_emax [OF assms] by (simp add: fp_decode_def Let_def prec_def)
qed

lemma fp_encode_less:
  assumes F: "fmt_ok F" and "fp_ok F x"
  shows "fp_encode F x < 2 ^ (fbits F + ebits F + 1)"
proof -
  have *: "sign_bit F s + (x * 2 ^ fbits F + f) < 2 ^ (fbits F + ebits F + 1)"
    if "x < 2 ^ ebits F" "f < 2 ^ fbits F" for s x f
  proof -
    have "x * 2 ^ fbits F + f < (x + 1) * 2 ^ fbits F" using that by simp
    also have "\<dots> \<le> 2 ^ ebits F * 2 ^ fbits F" using that by (intro mult_le_mono1) simp
    finally show ?thesis by (simp add: sign_bit_def power_add mult.commute)
  qed
  show ?thesis
  proof (cases x)
    case FNan
    have "2 ^ (fbits F - 1) < (2::nat) ^ fbits F" using F by (simp add: fmt_ok_def)
    with FNan * [of "2 ^ ebits F - 1" "2 ^ (fbits F - 1)" True] show ?thesis by (simp add: add.assoc)
  next
    case (FInf s)
    with * [of "2 ^ ebits F - 1" 0 s] show ?thesis by simp
  next
    case (FFin s m e)
    with assms have ok: "emin F \<le> e" "e \<le> emax F" "m < 2 * 2 ^ fbits F" by (auto simp: prec_def)
    obtain x where x: "e = int x - 1 + emin F" "0 < x" "x + 1 < 2 ^ ebits F"
      by (rule exp_field_obtain [OF F ok(1,2)])
    with * [of 0 m s] * [of x "m - 2 ^ fbits F" s] FFin ok show ?thesis by auto
  qed
qed

lemma fields64: "fbits binary64 = 52" "ebits binary64 = 11"
  by (simp_all add: binary64_def)

lemma fields32: "fbits binary32 = 23" "ebits binary32 = 8"
  by (simp_all add: binary32_def)

lemma decode64_encode64: "fp_ok binary64 x \<Longrightarrow> decode64 (encode64 x) = x"
  using fp_encode_less [of binary64 x] fp_decode_encode [of binary64 x]
  by (simp add: decode64_def encode64_def unat_of_nat fields64)

lemma decode32_encode32: "fp_ok binary32 x \<Longrightarrow> decode32 (encode32 x) = x"
  using fp_encode_less [of binary32 x] fp_decode_encode [of binary32 x]
  by (simp add: decode32_def encode32_def unat_of_nat fields32)

lemma decode64_ok [simp]: "fp_ok binary64 (decode64 w)"
  by (simp add: decode64_def fp_decode_ok)

lemma decode32_ok [simp]: "fp_ok binary32 (decode32 w)"
  by (simp add: decode32_def fp_decode_ok)

lemma fp_ok_add [simp]: "fmt_ok F \<Longrightarrow> fp_ok F (fp_add F x y)"
  by (cases "(F, x, y)" rule: fp_add.cases)
    (auto simp: Let_def fp_scale_def emin_le_emax intro: fp_round_ok)

lemma fp_ok_mul [simp]: "fmt_ok F \<Longrightarrow> fp_ok F (fp_mul F x y)"
  by (cases "(F, x, y)" rule: fp_mul.cases) (auto simp: fp_scale_def intro: fp_round_ok)

lemma fp_ok_div [simp]: "fmt_ok F \<Longrightarrow> fp_ok F (fp_div F x y)"
  by (cases "(F, x, y)" rule: fp_div.cases)
    (auto simp: fp_scale_def emin_le_emax intro: fp_round_ok)

lemma fp_ok_conv [simp]: "fmt_ok F \<Longrightarrow> fp_ok F (fp_conv F x)"
  by (cases x) (auto simp: fp_scale_def intro: fp_round_ok)

section \<open>Bounds of rounded results\<close>

lemma fp_scale_ratio: "real (n * 2 ^ nat e) / real (d * 2 ^ nat (- e)) = real n / real d * 2 powi e"
  by (simp add: powi_split)

lemma fp_round_rep:
  assumes F: "fmt_ok F" and k: "k < 2 ^ prec F" "emin F \<le> e" "e \<le> emax F"
  obtains m f where "fp_round F False (k * 2 ^ nat e) (1 * 2 ^ nat (- e)) = FFin False m f"
    "real m * 2 powi f = real k * 2 powi e" "fp_ok F (FFin False m f)"
proof -
  have "real (k * 2 ^ nat e) / real (1 * 2 ^ nat (- e)) = real k * 2 powi e"
    unfolding fp_scale_ratio by simp
  from fp_round_exact [OF F _ this k, of False] obtain m f where
    "fp_round F False (k * 2 ^ nat e) (1 * 2 ^ nat (- e)) = FFin False m f"
    "real m * 2 powi f = real k * 2 powi e" by auto
  with that fp_round_ok [OF F, of "1 * 2 ^ nat (- e)" False "k * 2 ^ nat e"] show thesis by simp
qed

lemma fp_key_le_real:
  assumes "fp_key F (FFin False m e) \<le> fp_key F (FFin False m' e')" "emin F \<le> e" "emin F \<le> e'"
  shows "real m * 2 powi e \<le> real m' * 2 powi e'"
proof -
  have "real_of_int (fp_key F (FFin False m e)) * 2 powi emin F
      \<le> real_of_int (fp_key F (FFin False m' e')) * 2 powi emin F"
    using assms(1) by (intro mult_right_mono) (simp_all only: of_int_le_iff, simp)
  with assms(2,3) show ?thesis by (simp only: fp_key_real fp_real.simps if_False mult_1_left)
qed

lemma fp_round_between:
  assumes F: "fmt_ok F" and d: "0 < d"
    and lo: "real k * 2 powi e \<le> real n / real d" "k < 2 ^ prec F" "emin F \<le> e" "e \<le> emax F"
    and hi: "real n / real d \<le> real l * 2 powi f" "l < 2 ^ prec F" "emin F \<le> f" "f \<le> emax F"
  obtains m g where "fp_round F False n d = FFin False m g" "fp_ok F (FFin False m g)"
    "real k * 2 powi e \<le> real m * 2 powi g" "real m * 2 powi g \<le> real l * 2 powi f"
proof -
  obtain m1 e1 where r1: "fp_round F False (k * 2 ^ nat e) (1 * 2 ^ nat (- e)) = FFin False m1 e1"
    "real m1 * 2 powi e1 = real k * 2 powi e" "fp_ok F (FFin False m1 e1)"
    using fp_round_rep [OF F lo(2-4)] .
  obtain m2 e2 where r2: "fp_round F False (l * 2 ^ nat f) (1 * 2 ^ nat (- f)) = FFin False m2 e2"
    "real m2 * 2 powi e2 = real l * 2 powi f" "fp_ok F (FFin False m2 e2)"
    using fp_round_rep [OF F hi(2-4)] .
  have le1: "fp_key F (FFin False m1 e1) \<le> fp_key F (fp_round F False n d)"
    using lo(1) d unfolding r1(1) [symmetric]
    by (intro fp_round_key_mono [OF F]) (simp_all only: fp_scale_ratio, simp_all)
  have le2: "fp_key F (fp_round F False n d) \<le> fp_key F (FFin False m2 e2)"
    using hi(1) d unfolding r2(1) [symmetric]
    by (intro fp_round_key_mono [OF F]) (simp_all only: fp_scale_ratio, simp_all)
  have key2: "fp_key F (FFin False m2 e2) < 2 ^ (nat (emax F - emin F) + prec F)"
    using r2(3) mant_less_inf [OF F, of m2 e2] by (simp add: with_sign_def)
  have "\<exists>m g. fp_round F False n d = FFin False m g"
  proof (cases "n = 0")
    case False
    then have "0 < n" by simp
    from fp_round_cases [OF F this d, where s = False] le2 key2 show ?thesis
      by (metis fp_key.simps(2) linorder_not_le with_sign_def of_nat_numeral of_nat_power)
  qed (simp add: fp_round_def)
  then obtain m g where r: "fp_round F False n d = FFin False m g" by blast
  have ok: "fp_ok F (FFin False m g)" using fp_round_ok [OF F d, of False n] r by simp
  show thesis
    using that [OF r ok] fp_key_le_real [of F m1 e1 m g] fp_key_le_real [of F m g m2 e2]
      le1 le2 r r1 r2 ok by simp
qed

text \<open>Products, quotients and sums of non-negative numbers as rounded fractions.\<close>

lemma fp_mul_nonneg:
  "\<exists>N D. fp_mul F (FFin False m e) (FFin False n f) = fp_round F False N D \<and> 0 < D
     \<and> real N / real D = (real m * 2 powi e) * (real n * 2 powi f)"
proof (intro exI conjI)
  show "fp_mul F (FFin False m e) (FFin False n f)
      = fp_round F False (m * n * 2 ^ nat (e + f)) (1 * 2 ^ nat (- (e + f)))"
    by (simp add: fp_scale_def)
  show "real (m * n * 2 ^ nat (e + f)) / real (1 * 2 ^ nat (- (e + f)))
      = real m * 2 powi e * (real n * 2 powi f)"
    unfolding fp_scale_ratio by (simp add: power_int_add)
qed simp

lemma fp_div_nonneg:
  assumes "0 < n"
  shows "\<exists>N D. fp_div F (FFin False m e) (FFin False n f) = fp_round F False N D \<and> 0 < D
     \<and> real N / real D = (real m * 2 powi e) / (real n * 2 powi f)"
proof (intro exI conjI)
  show "fp_div F (FFin False m e) (FFin False n f)
      = fp_round F False (m * 2 ^ nat (e - f)) (n * 2 ^ nat (- (e - f)))"
    using assms by (simp add: fp_scale_def)
  show "real (m * 2 ^ nat (e - f)) / real (n * 2 ^ nat (- (e - f)))
      = real m * 2 powi e / (real n * 2 powi f)"
    unfolding fp_scale_ratio by (simp add: power_int_diff)
qed (use assms in simp)

lemma fp_add_nonneg:
  assumes "0 < m + n"
  shows "\<exists>N D. fp_add F (FFin False m e) (FFin False n f) = fp_round F False N D \<and> 0 < D
     \<and> real N / real D = real m * 2 powi e + real n * 2 powi f"
proof (intro exI conjI)
  let ?g = "min e f"
  let ?k = "m * 2 ^ nat (e - ?g) + n * 2 ^ nat (f - ?g)"
  have "int m * 2 ^ nat (e - ?g) + int n * 2 ^ nat (f - ?g) = int ?k" by simp
  moreover have "m \<noteq> 0 \<or> n \<noteq> 0" using assms by auto
  ultimately show "fp_add F (FFin False m e) (FFin False n f)
      = fp_round F False (?k * 2 ^ nat ?g) (1 * 2 ^ nat (- ?g))"
    by (auto simp: fp_scale_def Let_def with_sign_def simp del: of_nat_add of_nat_mult)
  show "real (?k * 2 ^ nat ?g) / real (1 * 2 ^ nat (- ?g)) = real m * 2 powi e + real n * 2 powi f"
    unfolding fp_scale_ratio
    by (cases "e \<le> f") (simp_all add: power_int_diff field_simps flip: power_int_of_nat)
qed simp

lemma trunc_nat_floor: "int (trunc_nat m e) = \<lfloor>real m * 2 powi e\<rfloor>"
proof -
  have "real m * 2 powi e = real (m * 2 ^ nat e) / real (2 ^ nat (- e))"
    by (simp add: powi_split)
  then show ?thesis
    by (simp add: trunc_nat_def floor_divide_of_nat_eq del: of_nat_mult of_nat_power)
qed

lemma fp_round_of_nat:
  assumes "fmt_ok F" "n < 2 ^ prec F" "emin F \<le> 0" "0 \<le> emax F"
  obtains m e where "fp_round F s n 1 = FFin s m e" "real m * 2 powi e = real n"
  using fp_round_exact [OF assms(1), of 1 n n 0 s] assms(2-4) by auto

lemma exp_range: "emin binary64 = -1074" "emax binary64 = 971" "emin binary32 = -149" "emax binary32 = 104"
  "prec binary64 = 53" "prec binary32 = 24"
  by (simp_all add: emin_def emax_def prec_def binary64_def binary32_def)

section \<open>Comparison of doubles\<close>

text \<open>Without NaNs the comparisons are those of the integers \<open>dkey\<close>.\<close>

definition dkey :: "double \<Rightarrow> int" where
  "dkey x = fp_key binary64 (decode64 x)"

lemma dlt_iff: "dlt x y \<longleftrightarrow> \<not> is_nan x \<and> \<not> is_nan y \<and> dkey x < dkey y"
  by (simp add: dlt_def fp_lt_def is_nan_def dkey_def)

lemma dle_iff: "dle x y \<longleftrightarrow> \<not> is_nan x \<and> \<not> is_nan y \<and> dkey x \<le> dkey y"
  by (simp add: dle_def fp_le_def is_nan_def dkey_def)

lemma deq_iff: "deq x y \<longleftrightarrow> \<not> is_nan x \<and> \<not> is_nan y \<and> dkey x = dkey y"
  by (auto simp: deq_def dle_iff)

text \<open>
  Evaluation of closed floating-point terms by the simplifier; the logarithm takes large strides,
  as the aligned mantissas of a sum can have a thousand bits.
\<close>

lemma floorlog_div: "2 ^ c \<le> x \<Longrightarrow> floorlog 2 x = floorlog 2 (x div 2 ^ c) + c"
proof (induction c arbitrary: x)
  case (Suc c)
  then have "2 ^ c \<le> x div 2" by (simp add: less_eq_div_iff_mult_less_eq)
  moreover have "0 < x" using Suc.prems by (metis gr0I not_less zero_less_numeral zero_less_power)
  ultimately show ?case
    using Suc.IH [of "x div 2"] compute_floorlog [of 2 x] by (simp add: div_mult2_eq)
qed simp

lemma floorlog_stride:
  "floorlog 2 (numeral n) =
     (if (2::nat) ^ 256 \<le> numeral n then floorlog 2 (numeral n div 2 ^ 256) + 256
      else if (2::nat) ^ 32 \<le> numeral n then floorlog 2 (numeral n div 2 ^ 32) + 32
      else if (2::nat) ^ 4 \<le> numeral n then floorlog 2 (numeral n div 2 ^ 4) + 4
      else floorlog 2 (numeral n div 2) + 1)"
  "floorlog 2 (Suc 0) = 1" "floorlog 2 0 = 0"
  using floorlog_div [of 256 "numeral n"] floorlog_div [of 32 "numeral n"]
    floorlog_div [of 4 "numeral n"] compute_floorlog [of 2 "numeral n"] compute_floorlog [of 2 1]
    compute_floorlog [of 2 0]
  by simp_all

lemmas fp_eval = dadd_def dneg_def dsub_def dmul_def ddiv_def dlt_def dle_def deq_def is_nan_def
  d_of_nat_def f_of_nat_def d_lit_def f_lit_def float_of_double_def fmul_def fadd_def
  decode64_def encode64_def decode32_def encode32_def fp_decode_def sign_bit_def
  fp_lt_def fp_le_def fp_scale_def fp_round_def ulp_exp_def flog2_def rne_def with_sign_def
  trunc_nat_def floorlog_stride fields64 fields32 exp_range Let_def

section \<open>Small integers\<close>

text \<open>Integers below \<open>2^53\<close> are doubles, and their sums are exact.\<close>

lemma decode_d_of_nat:
  assumes "n < 2 ^ 53"
  obtains m e where "decode64 (d_of_nat n) = FFin False m e" "real m * 2 powi e = real n"
    "fp_round binary64 False n 1 = FFin False m e" "fp_ok binary64 (FFin False m e)"
proof -
  obtain m e where "fp_round binary64 False n 1 = FFin False m e" "real m * 2 powi e = real n"
    using fp_round_of_nat [of binary64 n False] assms by (auto simp: fields64 exp_range)
  then show thesis
    using that fp_round_ok [of binary64 1 False n] decode64_encode64 [of "FFin False m e"] by (simp add: d_of_nat_def)
qed

lemma dadd_of_nat:
  assumes "a + b < 2 ^ 53"
  shows "dadd (d_of_nat a) (d_of_nat b) = d_of_nat (a + b)"
proof -
  obtain m e where a: "decode64 (d_of_nat a) = FFin False m e" "real m * 2 powi e = real a"
    by (rule decode_d_of_nat [of a]) (use assms in auto)
  obtain n f where b: "decode64 (d_of_nat b) = FFin False n f" "real n * 2 powi f = real b"
    by (rule decode_d_of_nat [of b]) (use assms in auto)
  obtain k g where c: "fp_round binary64 False (a + b) 1 = FFin False k g" "real k * 2 powi g = real (a + b)"
     "fp_ok binary64 (FFin False k g)"
    using decode_d_of_nat [OF assms] by metis
  have "fp_add binary64 (FFin False m e) (FFin False n f) = FFin False k g"
  proof (cases "m + n = 0")
    case True
    with a(2) b(2) have "a + b = 0" by auto
    with c(1) True show ?thesis by (simp add: fp_round_def with_sign_def)
  next
    case False
    with fp_add_nonneg [of m n binary64 e f] obtain N D where
      "fp_add binary64 (FFin False m e) (FFin False n f) = fp_round binary64 False N D" "0 < D"
      "real N / real D = real a + real b" using a(2) b(2) by auto
    with fp_round_self [OF _ c(3), of D N] c(2) show ?thesis by simp
  qed
  with a b c(1) show ?thesis by (simp add: dadd_def d_of_nat_def)
qed

lemma unat_of_d_of_nat: "n < 2 ^ 32 \<Longrightarrow> fp_to_unat 32 (decode64 (d_of_nat n)) = Inr n"
proof -
  assume n: "n < 2 ^ 32"
  obtain m e where a: "decode64 (d_of_nat n) = FFin False m e" "real m * 2 powi e = real n"
    by (rule decode_d_of_nat [of n]) (use n in auto)
  have "trunc_nat m e = n" using trunc_nat_floor [of m e] a(2) by simp
  with a n show ?thesis by simp
qed

lemma d_of_nat_0: "d_of_nat 0 = 0" by (simp add: fp_eval fp_round_def)

lemma dmul_of_nat:
  assumes "a < 2 ^ 53" "b < 2 ^ 53" "a * b < 2 ^ 53"
  shows "dmul (d_of_nat a) (d_of_nat b) = d_of_nat (a * b)"
proof -
  obtain m e where a: "decode64 (d_of_nat a) = FFin False m e" "real m * 2 powi e = real a"
    by (rule decode_d_of_nat [OF assms(1)]) auto
  obtain n f where b: "decode64 (d_of_nat b) = FFin False n f" "real n * 2 powi f = real b"
    by (rule decode_d_of_nat [OF assms(2)]) auto
  obtain k g where c: "fp_round binary64 False (a * b) 1 = FFin False k g" "real k * 2 powi g = real (a * b)"
     "fp_ok binary64 (FFin False k g)"
    using decode_d_of_nat [OF assms(3)] by metis
  obtain N D where "fp_mul binary64 (FFin False m e) (FFin False n f) = fp_round binary64 False N D" "0 < D"
      "real N / real D = real a * real b"
    using fp_mul_nonneg [of binary64 m e n f] a(2) b(2) by auto
  with fp_round_self [OF _ c(3), of D N] c(2)
  have "fp_mul binary64 (FFin False m e) (FFin False n f) = FFin False k g" by simp
  with a b c(1) show ?thesis by (simp add: dmul_def d_of_nat_def del: fp_mul.simps)
qed

lemma dkey_d_of_nat: "n < 2 ^ 53 \<Longrightarrow> dkey (d_of_nat n) = int n * 2 ^ 1074"
proof -
  assume n: "n < 2 ^ 53"
  obtain m e where a: "decode64 (d_of_nat n) = FFin False m e" "real m * 2 powi e = real n" "emin binary64 \<le> e"
    by (rule decode_d_of_nat [OF n]) auto
  then have "real_of_int (dkey (d_of_nat n)) = real m * 2 ^ nat (e + 1074)"
    by (simp add: dkey_def with_sign_def exp_range)
  also have "\<dots> = real m * 2 powi (e + 1074)" using a(3) by (simp add: power_int_def exp_range)
  also have "\<dots> = real n * 2 powi 1074" using a(2) by (simp add: power_int_add)
  also have "\<dots> = real_of_int (int n * 2 ^ 1074)" by simp
  finally show ?thesis by (simp only: of_int_eq_iff)
qed

lemma is_nan_d_of_nat: "n < 2 ^ 53 \<Longrightarrow> \<not> is_nan (d_of_nat n)"
  unfolding is_nan_def by (rule decode_d_of_nat [of n]) auto

lemma dle_d_of_nat: "a < 2 ^ 53 \<Longrightarrow> b < 2 ^ 53 \<Longrightarrow> dle (d_of_nat a) (d_of_nat b) \<longleftrightarrow> a \<le> b"
  by (simp add: dle_iff is_nan_d_of_nat dkey_d_of_nat del: power_numeral)

lemma dlt_d_of_nat: "a < 2 ^ 53 \<Longrightarrow> b < 2 ^ 53 \<Longrightarrow> dlt (d_of_nat a) (d_of_nat b) \<longleftrightarrow> a < b"
  by (simp add: dlt_iff is_nan_d_of_nat dkey_d_of_nat del: power_numeral)

lemma bit_63: "bit (x::double) 63 \<longleftrightarrow> 2 ^ 63 \<le> unat x"
proof -
  have "bit x 63 \<longleftrightarrow> bit (unat x) 63" by (simp add: bit_unsigned_iff)
  also have "\<dots> \<longleftrightarrow> odd (unat x div 2 ^ 63)" by (rule bit_iff_odd)
  also have "unat x div 2 ^ 63 < 2"
    using unsigned_less [of x, where ?'a = nat] by (simp add: less_mult_imp_div_less)
  then have "odd (unat x div 2 ^ 63) \<longleftrightarrow> 0 < unat x div 2 ^ 63" by (auto simp: less_2_cases_iff)
  finally show ?thesis by (simp add: div_greater_zero_iff)
qed

lemma unat_dneg: "unat (dneg x) = (if 2 ^ 63 \<le> unat x then unat x - 2 ^ 63 else unat x + 2 ^ 63)"
proof -
  have "dneg x = flip_bit 63 x" by (simp add: dneg_def flip_bit_eq_xor)
  also have "\<dots> = (if bit x 63 then x - 2 ^ 63 else x + 2 ^ 63)"
    by (simp add: flip_bit_eq_if set_bit_eq unset_bit_eq)
  finally show ?thesis
    using unsigned_less [of x, where ?'a = nat] by (auto simp: bit_63 unat_word_ariths unat_sub_if')
qed

lemma decode64_dneg: "decode64 (dneg x) = fp_neg (decode64 x)"
proof -
  have f: "fp_decode binary64 (u + 2 ^ 63) = fp_neg (fp_decode binary64 u)" if "u < 2 ^ 63" for u
  proof -
    have u: "u + 2 ^ 63 = 2 ^ 52 * 2 ^ 11 + u" by simp
    have m: "(u + 2 ^ 63) mod 2 ^ 52 = u mod 2 ^ 52" unfolding u by (rule mod_mult_self4)
    have "(u + 2 ^ 63) div 2 ^ 52 = 2 ^ 11 + u div 2 ^ 52" unfolding u by (rule div_mult_self4) simp
    then have "(u + 2 ^ 63) div 2 ^ 52 mod 2 ^ 11 = u div 2 ^ 52 mod 2 ^ 11" by simp
    with m that show ?thesis by (simp add: fp_decode_def fields64 Let_def)
  qed
  show ?thesis
  proof (cases "2 ^ 63 \<le> unat x")
    case True
    have "fp_neg (fp_neg y) = y" for y by (cases y) auto
    with f [of "unat x - 2 ^ 63"] True unsigned_less [of x, where ?'a = nat] show ?thesis
      by (simp add: decode64_def unat_dneg)
  next
    case False
    with f [of "unat x"] show ?thesis by (simp add: decode64_def unat_dneg)
  qed
qed

lemma dsub_of_nat:
  assumes "b \<le> a" "a < 2 ^ 53"
  shows "dsub (d_of_nat a) (d_of_nat b) = d_of_nat (a - b)"
proof -
  obtain m e where a: "decode64 (d_of_nat a) = FFin False m e" "real m * 2 powi e = real a"
    by (rule decode_d_of_nat [OF assms(2)]) auto
  obtain n f where b: "decode64 (d_of_nat b) = FFin False n f" "real n * 2 powi f = real b"
    by (rule decode_d_of_nat [of b]) (use assms in auto)
  obtain k g where c: "fp_round binary64 False (a - b) 1 = FFin False k g" "real k * 2 powi g = real (a - b)"
     "fp_ok binary64 (FFin False k g)"
    by (rule decode_d_of_nat [of "a - b"]) (use assms in auto)
  let ?g = "min e f"
  let ?k = "int m * 2 ^ nat (e - ?g) - int n * 2 ^ nat (f - ?g)"
  have powi: "real_of_int (2 ^ nat (x - ?g)) * 2 powi ?g = 2 powi x" if "?g \<le> x" for x :: int
  proof -
    have "(2::real) ^ nat (x - ?g) = 2 powi (x - ?g)" using that by (simp add: power_int_def)
    then show ?thesis by (simp add: power_int_diff)
  qed
  have kr: "real_of_int ?k * 2 powi ?g = real (a - b)"
    using powi [of e] powi [of f] a(2) b(2) assms(1)
    by (simp add: left_diff_distrib mult.assoc of_nat_diff)
  have "fp_add binary64 (FFin False m e) (FFin True n f) = FFin False k g"
  proof (cases "?k = 0")
    case True
    with kr have "a - b = 0" by simp
    with c(1) True show ?thesis by (simp add: fp_round_def with_sign_def)
  next
    case False
    have "0 \<le> real_of_int ?k * 2 powi ?g" unfolding kr by simp
    then have "0 \<le> ?k" by (simp only: zero_le_mult_iff of_int_0_le_iff) (metis not_le zero_less_numeral zero_less_power_int)
    with False have "0 < ?k" by simp
    then have "fp_add binary64 (FFin False m e) (FFin True n f) = fp_round binary64 False (nat ?k * 2 ^ nat ?g) (1 * 2 ^ nat (- ?g))"
      by (simp add: with_sign_def fp_scale_def Let_def)
    moreover have "real (nat ?k * 2 ^ nat ?g) / real (1 * 2 ^ nat (- ?g)) = real k * 2 powi g"
      unfolding fp_scale_ratio using kr c(2) \<open>0 < ?k\<close> by simp
    ultimately show ?thesis using fp_round_self [OF _ c(3)] by simp
  qed
  with a b c(1) show ?thesis by (simp add: dsub_def dadd_def d_of_nat_def decode64_dneg)
qed

text \<open>Integers with a sign.\<close>

lemma encode64_neg:
  assumes "fp_ok binary64 (FFin s m e)"
  shows "encode64 (FFin True m e) = dneg (encode64 (FFin False m e))"
proof -
  let ?n = "fp_encode binary64 (FFin False m e)"
  have e: "fp_encode binary64 (FFin True m e) = 2 ^ 63 + ?n" by (simp add: sign_bit_def fields64)
  have "fp_ok binary64 (FFin True m e)" using assms by simp
  then have "2 ^ 63 + ?n < 2 ^ 64" using fp_encode_less [of binary64 "FFin True m e"] unfolding e by (simp add: fields64)
  then have n: "?n < 2 ^ 63" by simp
  then have u: "unat (encode64 (FFin False m e)) = ?n" by (simp only: encode64_def unat_of_nat) simp
  have "unat (encode64 (FFin True m e)) = 2 ^ 63 + ?n"
    unfolding encode64_def e using n by (simp only: unat_of_nat) simp
  then have "unat (encode64 (FFin True m e)) = unat (dneg (encode64 (FFin False m e)))"
    using n by (simp only: unat_dneg u) simp
  then show ?thesis by (simp only: word_unat_eq_iff)
qed

lemma decode_d_of_int:
  assumes "\<bar>i\<bar> < 2 ^ 53"
  obtains m e where "decode64 (d_of_int i) = FFin (i < 0) m e" "real m * 2 powi e = real_of_int \<bar>i\<bar>"
    "d_of_int i = encode64 (FFin (i < 0) m e)" "fp_ok binary64 (FFin (i < 0) m e)"
proof -
  have "nat \<bar>i\<bar> < 2 ^ 53" using assms by simp
  then obtain m e where m: "decode64 (d_of_nat (nat \<bar>i\<bar>)) = FFin False m e" "real m * 2 powi e = real (nat \<bar>i\<bar>)"
    "fp_round binary64 False (nat \<bar>i\<bar>) 1 = FFin False m e" "fp_ok binary64 (FFin False m e)" by (rule decode_d_of_nat)
  have r: "real m * 2 powi e = real_of_int \<bar>i\<bar>" using m(2) by simp
  have "d_of_int i = encode64 (FFin (i < 0) m e)"
  proof (cases "i < 0")
    case True
    then have "nat \<bar>i\<bar> = nat (- i)" by simp
    with True m(3) encode64_neg [OF m(4)] show ?thesis by (simp add: d_of_int_def d_of_nat_def)
  next
    case False
    then have "nat \<bar>i\<bar> = nat i" by simp
    with False m(3) show ?thesis by (simp add: d_of_int_def d_of_nat_def)
  qed
  with m(4) r that [of m e] show thesis by (simp add: decode64_encode64)
qed

lemma dadd_of_int:
  assumes "\<bar>a\<bar> < 2 ^ 53" "\<bar>b\<bar> < 2 ^ 53" "\<bar>a + b\<bar> < 2 ^ 53"
  shows "dadd (d_of_int a) (d_of_int b) = d_of_int (a + b)"
proof -
  obtain m e where a: "decode64 (d_of_int a) = FFin (a < 0) m e" "real m * 2 powi e = real_of_int \<bar>a\<bar>"
    by (rule decode_d_of_int [OF assms(1)])
  obtain n f where b: "decode64 (d_of_int b) = FFin (b < 0) n f" "real n * 2 powi f = real_of_int \<bar>b\<bar>"
    by (rule decode_d_of_int [OF assms(2)])
  obtain k g where c: "real k * 2 powi g = real_of_int \<bar>a + b\<bar>" "d_of_int (a + b) = encode64 (FFin (a + b < 0) k g)"
    "fp_ok binary64 (FFin (a + b < 0) k g)" by (rule decode_d_of_int [OF assms(3)])
  let ?g = "min e f"
  let ?k = "with_sign (a < 0) m * 2 ^ nat (e - ?g) + with_sign (b < 0) n * 2 ^ nat (f - ?g)"
  have powi: "real_of_int (2 ^ nat (x - ?g)) * 2 powi ?g = 2 powi x" if "?g \<le> x" for x :: int
  proof -
    have "(2::real) ^ nat (x - ?g) = 2 powi (x - ?g)" using that by (simp add: power_int_def)
    then show ?thesis by (simp add: power_int_diff)
  qed
  have "real_of_int (with_sign (a < 0) m) * 2 powi e = real_of_int a" "real_of_int (with_sign (b < 0) n) * 2 powi f = real_of_int b"
    using a(2) b(2) by (simp_all add: with_sign_def split: if_splits)
  then have kr: "real_of_int ?k * 2 powi ?g = real_of_int (a + b)"
    using powi [of e] powi [of f] by (simp add: distrib_right mult.assoc)
  have pos: "(0::real) < 2 powi ?g" by simp
  then have np: "\<not> (2::real) powi ?g < 0" "(2::real) powi ?g \<noteq> 0" by linarith+
  have sg: "?k < 0 \<longleftrightarrow> a + b < 0" "?k = 0 \<longleftrightarrow> a + b = 0"
    using arg_cong [OF kr, of "\<lambda>x. x < 0"] arg_cong [OF kr, of "\<lambda>x. x = 0"] pos
    by (simp_all only: mult_less_0_iff mult_eq_0_iff of_int_less_0_iff of_int_eq_0_iff np simp_thms)
  have "fp_add binary64 (FFin (a < 0) m e) (FFin (b < 0) n f) = FFin (a + b < 0) k g"
  proof (cases "?k = 0")
    case True
    then have z: "a + b = 0" using sg by simp
    with c(1) have "k = 0" by simp
    moreover have "g = emin binary64" using c(3) \<open>k = 0\<close> by (auto simp: fields64)
    moreover have "(a < 0 \<and> b < 0) = (a + b < 0)" using z by linarith
    ultimately show ?thesis by (simp only: fp_add.simps Let_def True refl if_True)
  next
    case False
    have "\<bar>real_of_int ?k * 2 powi ?g\<bar> = real_of_int \<bar>a + b\<bar>" unfolding kr by simp
    then have "real_of_int \<bar>?k\<bar> * 2 powi ?g = real k * 2 powi g" unfolding c(1) abs_mult abs_of_pos [OF pos] of_int_abs .
    then have "real (nat \<bar>?k\<bar>) * 2 powi ?g = real k * 2 powi g" by (simp only: of_nat_nat abs_ge_zero)
    then have "real (nat \<bar>?k\<bar> * 2 ^ nat ?g) / real (1 * 2 ^ nat (- ?g)) = real k * 2 powi g"
      unfolding fp_scale_ratio by (simp only: of_nat_1 div_by_1)
    then have "fp_round binary64 (a + b < 0) (nat \<bar>?k\<bar> * 2 ^ nat ?g) (1 * 2 ^ nat (- ?g)) = FFin (a + b < 0) k g"
      by (intro fp_round_self [OF fmt_ok_binary(1) c(3)]) (simp only: mult_1 zero_less_power zero_less_numeral)
    with False sg show ?thesis by (simp only: fp_add.simps Let_def fp_scale_def if_False)
  qed
  with a(1) b(1) c(2) show ?thesis by (simp add: dadd_def)
qed

end
