(* ===== verification/Slab.thy ===== *)
theory Slab
  imports Prelude
begin

text \<open>
  The slab allocator (\<^verbatim>\<open>src/slab.c\<close>, \<^verbatim>\<open>src/slab.h\<close>): pages of 4096 bytes, each a header of 16 bytes
  (\<^verbatim>\<open>next\<close>, \<^verbatim>\<open>alloc\<close>) and a heap from which requests, rounded up to 32 bytes, are cut. The nodes
  form a list whose head is \<^verbatim>\<open>slab->current\<close>; a pointer is the number of a node, counted from the
  first one pushed, and an offset into its heap.
\<close>

section \<open>Model\<close>

abbreviation SLAB_SIZE :: u64 where
  "SLAB_SIZE \<equiv> 32"

abbreviation SLABS_PER_NODE :: u64 where
  "SLABS_PER_NODE \<equiv> 128"

abbreviation NODE_SIZE :: u64 where
  "NODE_SIZE \<equiv> SLAB_SIZE * (SLABS_PER_NODE - 1)"

record brubeck_slab_node =
  node_alloc :: u64

record brubeck_slab =
  current :: "brubeck_slab_node list"
  total_alloc :: u64

type_synonym slab_ptr = "nat \<times> nat"

text \<open>The bytes of \<^verbatim>\<open>heap[]\<close> that the page of a node really has.\<close>

definition heap_bytes :: nat where
  "heap_bytes = unat (SLAB_SIZE * SLABS_PER_NODE) - 16"

definition push_node :: "brubeck_slab \<Rightarrow> brubeck_slab" where
  "push_node slab = slab\<lparr>current := \<lparr>node_alloc = 0\<rparr> # current slab\<rparr>"

definition round_need :: "u64 \<Rightarrow> u64" where
  "round_need need = (need + SLAB_SIZE - 1) AND NOT (SLAB_SIZE - 1)"

definition brubeck_slab_alloc :: "brubeck_slab \<Rightarrow> u64 \<Rightarrow> (brubeck_slab \<times> slab_ptr) res" where
  "brubeck_slab_alloc slab0 need0 =
     (let need = round_need need0 in
      case current slab0 of
        [] \<Rightarrow> Inl NullPointer
      | node0 # _ \<Rightarrow>
          let slab = (if node_alloc node0 + need > NODE_SIZE then push_node slab0 else slab0);
              slab = slab\<lparr>total_alloc := total_alloc slab + need\<rparr>;
              node = hd (current slab);
              ptr = (length (current slab) - 1, unat (node_alloc node))
          in Inr (slab\<lparr>current := node\<lparr>node_alloc := node_alloc node + need\<rparr> # tl (current slab)\<rparr>,
                  ptr))"

definition brubeck_slab_init :: "brubeck_slab \<Rightarrow> brubeck_slab" where
  "brubeck_slab_init slab = push_node slab"

text \<open>A run of allocations, with the blocks handed out, newest first.\<close>

fun slab_allocs :: "brubeck_slab \<Rightarrow> u64 list \<Rightarrow> (brubeck_slab \<times> slab_ptr list) res" where
  "slab_allocs slab [] = Inr (slab, [])"
| "slab_allocs slab (n # ns) =
     rbind (brubeck_slab_alloc slab n) (\<lambda>(slab', p).
       rbind (slab_allocs slab' ns) (\<lambda>(slab'', ps). Inr (slab'', p # ps)))"

text \<open>The invariant: there is a node, and every node is filled with whole slabs up to its size.\<close>

definition node_ok :: "brubeck_slab_node \<Rightarrow> bool" where
  "node_ok nd \<longleftrightarrow> unat (node_alloc nd) \<le> 4064 \<and> 32 dvd unat (node_alloc nd)"

definition slab_inv :: "brubeck_slab \<Rightarrow> bool" where
  "slab_inv slab \<longleftrightarrow> current slab \<noteq> [] \<and> list_all node_ok (current slab)"

text \<open>The bytes handed out so far, as a set of addresses, and the bytes of one block.\<close>

definition used :: "brubeck_slab \<Rightarrow> slab_ptr set" where
  "used slab = {(i, off). i < length (current slab) \<and>
     off < unat (node_alloc (rev (current slab) ! i))}"

definition block :: "slab_ptr \<Rightarrow> nat \<Rightarrow> slab_ptr set" where
  "block p n = {(i, off). i = fst p \<and> snd p \<le> off \<and> off < snd p + n}"

section \<open>The interface of an allocator\<close>

text \<open>
  What a client of the allocator relies on: from a good state a request of an admissible size
  succeeds, keeps the state good, and hands out bytes nobody had before. Two requests of a run
  then never share a byte.
\<close>

locale allocator =
  fixes alloc :: "'s \<Rightarrow> 'n \<Rightarrow> ('s \<times> 'p) res"
    and inv :: "'s \<Rightarrow> bool"
    and small :: "'n \<Rightarrow> bool"
    and taken :: "'s \<Rightarrow> 'a set"
    and bytes :: "'p \<Rightarrow> 'n \<Rightarrow> 'a set"
  assumes alloc_total: "inv s \<Longrightarrow> small n \<Longrightarrow> \<exists>s' p. alloc s n = Inr (s', p)"
    and alloc_inv: "inv s \<Longrightarrow> small n \<Longrightarrow> alloc s n = Inr (s', p) \<Longrightarrow> inv s'"
    and alloc_fresh: "inv s \<Longrightarrow> small n \<Longrightarrow> alloc s n = Inr (s', p) \<Longrightarrow> bytes p n \<inter> taken s = {}"
    and alloc_taken: "inv s \<Longrightarrow> small n \<Longrightarrow> alloc s n = Inr (s', p) \<Longrightarrow> taken s' = taken s \<union> bytes p n"
begin

fun allocs :: "'s \<Rightarrow> 'n list \<Rightarrow> ('s \<times> 'p list) res" where
  "allocs s [] = Inr (s, [])"
| "allocs s (n # ns) =
     rbind (alloc s n) (\<lambda>(s', p). rbind (allocs s' ns) (\<lambda>(s'', ps). Inr (s'', p # ps)))"

lemma allocs_run:
  assumes "inv s" "\<forall>n\<in>set ns. small n"
  shows "\<exists>s' ps. allocs s ns = Inr (s', ps) \<and> inv s' \<and> length ps = length ns
    \<and> (\<forall>i<length ns. bytes (ps ! i) (ns ! i) \<inter> taken s = {})
    \<and> (\<forall>i<length ns. \<forall>j<i. bytes (ps ! i) (ns ! i) \<inter> bytes (ps ! j) (ns ! j) = {})"
  using assms
proof (induction ns arbitrary: s)
  case Nil
  then show ?case by simp
next
  case (Cons n ns)
  then obtain s1 p where a: "alloc s n = Inr (s1, p)" using alloc_total by fastforce
  with Cons.prems have "inv s1" and t1: "taken s1 = taken s \<union> bytes p n" and fr: "bytes p n \<inter> taken s = {}"
    using alloc_inv alloc_taken alloc_fresh by auto
  with Cons.IH [of s1] Cons.prems obtain s2 ps where r: "allocs s1 ns = Inr (s2, ps)" "inv s2"
    "length ps = length ns" "\<forall>i<length ns. bytes (ps ! i) (ns ! i) \<inter> taken s1 = {}"
    "\<forall>i<length ns. \<forall>j<i. bytes (ps ! i) (ns ! i) \<inter> bytes (ps ! j) (ns ! j) = {}" by auto
  have "\<forall>i<length (n # ns). bytes ((p # ps) ! i) ((n # ns) ! i) \<inter> taken s = {}"
  proof (intro allI impI)
    fix i assume "i < length (n # ns)"
    then show "bytes ((p # ps) ! i) ((n # ns) ! i) \<inter> taken s = {}"
      using r(4) fr t1 by (cases i) auto
  qed
  moreover have "\<forall>i<length (n # ns). \<forall>j<i.
      bytes ((p # ps) ! i) ((n # ns) ! i) \<inter> bytes ((p # ps) ! j) ((n # ns) ! j) = {}"
  proof (intro allI impI)
    fix i j assume "i < length (n # ns)" "j < i"
    then show "bytes ((p # ps) ! i) ((n # ns) ! i) \<inter> bytes ((p # ps) ! j) ((n # ns) ! j) = {}"
      using r(4,5) t1 by (cases i; cases j) auto
  qed
  ultimately show ?case using a r by auto
qed

end

section \<open>The slab allocator meets it\<close>

lemma round_need_unat:
  assumes "unat need \<le> 2 ^ 63"
  shows "unat (round_need need) = (unat need + 31) div 32 * 32"
proof -
  have eq: "round_need need = (need + 31) AND NOT (mask 5)"
    by (simp add: round_need_def mask_eq_exp_minus_1 add.commute)
  have "unat (need + 31) = unat need + 31"
    using assms by (simp add: unat_word_ariths)
  then show ?thesis by (simp add: eq unat_and_not_mask)
qed

lemma round_need_small:
  assumes "unat need \<le> 4064"
  shows "unat (round_need need) \<le> 4064" "unat need \<le> unat (round_need need)"
    "32 dvd unat (round_need need)"
proof -
  have eq: "unat (round_need need) = (unat need + 31) div 32 * 32"
    using assms by (intro round_need_unat) simp
  have "(unat need + 31) div 32 \<le> 4095 div 32" using assms by (intro div_le_mono) simp
  then show "unat (round_need need) \<le> 4064" unfolding eq by simp
  show "unat need \<le> unat (round_need need)" unfolding eq by linarith
  show "32 dvd unat (round_need need)" by (simp add: eq)
qed

lemma slab_alloc_cases:
  assumes "slab_inv slab" "unat need \<le> 4064"
  obtains (fits) nd nds where "current slab = nd # nds" "node_ok nd"
      "unat (node_alloc nd) + unat (round_need need) \<le> 4064"
      "brubeck_slab_alloc slab need = Inr (slab\<lparr>
         current := nd\<lparr>node_alloc := node_alloc nd + round_need need\<rparr> # nds,
         total_alloc := total_alloc slab + round_need need\<rparr>, (length nds, unat (node_alloc nd)))"
      "unat (node_alloc nd + round_need need) = unat (node_alloc nd) + unat (round_need need)"
    | (new) "brubeck_slab_alloc slab need = Inr (slab\<lparr>
         current := \<lparr>node_alloc = round_need need\<rparr> # current slab,
         total_alloc := total_alloc slab + round_need need\<rparr>, (length (current slab), 0))"
proof -
  obtain nd nds where c: "current slab = nd # nds" "node_ok nd"
    using assms(1) by (cases "current slab") (auto simp: slab_inv_def)
  note r = round_need_small [OF assms(2)]
  have sum: "unat (node_alloc nd + round_need need) = unat (node_alloc nd) + unat (round_need need)"
    using c(2) r by (simp add: node_ok_def unat_word_ariths)
  show thesis
  proof (cases "unat (node_alloc nd) + unat (round_need need) \<le> 4064")
    case True
    then have "\<not> node_alloc nd + round_need need > NODE_SIZE"
      by (simp add: word_less_nat_alt sum not_less)
    with c True sum show thesis
      by (intro fits [of nd nds]) (auto simp: brubeck_slab_alloc_def Let_def)
  next
    case False
    then have "node_alloc nd + round_need need > NODE_SIZE"
      by (simp add: word_less_nat_alt sum not_less)
    with c show thesis
      by (intro new) (auto simp: brubeck_slab_alloc_def Let_def push_node_def)
  qed
qed

lemma slab_alloc_inv:
  assumes "slab_inv slab" "unat need \<le> 4064" "brubeck_slab_alloc slab need = Inr (slab', p)"
  shows "slab_inv slab'"
  using assms(1,2)
proof (cases rule: slab_alloc_cases [case_names fits new])
  case (fits nd nds)
  with assms round_need_small [OF assms(2)] show ?thesis
    by (auto simp: slab_inv_def node_ok_def)
next
  case new
  with assms round_need_small [OF assms(2)] show ?thesis
    by (auto simp: slab_inv_def node_ok_def)
qed

lemma used_Cons:
  "current slab = nd # nds \<Longrightarrow> used slab =
     {length nds} \<times> {..<unat (node_alloc nd)} \<union>
     {(i, off). i < length nds \<and> off < unat (node_alloc (rev nds ! i))}"
  by (auto simp: used_def nth_append less_Suc_eq split: if_splits)

lemma slab_alloc_used:
  assumes "slab_inv slab" "unat need \<le> 4064" "brubeck_slab_alloc slab need = Inr (slab', p)"
  shows "block p (unat (round_need need)) \<inter> used slab = {}
    \<and> used slab' = used slab \<union> block p (unat (round_need need))
    \<and> fst p < length (current slab') \<and> snd p + unat (round_need need) \<le> 4064 \<and> 32 dvd snd p"
  using assms(1,2)
proof (cases rule: slab_alloc_cases [case_names fits new])
  case (fits nd nds)
  then have eqs: "p = (length nds, unat (node_alloc nd))"
    "current slab' = nd\<lparr>node_alloc := node_alloc nd + round_need need\<rparr> # nds"
    using assms(3) by auto
  show ?thesis
    using fits(2,3,5) by (auto simp: used_Cons [OF fits(1)] used_Cons [OF eqs(2)] eqs block_def node_ok_def)
next
  case new
  then have eqs: "p = (length (current slab), 0)"
    "current slab' = \<lparr>node_alloc = round_need need\<rparr> # current slab"
    using assms(3) by auto
  show ?thesis
    using round_need_small [OF assms(2)]
    by (auto simp: used_def [of slab] used_Cons [OF eqs(2)] eqs block_def)
qed

interpretation slab: allocator brubeck_slab_alloc slab_inv "\<lambda>n. unat n \<le> 4064" used
  "\<lambda>p n. block p (unat (round_need n))"
proof (unfold_locales, goal_cases)
  case (1 s n)
  then show ?case by (cases rule: slab_alloc_cases [case_names fits new]) auto
next
  case (2 s n s' p)
  then show ?case by (rule slab_alloc_inv)
next
  case (3 s n s' p)
  then show ?case using slab_alloc_used by blast
next
  case (4 s n s' p)
  then show ?case using slab_alloc_used by blast
qed

lemma slab_allocs_eq: "slab_allocs s ns = slab.allocs s ns"
  by (induction s ns rule: slab_allocs.induct) (auto simp: rbind_def split: sum.splits prod.splits)

section \<open>Properties\<close>

lemma slab_init_inv: "slab_inv (brubeck_slab_init \<lparr>current = [], total_alloc = t\<rparr>)"
  by (simp add: slab_inv_def brubeck_slab_init_def push_node_def node_ok_def)

lemma slab_alloc_large:
  assumes "slab_inv slab" "4064 < unat need" "unat need \<le> 2 ^ 63"
    "brubeck_slab_alloc slab need = Inr (slab', p)"
  shows "snd p = 0"
proof -
  obtain nd nds where c: "current slab = nd # nds" "unat (node_alloc nd) \<le> 4064"
    using assms(1) by (cases "current slab") (auto simp: slab_inv_def node_ok_def)
  have "4096 div 32 \<le> (unat need + 31) div 32"
    using assms(2) by (intro div_le_mono) simp
  then have r: "unat (round_need need) \<le> 2 ^ 63 + 31" "4064 < unat (round_need need)"
    using round_need_unat [OF assms(3)] assms(3) by linarith+
  then have "unat (node_alloc nd + round_need need) = unat (node_alloc nd) + unat (round_need need)"
    using c(2) by (simp add: unat_word_ariths)
  with r have "node_alloc nd + round_need need > NODE_SIZE"
    by (simp add: word_less_nat_alt)
  with c assms(4) show ?thesis
    by (auto simp: brubeck_slab_alloc_def Let_def push_node_def)
qed



text \<open>
  The bytes of a block lie inside the page of its node exactly when the request has at most
  4080 bytes. A larger request makes the allocator hand out memory past the end of the page.
\<close>

theorem slab_alloc_in_page_iff:
  assumes "slab_inv slab" "unat need \<le> 2 ^ 63" "brubeck_slab_alloc slab need = Inr (slab', p)"
  shows "snd p + unat need \<le> heap_bytes \<longleftrightarrow> unat need \<le> 4080"
proof (cases "unat need \<le> 4064")
  case True
  with slab_alloc_used [OF assms(1) True assms(3)] round_need_small [OF True] show ?thesis
    by (simp add: heap_bytes_def)
next
  case False
  with slab_alloc_large [OF assms(1) _ assms(2,3)] show ?thesis by (simp add: heap_bytes_def)
qed

theorem slab_alloc_in_page_iff_witness:
  "\<exists>slab' p. brubeck_slab_alloc (brubeck_slab_init \<lparr>current = [], total_alloc = 0\<rparr>) 4097 = Inr (slab', p)
    \<and> \<not> snd p + 4097 \<le> heap_bytes"
proof -
  obtain slab' p where a: "brubeck_slab_alloc (brubeck_slab_init \<lparr>current = [], total_alloc = 0\<rparr>) 4097
      = Inr (slab', p)"
    by (simp add: brubeck_slab_alloc_def brubeck_slab_init_def push_node_def Let_def)
  from slab_alloc_in_page_iff [OF slab_init_inv _ a] have "\<not> snd p + 4097 \<le> heap_bytes" by simp
  with a show ?thesis by blast
qed

end
