(* ===== verification/Bloom.thy ===== *)
theory Bloom
  imports IEEE754
begin

text \<open>
  The rolling Bloom filters of the secure sampler (\<^verbatim>\<open>src/bloom.c\<close>, \<^verbatim>\<open>src/bloom.h\<close>): bit fields
  indexed by double hashing in 32-bit arithmetic. The filters refine sets of bit positions:
  \<open>multibloom_check\<close> answers whether all positions of an entry were set and sets them.
\<close>

section \<open>Model\<close>

record multibloom =
  bits :: u32
  nbytes :: nat
  hashes :: u32
  filters :: "u8 list list"

text \<open>The position probed in round \<open>i\<close>, \<^verbatim>\<open>(a + i*b) % bloom->bits\<close>.\<close>

definition probe :: "u32 \<Rightarrow> u32 \<Rightarrow> u32 \<Rightarrow> nat \<Rightarrow> u32" where
  "probe bs a b i = (a + word_of_nat i * b) mod bs"

function check_loop :: "u32 \<Rightarrow> nat \<Rightarrow> u32 \<Rightarrow> u32 \<Rightarrow> u8 list \<Rightarrow> nat \<Rightarrow> nat \<Rightarrow> (u8 list \<times> nat) res" where
  "check_loop bs k a b fl hits i =
     (if i < k then
        if bs = 0 then Inl DivByZero else
        let x = probe bs a b i;
            byte = drop_bit 3 x;
            mask = push_bit (unat (x mod 8)) 1
        in rbind (rd fl (uint byte)) (\<lambda>c.
             if c AND mask \<noteq> 0 then check_loop bs k a b fl (Suc hits) (Suc i)
             else rbind (wr fl (uint byte) (c OR mask)) (\<lambda>fl'.
                    check_loop bs k a b fl' hits (Suc i)))
      else Inr (fl, hits))"
  by pat_completeness auto
termination
  by (relation "measure (\<lambda>(bs, k, a, b, fl, hits, i). k - i)") auto

declare check_loop.simps [simp del]

definition multibloom_check :: "multibloom \<Rightarrow> int \<Rightarrow> u32 \<Rightarrow> u32 \<Rightarrow> (multibloom \<times> bool) res" where
  "multibloom_check bloom f a b =
     rbind (rd (filters bloom) f) (\<lambda>fl.
       rbind (check_loop (bits bloom) (unat (hashes bloom)) a b fl 0 0) (\<lambda>(fl', hits).
         rbind (wr (filters bloom) f fl') (\<lambda>fs.
           Inr (bloom\<lparr>filters := fs\<rparr>, hits = unat (hashes bloom)))))"

definition multibloom_reset :: "multibloom \<Rightarrow> int \<Rightarrow> multibloom res" where
  "multibloom_reset bloom f =
     rbind (wr (filters bloom) f (replicate (nbytes bloom) 0)) (\<lambda>fs. Inr (bloom\<lparr>filters := fs\<rparr>))"

text \<open>
  \<open>multibloom_new\<close> sizes the filters from the error rate. The logarithm of the C library is a
  parameter; \<^verbatim>\<open>(int)\<close> and \<^verbatim>\<open>ceil\<close> act on a non-negative \<^verbatim>\<open>double\<close>, and a result outside the range of
  \<^verbatim>\<open>int\<close> is undefined.
\<close>

definition ceil_nat :: "nat \<Rightarrow> int \<Rightarrow> nat" where
  "ceil_nat m e = (m * 2 ^ nat e + (2 ^ nat (- e) - 1)) div 2 ^ nat (- e)"

fun ceil_to_unat :: "nat \<Rightarrow> fpnum \<Rightarrow> nat res" where
  "ceil_to_unat w (FFin s m e) =
     (if s \<and> m \<noteq> 0 \<or> 2 ^ w \<le> ceil_nat m e then Inl BadConversion else Inr (ceil_nat m e))"
| "ceil_to_unat w _ = Inl BadConversion"

definition multibloom_new :: "(double \<Rightarrow> double) \<Rightarrow> nat \<Rightarrow> nat \<Rightarrow> double \<Rightarrow> multibloom res" where
  "multibloom_new libm_log nfilters entries error =
     (let bpe = dneg (ddiv (libm_log error) (d_lit 480453013918201 (10 ^ 15))) in
      rbind (fp_to_unat 31 (decode64 (dmul (d_of_nat entries) bpe))) (\<lambda>nbits.
        rbind (ceil_to_unat 31 (decode64 (dmul (d_lit 693147180559945 (10 ^ 15)) bpe))) (\<lambda>nhashes.
          let nbyt = nbits div 8 + (if nbits mod 8 \<noteq> 0 then 1 else 0)
          in Inr \<lparr>bits = word_of_nat nbits, nbytes = nbyt, hashes = word_of_nat nhashes,
                  filters = replicate nfilters (replicate nbyt 0)\<rparr>)))"

text \<open>The invariant: every filter has the bytes that \<open>bits\<close> bits need.\<close>

definition bloom_ok :: "multibloom \<Rightarrow> bool" where
  "bloom_ok bloom \<longleftrightarrow> 0 < bits bloom \<and> nbytes bloom = (unat (bits bloom) + 7) div 8
     \<and> (\<forall>f\<in>set (filters bloom). length f = nbytes bloom)"

text \<open>The abstract filter: the set of bits that are set.\<close>

definition bitset :: "u8 list \<Rightarrow> nat set" where
  "bitset f = {x. x < 8 * length f \<and> bit (f ! (x div 8)) (x mod 8)}"

definition entry_bits :: "multibloom \<Rightarrow> u32 \<Rightarrow> u32 \<Rightarrow> nat set" where
  "entry_bits bloom a b = (\<lambda>i. unat (probe (bits bloom) a b i)) ` {..<unat (hashes bloom)}"

definition abs_filter :: "multibloom \<Rightarrow> nat \<Rightarrow> nat set" where
  "abs_filter bloom f = bitset (filters bloom ! f)"

section \<open>Bits\<close>

lemma byte_mask: "(c::u8) AND 2 ^ k = 0 \<longleftrightarrow> \<not> bit c k"
  by (simp add: bit_iff_and_push_bit_not_eq_0)

lemma probe_less: "0 < bs \<Longrightarrow> unat (probe bs a b i) < unat bs"
  by (simp add: probe_def unat_mod word_greater_zero_iff unat_gt_0)

lemma drop3: "uint (drop_bit 3 (x::u32)) = int (unat x div 8)"
proof -
  have "unat (drop_bit 3 x) = unat x div 8"
    by (simp add: drop_bit_eq_div unat_div)
  then show ?thesis by (metis of_nat_unat)
qed

lemma mod8: "unat ((x::u32) mod 8) = unat x mod 8"
  by (simp add: unat_mod)

lemma bitset_set_bit:
  assumes "x < 8 * length f"
  shows "bitset (f[x div 8 := (f ! (x div 8)) OR push_bit (x mod 8) 1]) = insert x (bitset f)"
proof -
  have l: "x div 8 < length f" using assms by linarith
  have "bit ((f[x div 8 := (f ! (x div 8)) OR push_bit (x mod 8) 1]) ! (y div 8)) (y mod 8)
      \<longleftrightarrow> y = x \<or> bit (f ! (y div 8)) (y mod 8)" for y
  proof (cases "y div 8 = x div 8")
    case True
    have "y mod 8 < 8" by simp
    then have "bit (push_bit (x mod 8) 1 :: u8) (y mod 8) \<longleftrightarrow> y mod 8 = x mod 8"
      by (auto simp: bit_simps)
    moreover have "y mod 8 = x mod 8 \<longleftrightarrow> y = x" using True by (metis div_mult_mod_eq)
    ultimately show ?thesis using True l by (simp add: bit_or_iff) blast
  next
    case False
    then show ?thesis by auto
  qed
  then show ?thesis using assms by (auto simp: bitset_def)
qed

lemma check_loop_step:
  assumes "0 < bs" "unat bs \<le> 8 * length fl"
  shows "check_loop bs k a b fl hits i =
    (let x = unat (probe bs a b i) in
     if i < k then
       if x \<in> bitset fl then check_loop bs k a b fl (Suc hits) (Suc i)
       else check_loop bs k a b (fl[x div 8 := (fl ! (x div 8)) OR push_bit (x mod 8) 1]) hits (Suc i)
     else Inr (fl, hits))"
proof -
  have x: "unat (probe bs a b i) < 8 * length fl"
    using probe_less [OF assms(1), of a b i] assms(2) by simp
  then have "unat (probe bs a b i) div 8 < length fl" by linarith
  moreover have "bs \<noteq> 0" using assms(1) by auto
  ultimately show ?thesis using x
    by (simp add: check_loop.simps [of bs k a b fl hits i] Let_def drop3 mod8 c_mem byte_mask bitset_def)
qed

lemma check_loop_correct:
  assumes "0 < bs" "unat bs \<le> 8 * length fl"
  shows "\<exists>fl' h. check_loop bs k a b fl hits i = Inr (fl', h) \<and> length fl' = length fl
    \<and> bitset fl' = bitset fl \<union> (\<lambda>j. unat (probe bs a b j)) ` {i..<k}
    \<and> h \<le> hits + (k - i)
    \<and> (h = hits + (k - i) \<longleftrightarrow> (\<lambda>j. unat (probe bs a b j)) ` {i..<k} \<subseteq> bitset fl)"
  using assms
proof (induction "k - i" arbitrary: fl hits i)
  case 0
  then show ?case by (simp add: check_loop_step [of bs fl k a b hits i] Let_def)
next
  case (Suc n)
  let ?x = "unat (probe bs a b i)" and ?pos = "\<lambda>j. unat (probe bs a b j)"
  let ?fl = "fl[?x div 8 := (fl ! (?x div 8)) OR push_bit (?x mod 8) 1]"
  have i: "i < k" "n = k - Suc i" using Suc.hyps(2) by auto
  then have "{i..<k} = insert i {Suc i..<k}" by auto
  then have img: "?pos ` {i..<k} = insert ?x (?pos ` {Suc i..<k})" by simp
  have x: "?x < 8 * length fl" using probe_less [OF Suc.prems(1), of a b i] Suc.prems(2) by simp
  show ?case
  proof (cases "?x \<in> bitset fl")
    case True
    then have "check_loop bs k a b fl hits i = check_loop bs k a b fl (Suc hits) (Suc i)"
      using Suc.prems i by (simp add: check_loop_step [of bs fl k a b hits i] Let_def)
    moreover have eq: "Suc hits + (k - Suc i) = hits + (k - i)" using i by simp
    moreover obtain fl' h where "check_loop bs k a b fl (Suc hits) (Suc i) = Inr (fl', h)"
      "length fl' = length fl" "bitset fl' = bitset fl \<union> ?pos ` {Suc i..<k}"
      "h \<le> hits + (k - i)" "h = hits + (k - i) \<longleftrightarrow> ?pos ` {Suc i..<k} \<subseteq> bitset fl"
      using Suc.hyps(1) [OF i(2) Suc.prems, of "Suc hits"] unfolding eq by blast
    ultimately show ?thesis using True unfolding img
      by (intro exI [of _ fl'] exI [of _ h]) (simp add: insert_absorb)
  next
    case False
    then have "check_loop bs k a b fl hits i = check_loop bs k a b ?fl hits (Suc i)"
      using Suc.prems i by (simp add: check_loop_step [of bs fl k a b hits i] Let_def)
    moreover obtain fl' h where r: "check_loop bs k a b ?fl hits (Suc i) = Inr (fl', h)"
      "length fl' = length fl" "bitset fl' = bitset ?fl \<union> ?pos ` {Suc i..<k}"
      "h \<le> hits + (k - Suc i)"
      using Suc.hyps(1) [OF i(2) Suc.prems(1), of ?fl hits] Suc.prems(2) by auto
    moreover have "h < hits + (k - i)" using i r(4) by linarith
    ultimately show ?thesis using False unfolding img bitset_set_bit [OF x]
      by (intro exI [of _ fl'] exI [of _ h]) auto
  qed
qed

section \<open>The interface of a replay filter\<close>

text \<open>
  What the secure sampler relies on: checking an entry reports whether all its marks are set and
  leaves them set, in the filter it is checked in and in no other; a reset clears one filter.
\<close>

locale replay_filters =
  fixes check :: "'b \<Rightarrow> nat \<Rightarrow> 'e \<Rightarrow> ('b \<times> bool) res"
    and reset :: "'b \<Rightarrow> nat \<Rightarrow> 'b res"
    and inv :: "nat \<Rightarrow> 'b \<Rightarrow> bool"
    and marks :: "'b \<Rightarrow> 'e \<Rightarrow> 'm set"
    and abs :: "'b \<Rightarrow> nat \<Rightarrow> 'm set"
  assumes check_abs: "inv n b \<Longrightarrow> f < n \<Longrightarrow> \<exists>b'. check b f e = Inr (b', marks b e \<subseteq> abs b f)
      \<and> inv n b' \<and> marks b' = marks b \<and> abs b' f = abs b f \<union> marks b e
      \<and> (\<forall>g<n. g \<noteq> f \<longrightarrow> abs b' g = abs b g)"
    and reset_abs: "inv n b \<Longrightarrow> f < n \<Longrightarrow> \<exists>b'. reset b f = Inr b' \<and> inv n b' \<and> marks b' = marks b
      \<and> abs b' f = {} \<and> (\<forall>g<n. g \<noteq> f \<longrightarrow> abs b' g = abs b g)"
begin

text \<open>An entry that was checked is reported as long as its filter is not reset.\<close>

definition seen :: "'b \<Rightarrow> nat \<Rightarrow> 'e \<Rightarrow> bool" where
  "seen b f e \<longleftrightarrow> marks b e \<subseteq> abs b f"

lemma seen_after_check:
  assumes "inv n b" "f < n" "check b f e = Inr (b', r)"
  shows "seen b' f e"
  using check_abs [OF assms(1,2), of e] assms(3) by (auto simp: seen_def)

lemma seen_check:
  assumes "inv n b" "f < n" "g < n" "seen b f e" "check b g e' = Inr (b', r)"
  shows "seen b' f e"
  using check_abs [OF assms(1,3), of e'] assms by (cases "f = g") (auto simp: seen_def)

lemma seen_reset:
  assumes "inv n b" "f < n" "g < n" "g \<noteq> f" "seen b f e" "reset b g = Inr b'"
  shows "seen b' f e"
  using reset_abs [OF assms(1,3)] assms by (auto simp: seen_def)

lemma check_reports:
  assumes "inv n b" "f < n" "check b f e = Inr (b', r)"
  shows "r \<longleftrightarrow> seen b f e"
  using check_abs [OF assms(1,2), of e] assms(3) by (auto simp: seen_def)

end

section \<open>The multibloom meets it\<close>

definition bloom_inv :: "nat \<Rightarrow> multibloom \<Rightarrow> bool" where
  "bloom_inv n bloom \<longleftrightarrow> bloom_ok bloom \<and> length (filters bloom) = n"

lemma bloom_ok_filter:
  assumes "bloom_ok bloom" "f < length (filters bloom)"
  shows "0 < bits bloom" "unat (bits bloom) \<le> 8 * length (filters bloom ! f)"
    "length (filters bloom ! f) = nbytes bloom"
proof -
  show len: "length (filters bloom ! f) = nbytes bloom" and "0 < bits bloom"
    using assms by (auto simp: bloom_ok_def)
  have "nbytes bloom = (unat (bits bloom) + 7) div 8" using assms(1) by (simp add: bloom_ok_def)
  then show "unat (bits bloom) \<le> 8 * length (filters bloom ! f)" unfolding len by linarith
qed

lemma bloom_inv_update:
  "bloom_inv n bloom \<Longrightarrow> length fl = nbytes bloom \<Longrightarrow> bloom_inv n (bloom\<lparr>filters := (filters bloom)[f := fl]\<rparr>)"
  by (auto simp: bloom_inv_def bloom_ok_def dest: set_update_subset_insert [THEN subsetD])

lemma multibloom_check_abs:
  assumes "bloom_inv n bloom" "f < n"
  shows "\<exists>bloom'. multibloom_check bloom (int f) a b = Inr (bloom', entry_bits bloom a b \<subseteq> abs_filter bloom f)
    \<and> bloom_inv n bloom' \<and> entry_bits bloom' = entry_bits bloom
    \<and> abs_filter bloom' f = abs_filter bloom f \<union> entry_bits bloom a b
    \<and> (\<forall>g<n. g \<noteq> f \<longrightarrow> abs_filter bloom' g = abs_filter bloom g)"
proof -
  have f: "bloom_ok bloom" "f < length (filters bloom)" using assms by (auto simp: bloom_inv_def)
  note ok = bloom_ok_filter [OF f]
  obtain fl' h where r: "check_loop (bits bloom) (unat (hashes bloom)) a b (filters bloom ! f) 0 0 = Inr (fl', h)"
    "length fl' = nbytes bloom" "bitset fl' = abs_filter bloom f \<union> entry_bits bloom a b"
    "h = unat (hashes bloom) \<longleftrightarrow> entry_bits bloom a b \<subseteq> abs_filter bloom f"
    using check_loop_correct [OF ok(1,2), of "unat (hashes bloom)" a b 0 0] ok(3)
    by (auto simp: entry_bits_def abs_filter_def lessThan_atLeast0)
  let ?bloom = "bloom\<lparr>filters := (filters bloom)[f := fl']\<rparr>"
  have "multibloom_check bloom (int f) a b = Inr (?bloom, entry_bits bloom a b \<subseteq> abs_filter bloom f)"
    using r f by (simp add: multibloom_check_def c_mem)
  moreover have "entry_bits ?bloom = entry_bits bloom"
    by (simp add: entry_bits_def fun_eq_iff)
  ultimately show ?thesis
    using r f bloom_inv_update [OF assms(1) r(2), of f] by (auto simp: abs_filter_def)
qed

lemma multibloom_reset_abs:
  assumes "bloom_inv n bloom" "f < n"
  shows "\<exists>bloom'. multibloom_reset bloom (int f) = Inr bloom' \<and> bloom_inv n bloom'
    \<and> entry_bits bloom' = entry_bits bloom \<and> abs_filter bloom' f = {}
    \<and> (\<forall>g<n. g \<noteq> f \<longrightarrow> abs_filter bloom' g = abs_filter bloom g)"
proof -
  let ?bloom = "bloom\<lparr>filters := (filters bloom)[f := replicate (nbytes bloom) 0]\<rparr>"
  have f: "f < length (filters bloom)" using assms by (simp add: bloom_inv_def)
  have "bitset (replicate m 0) = {}" for m
    by (auto simp: bitset_def nth_replicate [OF less_mult_imp_div_less] mult.commute)
  moreover have "entry_bits ?bloom = entry_bits bloom"
    by (simp add: entry_bits_def fun_eq_iff)
  ultimately show ?thesis
    using f bloom_inv_update [OF assms(1), of "replicate (nbytes bloom) 0" f]
    by (auto simp: multibloom_reset_def c_mem abs_filter_def)
qed

interpretation bloom: replay_filters "\<lambda>bl f (a, b). multibloom_check bl (int f) a b"
  "\<lambda>bl f. multibloom_reset bl (int f)" bloom_inv "\<lambda>bl (a, b). entry_bits bl a b" abs_filter
proof (unfold_locales, goal_cases)
  case (1 n b f e)
  obtain x y where e: "e = (x, y)" by fastforce
  from multibloom_check_abs [OF 1, of x y] show ?case
    by (force simp: e fun_eq_iff)
next
  case (2 n b f)
  from multibloom_reset_abs [OF 2] show ?case by (force simp: fun_eq_iff)
qed

section \<open>Properties\<close>

text \<open>
  C22. \<open>multibloom_check\<close> refines the textbook Bloom filter on sets of bits: it never leaves the
  filter's memory, answers true exactly when every bit of the entry was set before the call, and
  afterwards the filter is the union of the old bits and the entry's bits; the other filters are
  untouched.
\<close>

theorem multibloom_check_refines:
  assumes "bloom_ok bloom" "f < length (filters bloom)"
  shows "\<exists>bloom'. multibloom_check bloom (int f) a b = Inr (bloom', entry_bits bloom a b \<subseteq> abs_filter bloom f)
    \<and> bloom_ok bloom' \<and> length (filters bloom') = length (filters bloom)
    \<and> abs_filter bloom' f = abs_filter bloom f \<union> entry_bits bloom a b
    \<and> (\<forall>g<length (filters bloom). g \<noteq> f \<longrightarrow> abs_filter bloom' g = abs_filter bloom g)"
  using multibloom_check_abs [of "length (filters bloom)" bloom f a b] assms
  by (auto simp: bloom_inv_def)

theorem multibloom_check_refines_witness:
  "\<exists>bloom'. multibloom_check \<lparr>bits = 16, nbytes = 2, hashes = 3, filters = [[0, 0], [255, 1]]\<rparr> (int 1) 2 3
     = Inr (bloom', True) \<and> bloom_ok bloom'"
proof -
  let ?b = "\<lparr>bits = 16, nbytes = 2, hashes = 3, filters = [[0, 0], [255, 1]]\<rparr>"
  have ok: "bloom_ok ?b" by (simp add: bloom_ok_def)
  have "{..<3} = {0, 1, 2::nat}" by auto
  then have "entry_bits ?b 2 3 \<subseteq> abs_filter ?b 1"
    by (simp add: entry_bits_def abs_filter_def bitset_def probe_def)
  then have "entry_bits ?b 2 3 \<subseteq> abs_filter ?b 1 \<longleftrightarrow> True" by simp
  with multibloom_check_refines [OF ok, of 1 2 3] show ?thesis by auto
qed

end
