(* ===== verification/Histogram.thy ===== *)
theory Histogram
  imports IEEE754 "HOL-Library.Multiset"
begin

text \<open>
  Histograms (\<^verbatim>\<open>src/histogram.c\<close>, \<^verbatim>\<open>src/histogram.h\<close>): a growing array of at most 65535 values and
  a separate counter of the upsampled events. Sampling sorts the values, reads the order
  statistics and empties the histogram.
\<close>

section \<open>Model\<close>

abbreviation HISTO_INIT_SIZE :: nat where
  "HISTO_INIT_SIZE \<equiv> 16"

abbreviation USHRT_MAX :: nat where
  "USHRT_MAX \<equiv> 65535"

text \<open>
  \<open>hvalues\<close> holds the cells of the array that have been written so far, a prefix of the
  \<open>halloc\<close> cells allocated.
\<close>

record brubeck_histo =
  hvalues :: "double list"
  hcount :: u32
  halloc :: u16
  hsize :: u16

record histo_sample =
  s_sum :: double
  s_min :: double
  s_max :: double
  s_mean :: double
  s_median :: double
  s_count :: double
  s_percentile :: "double list"

text \<open>\<^verbatim>\<open>values[i] = v\<close>: a write behind the allocated cells is out of bounds.\<close>

definition histo_store :: "brubeck_histo \<Rightarrow> nat \<Rightarrow> double \<Rightarrow> double list res" where
  "histo_store h i v =
     (if i < unat (halloc h) then Inr (take i (hvalues h) @ v # drop (Suc i) (hvalues h))
      else Inl OutOfBounds)"

text \<open>\<^verbatim>\<open>histo->count += sample_freq\<close>: the sum of doubles, converted back to \<^verbatim>\<open>uint32_t\<close>.\<close>

definition histo_count :: "u32 \<Rightarrow> double \<Rightarrow> u32 res" where
  "histo_count c sample_freq =
     rbind (fp_to_unat 32 (decode64 (dadd (d_of_nat (unat c)) sample_freq))) (\<lambda>n. Inr (word_of_nat n))"

definition histo_new_size :: "nat \<Rightarrow> nat" where
  "histo_new_size al =
     (let new_size = al * 2;
          new_size = (if new_size > USHRT_MAX then USHRT_MAX else new_size)
      in if new_size < HISTO_INIT_SIZE then HISTO_INIT_SIZE else new_size)"

definition brubeck_histo_push :: "brubeck_histo \<Rightarrow> double \<Rightarrow> double \<Rightarrow> brubeck_histo res" where
  "brubeck_histo_push histo0 v sample_freq =
     rbind (histo_count (hcount histo0) sample_freq) (\<lambda>c.
       let histo = histo0\<lparr>hcount := c\<rparr> in
       if hsize histo = halloc histo \<and> unat (hsize histo) = USHRT_MAX then Inr histo
       else
         let histo = (if hsize histo = halloc histo
                      then histo\<lparr>halloc := word_of_nat (histo_new_size (unat (halloc histo)))\<rparr>
                      else histo)
         in rbind (histo_store histo (unat (hsize histo)) v) (\<lambda>vs.
              Inr (histo\<lparr>hvalues := vs, hsize := hsize histo + 1\<rparr>)))"

definition histo_irank :: "u16 \<Rightarrow> float \<Rightarrow> nat res" where
  "histo_irank sz rank =
     fp_to_unat 64 (decode32 (fadd (fmul rank (f_of_nat (unat sz))) (f_lit 5 10)))"

definition histo_percentile :: "brubeck_histo \<Rightarrow> float \<Rightarrow> double res" where
  "histo_percentile histo rank =
     rbind (histo_irank (hsize histo) rank) (\<lambda>irank.
       rd (hvalues histo) (uint (word_of_nat irank - 1 :: u64)))"

definition histo_sum :: "brubeck_histo \<Rightarrow> double" where
  "histo_sum histo = foldl dadd 0 (take (unat (hsize histo)) (hvalues histo))"

definition value_cmp :: "double \<Rightarrow> double \<Rightarrow> int" where
  "value_cmp va vb = (if dlt va vb then -1 else if dlt vb va then 1 else 0)"

text \<open>The C library's \<^verbatim>\<open>qsort\<close>, stable as in glibc.\<close>

fun qsort_insert :: "('a \<Rightarrow> 'a \<Rightarrow> int) \<Rightarrow> 'a \<Rightarrow> 'a list \<Rightarrow> 'a list" where
  "qsort_insert cmp x [] = [x]"
| "qsort_insert cmp x (y # ys) = (if cmp x y \<le> 0 then x # y # ys else y # qsort_insert cmp x ys)"

fun qsort :: "('a \<Rightarrow> 'a \<Rightarrow> int) \<Rightarrow> 'a list \<Rightarrow> 'a list" where
  "qsort cmp [] = []"
| "qsort cmp (x # xs) = qsort_insert cmp x (qsort cmp xs)"

definition histo_sort :: "brubeck_histo \<Rightarrow> brubeck_histo" where
  "histo_sort histo =
     (let n = unat (hsize histo)
      in histo\<lparr>hvalues := qsort value_cmp (take n (hvalues histo)) @ drop n (hvalues histo)\<rparr>)"

definition empty_sample :: histo_sample where
  "empty_sample = \<lparr>s_sum = 0, s_min = 0, s_max = 0, s_mean = 0, s_median = 0, s_count = 0,
     s_percentile = replicate 5 0\<rparr>"

definition brubeck_histo_sample :: "brubeck_histo \<Rightarrow> (histo_sample \<times> brubeck_histo) res" where
  "brubeck_histo_sample histo0 =
     (if hsize histo0 = 0 then Inr (empty_sample, histo0)
      else
        let histo = histo_sort histo0; sum = histo_sum histo in
        rbind (rd (hvalues histo) 0) (\<lambda>mn.
        rbind (rd (hvalues histo) (uint (hsize histo) - 1)) (\<lambda>mx.
        rbind (histo_percentile histo (f_lit 5 10)) (\<lambda>med.
        rbind (histo_percentile histo (f_lit 75 100)) (\<lambda>p75.
        rbind (histo_percentile histo (f_lit 95 100)) (\<lambda>p95.
        rbind (histo_percentile histo (f_lit 98 100)) (\<lambda>p98.
        rbind (histo_percentile histo (f_lit 99 100)) (\<lambda>p99.
        rbind (histo_percentile histo (f_lit 999 1000)) (\<lambda>p999.
          Inr (\<lparr>s_sum = sum, s_min = mn, s_max = mx,
                s_mean = ddiv sum (d_of_nat (unat (hsize histo))), s_median = med,
                s_count = d_of_nat (unat (hcount histo)), s_percentile = [p75, p95, p98, p99, p999]\<rparr>,
               histo\<lparr>hsize := 0, hcount := 0\<rparr>))))))))))"

text \<open>A zeroed histogram, as \<^verbatim>\<open>memset\<close> leaves it in a new metric.\<close>

definition histo_zero :: brubeck_histo where
  "histo_zero = \<lparr>hvalues = [], hcount = 0, halloc = 0, hsize = 0\<rparr>"

text \<open>The recorded values, in the order they are stored.\<close>

definition recorded :: "brubeck_histo \<Rightarrow> double list" where
  "recorded h = take (unat (hsize h)) (hvalues h)"

definition histo_ok :: "brubeck_histo \<Rightarrow> bool" where
  "histo_ok h \<longleftrightarrow> unat (hsize h) \<le> length (hvalues h) \<and> length (hvalues h) \<le> unat (halloc h)
     \<and> (unat (halloc h) = 0 \<or> HISTO_INIT_SIZE \<le> unat (halloc h))"

section \<open>Growth\<close>

lemma new_size_bounds:
  assumes "al < USHRT_MAX" "al = 0 \<or> HISTO_INIT_SIZE \<le> al"
  shows "al < histo_new_size al" "HISTO_INIT_SIZE \<le> histo_new_size al" "histo_new_size al \<le> USHRT_MAX"
  using assms by (auto simp: histo_new_size_def Let_def)

lemma u16_le: "unat (x::u16) \<le> USHRT_MAX"
  using unsigned_less [of x, where ?'a = nat] by simp

lemma histo_store_append:
  assumes "i \<le> length (hvalues h)" "i < unat (halloc h)"
  shows "histo_store h i v = Inr (take i (hvalues h) @ v # drop (Suc i) (hvalues h))"
  using assms by (simp add: histo_store_def)

lemma histo_push_full:
  assumes "histo_ok h" "unat (hsize h) = USHRT_MAX" "histo_count (hcount h) sf = Inr c"
  shows "brubeck_histo_push h v sf = Inr (h\<lparr>hcount := c\<rparr>)"
proof -
  have "unat (halloc h) = USHRT_MAX"
    using assms(1,2) u16_le [of "halloc h"] by (auto simp: histo_ok_def)
  with assms show ?thesis
    by (simp add: brubeck_histo_push_def word_unat_eq_iff)
qed

lemma histo_push_room:
  assumes ok: "histo_ok h" and lt: "unat (hsize h) < USHRT_MAX" and c: "histo_count (hcount h) sf = Inr c"
  obtains h' where "brubeck_histo_push h v sf = Inr h'" "histo_ok h'" "recorded h' = recorded h @ [v]"
    "hcount h' = c" "unat (hsize h') = Suc (unat (hsize h))"
proof -
  define al where "al = (if hsize h = halloc h then word_of_nat (histo_new_size (unat (halloc h))) else halloc h)"
  let ?vs = "take (unat (hsize h)) (hvalues h) @ v # drop (Suc (unat (hsize h))) (hvalues h)"
  let ?h = "h\<lparr>hcount := c, halloc := al, hvalues := ?vs, hsize := hsize h + 1\<rparr>"
  have len: "unat (hsize h) \<le> length (hvalues h)" "length (hvalues h) \<le> unat (halloc h)"
    using ok by (auto simp: histo_ok_def)
  have al: "unat (hsize h) < unat al" "unat (halloc h) \<le> unat al" "HISTO_INIT_SIZE \<le> unat al"
    using new_size_bounds [of "unat (halloc h)"] ok lt len
    by (auto simp: al_def histo_ok_def unat_of_nat word_unat_eq_iff)
  have sz: "unat (hsize h + 1) = Suc (unat (hsize h))"
    using lt by (simp add: unat_word_ariths)
  have "brubeck_histo_push h v sf = Inr ?h"
    using c lt al(1) by (auto simp: brubeck_histo_push_def Let_def histo_store_def al_def)
  moreover have "histo_ok ?h"
    using len al sz by (auto simp: histo_ok_def)
  moreover have "recorded ?h = recorded h @ [v]"
    using len sz by (simp add: recorded_def)
  ultimately show thesis using sz by (intro that [of ?h]) auto
qed

section \<open>Ranks\<close>

lemma rank_prod:
  assumes "decode32 r = FFin False m e" "n < 2 ^ 24"
  obtains N D where "decode32 (fmul r (f_of_nat n)) = fp_round binary32 False N D" "0 < D"
    "real N / real D = real m * 2 powi e * real n"
proof -
  obtain k f where k: "fp_round binary32 False n 1 = FFin False k f" "real k * 2 powi f = real n"
    using fp_round_of_nat [of binary32 n False] assms(2) by (auto simp: exp_range)
  then have "decode32 (f_of_nat n) = FFin False k f"
    using decode32_encode32 [OF fp_round_ok [of binary32 1 False n]] by (simp add: f_of_nat_def)
  then have "decode32 (fmul r (f_of_nat n)) = fp_mul binary32 (FFin False m e) (FFin False k f)"
    using assms(1) by (simp add: fmul_def decode32_encode32 del: fp_mul.simps)
  with fp_mul_nonneg [of binary32 m e k f] k(2) that show thesis by auto
qed

lemma half_decode: "decode32 (f_lit 5 10) = FFin False (2 ^ 23) (- 24)"
  by (simp add: fp_eval)

lemma rank_half:
  assumes "decode32 x = FFin False p g"
  obtains N D where "decode32 (fadd x (f_lit 5 10)) = fp_round binary32 False N D" "0 < D"
    "real N / real D = real p * 2 powi g + 1 / 2"
proof -
  have "real (2 ^ 23) * 2 powi (- 24) = (1 / 2 :: real)" by (simp add: power_int_minus)
  moreover have "decode32 (fadd x (f_lit 5 10)) = fp_add binary32 (FFin False p g) (FFin False (2 ^ 23) (- 24))"
    using assms by (simp add: fadd_def decode32_encode32 half_decode del: fp_add.simps)
  ultimately show thesis using fp_add_nonneg [of p "2 ^ 23" binary32 g "- 24"] that by auto
qed

lemma round_le_real:
  assumes "0 < d" "0 < d'" "real n / real d \<le> real n' / real d'"
    "fp_round binary32 False n d = FFin False m e" "fp_round binary32 False n' d' = FFin False m' e'"
  shows "real m * 2 powi e \<le> real m' * 2 powi e'"
  using fp_round_key_mono [OF _ assms(1-3), of binary32] fp_round_ok [of binary32 d False n]
    fp_round_ok [of binary32 d' False n'] assms fp_key_le_real [of binary32 m e m' e'] by simp

text \<open>
  The ranks of two percentiles of a histogram with \<open>n\<close> values: both in \<open>1..n\<close>, in the order of
  the percentiles, whatever the rounding of the two single-precision operations does.
\<close>

lemma irank_step:
  assumes n: "1 \<le> n" "n \<le> USHRT_MAX"
    and r: "decode32 r = FFin False m e" "1 / 2 \<le> real m * 2 powi e" "real m * 2 powi e \<le> 1"
  obtains N D p g N' D' q h where "0 < D" "real N / real D = real m * 2 powi e * real n"
    "fp_round binary32 False N D = FFin False p g" "0 < D'"
    "real N' / real D' = real p * 2 powi g + 1 / 2" "fp_round binary32 False N' D' = FFin False q h"
    "decode32 (fadd (fmul r (f_of_nat n)) (f_lit 5 10)) = FFin False q h"
    "1 \<le> real q * 2 powi h" "real q * 2 powi h \<le> real n + 1 / 2"
proof -
  obtain N D where N: "decode32 (fmul r (f_of_nat n)) = fp_round binary32 False N D" "0 < D"
    "real N / real D = real m * 2 powi e * real n"
    using rank_prod [OF r(1), of n] n(2) by auto
  have lo: "1 / 2 * 1 \<le> real m * 2 powi e * real n"
    using r(2) n(1) by (intro mult_mono) auto
  have hi: "real m * 2 powi e * real n \<le> 1 * real n"
    using r(3) by (intro mult_right_mono) auto
  obtain p g where p: "fp_round binary32 False N D = FFin False p g"
    "1 / 2 \<le> real p * 2 powi g" "real p * 2 powi g \<le> real n"
    by (rule fp_round_between [of binary32 D 1 "- 1" N n 0])
      (use N(2,3) n(2) lo hi that in \<open>auto simp: exp_range power_int_minus\<close>)
  obtain N' D' where N': "decode32 (fadd (fmul r (f_of_nat n)) (f_lit 5 10)) = fp_round binary32 False N' D'"
    "0 < D'" "real N' / real D' = real p * 2 powi g + 1 / 2"
    using rank_half [of "fmul r (f_of_nat n)" p g] N(1) p(1) by auto
  have hi': "real N' / real D' \<le> real (2 * n + 1) * 2 powi (- 1)"
    using N'(3) p(3) by (simp add: power_int_minus)
  obtain q h where "fp_round binary32 False N' D' = FFin False q h"
    "1 \<le> real q * 2 powi h" "real q * 2 powi h \<le> real n + 1 / 2"
    by (rule fp_round_between [of binary32 D' 1 0 N' "2 * n + 1" "- 1"])
      (use N'(2,3) p(2) n(2) hi' that in \<open>auto simp: exp_range power_int_minus\<close>)
  with that N(2,3) p(1) N' show thesis by metis
qed

lemma histo_irank_eq:
  assumes "decode32 (fadd (fmul r (f_of_nat n)) (f_lit 5 10)) = FFin False q h" "n \<le> USHRT_MAX"
    "real q * 2 powi h \<le> real n + 1 / 2" "n = unat sz"
  shows "histo_irank sz r = Inr (nat \<lfloor>real q * 2 powi h\<rfloor>)"
proof -
  have "\<lfloor>real q * 2 powi h\<rfloor> \<le> int n" using assms(3) by linarith
  then have "trunc_nat q h \<le> n" unfolding trunc_nat_floor [symmetric] by simp
  with assms show ?thesis
    by (simp add: histo_irank_def Let_def flip: trunc_nat_floor)
qed

lemma histo_irank_mono:
  assumes sz: "sz \<noteq> 0"
    and r: "decode32 r = FFin False m e" "1 / 2 \<le> real m * 2 powi e"
    and r': "decode32 r' = FFin False m' e'" "real m' * 2 powi e' \<le> 1"
    and le: "real m * 2 powi e \<le> real m' * 2 powi e'"
  obtains t t' where "histo_irank sz r = Inr t" "histo_irank sz r' = Inr t'"
    "1 \<le> t" "t \<le> t'" "t' \<le> unat sz"
proof -
  have n: "1 \<le> unat sz" "unat sz \<le> USHRT_MAX" using sz u16_le [of sz] by (auto simp: unat_gt_0 Suc_le_eq)
  obtain N D p g N2 D2 q h where a: "0 < D" "real N / real D = real m * 2 powi e * real (unat sz)"
    "fp_round binary32 False N D = FFin False p g" "0 < D2"
    "real N2 / real D2 = real p * 2 powi g + 1 / 2" "fp_round binary32 False N2 D2 = FFin False q h"
    "decode32 (fadd (fmul r (f_of_nat (unat sz))) (f_lit 5 10)) = FFin False q h"
    "1 \<le> real q * 2 powi h" "real q * 2 powi h \<le> real (unat sz) + 1 / 2"
    by (rule irank_step [OF n r]) (use le r' in auto)
  obtain N' D' p' g' N2' D2' q' h' where b: "0 < D'" "real N' / real D' = real m' * 2 powi e' * real (unat sz)"
    "fp_round binary32 False N' D' = FFin False p' g'" "0 < D2'"
    "real N2' / real D2' = real p' * 2 powi g' + 1 / 2" "fp_round binary32 False N2' D2' = FFin False q' h'"
    "decode32 (fadd (fmul r' (f_of_nat (unat sz))) (f_lit 5 10)) = FFin False q' h'"
    "1 \<le> real q' * 2 powi h'" "real q' * 2 powi h' \<le> real (unat sz) + 1 / 2"
    by (rule irank_step [OF n r'(1)]) (use le r r' in auto)
  have "real N / real D \<le> real N' / real D'"
    unfolding a b by (intro mult_right_mono le of_nat_0_le_iff)
  then have "real p * 2 powi g \<le> real p' * 2 powi g'"
    by (rule round_le_real [OF a(1) b(1) _ a(3) b(3)])
  then have "real N2 / real D2 \<le> real N2' / real D2'" by (simp add: a b)
  then have "real q * 2 powi h \<le> real q' * 2 powi h'"
    by (rule round_le_real [OF a(4) b(4) _ a(6) b(6)])
  then have "nat \<lfloor>real q * 2 powi h\<rfloor> \<le> nat \<lfloor>real q' * 2 powi h'\<rfloor>"
    by (intro nat_mono floor_mono)
  moreover have "1 \<le> nat \<lfloor>real q * 2 powi h\<rfloor>" using a(8) by linarith
  moreover have "nat \<lfloor>real q' * 2 powi h'\<rfloor> \<le> unat sz" using b(9) by linarith
  ultimately show thesis
    using that histo_irank_eq [OF a(7) n(2) a(9)] histo_irank_eq [OF b(7) n(2) b(9)] by simp
qed

text \<open>The ranks the sampler asks for, from the median to the 99.9th percentile.\<close>

definition ranks :: "float list" where
  "ranks = [f_lit 5 10, f_lit 75 100, f_lit 95 100, f_lit 98 100, f_lit 99 100, f_lit 999 1000]"

definition rank_mants :: "nat list" where
  "rank_mants = [8388608, 12582912, 15938355, 16441672, 16609444, 16760439]"

lemma ranks_decode: "map decode32 ranks = map (\<lambda>m. FFin False m (- 24)) rank_mants"
  by (simp add: ranks_def rank_mants_def fp_eval)

lemma rank_value:
  assumes "i < 6"
  shows "decode32 (ranks ! i) = FFin False (rank_mants ! i) (- 24)"
    "1 / 2 \<le> real (rank_mants ! i) * 2 powi (- 24)" "real (rank_mants ! i) * 2 powi (- 24) \<le> 1"
proof -
  have "decode32 (ranks ! i) = map decode32 ranks ! i"
    using assms by (subst nth_map) (simp_all add: ranks_def)
  also have "\<dots> = FFin False (rank_mants ! i) (- 24)"
    using assms unfolding ranks_decode by (subst nth_map) (simp_all add: rank_mants_def)
  finally show "decode32 (ranks ! i) = FFin False (rank_mants ! i) (- 24)" .
  have "i \<in> {0, 1, 2, 3, 4, 5}" using assms by auto
  then show "1 / 2 \<le> real (rank_mants ! i) * 2 powi (- 24)" "real (rank_mants ! i) * 2 powi (- 24) \<le> 1"
    by (auto simp: rank_mants_def power_int_minus divide_simps)
qed

lemma rank_mants_mono: "i \<le> j \<Longrightarrow> j < 6 \<Longrightarrow> rank_mants ! i \<le> rank_mants ! j"
  by (rule sorted_nth_mono) (simp_all add: rank_mants_def)

lemma ranks_irank:
  assumes "sz \<noteq> 0" "i \<le> j" "j < 6"
  obtains t t' where "histo_irank sz (ranks ! i) = Inr t" "histo_irank sz (ranks ! j) = Inr t'"
    "1 \<le> t" "t \<le> t'" "t' \<le> unat sz"
proof (rule histo_irank_mono [OF assms(1)])
  show "real (rank_mants ! i) * 2 powi (- 24) \<le> real (rank_mants ! j) * 2 powi (- 24)"
    using rank_mants_mono [OF assms(2,3)] by simp
qed (use rank_value [of i] rank_value [of j] assms that in auto)

section \<open>Sorting\<close>

lemma mset_qsort_insert [simp]: "mset (qsort_insert cmp x xs) = add_mset x (mset xs)"
  by (induction xs) auto

lemma mset_qsort [simp]: "mset (qsort cmp xs) = mset xs"
  by (induction xs) auto

lemma length_qsort [simp]: "length (qsort cmp xs) = length xs"
  by (metis mset_qsort size_mset)

lemma set_qsort [simp]: "set (qsort cmp xs) = set xs"
  by (metis mset_qsort set_mset_mset)

lemma value_cmp_le: "\<not> is_nan x \<Longrightarrow> \<not> is_nan y \<Longrightarrow> value_cmp x y \<le> 0 \<longleftrightarrow> dkey x \<le> dkey y"
  by (auto simp: value_cmp_def dlt_iff)

lemma sorted_qsort_insert:
  assumes "\<not> is_nan x" "\<forall>y\<in>set xs. \<not> is_nan y" "sorted (map dkey xs)"
  shows "sorted (map dkey (qsort_insert value_cmp x xs))"
  using assms
proof (induction xs)
  case Nil
  then show ?case by simp
next
  case (Cons y ys)
  have "set (qsort_insert value_cmp x ys) = insert x (set ys)"
    using mset_qsort_insert [of value_cmp x ys] by (metis set_mset_add_mset_insert set_mset_mset)
  with Cons show ?case by (auto simp: value_cmp_le)
qed

lemma sorted_qsort: "\<forall>x\<in>set xs. \<not> is_nan x \<Longrightarrow> sorted (map dkey (qsort value_cmp xs))"
  by (induction xs) (auto intro!: sorted_qsort_insert)

section \<open>Sampling\<close>

lemma histo_sort_recorded:
  assumes "histo_ok h"
  shows "recorded (histo_sort h) = qsort value_cmp (recorded h)" "histo_ok (histo_sort h)"
    "hsize (histo_sort h) = hsize h" "hcount (histo_sort h) = hcount h" "halloc (histo_sort h) = halloc h"
  using assms by (auto simp: histo_sort_def recorded_def histo_ok_def Let_def min_def)

lemma histo_count_of_nat:
  assumes "unat c + k < 2 ^ 32"
  shows "histo_count c (d_of_nat k) = Inr (c + word_of_nat k)"
proof -
  have "dadd (d_of_nat (unat c)) (d_of_nat k) = d_of_nat (unat c + k)"
    using assms by (intro dadd_of_nat) simp
  then show ?thesis using assms unat_of_d_of_nat [OF assms] by (simp add: histo_count_def)
qed

lemma length_recorded: "histo_ok h \<Longrightarrow> length (recorded h) = unat (hsize h)"
  by (simp add: recorded_def histo_ok_def)

lemma rd_recorded:
  assumes "histo_ok h" "i < unat (hsize h)"
  shows "rd (hvalues h) (int i) = Inr (recorded h ! i)"
  using assms by (simp add: recorded_def histo_ok_def rd_def)

lemma histo_percentile_nth:
  assumes "histo_ok h" "histo_irank (hsize h) r = Inr t" "1 \<le> t" "t \<le> unat (hsize h)"
  shows "histo_percentile h r = Inr (recorded h ! (t - 1))"
proof -
  have "t \<le> USHRT_MAX" using assms(4) u16_le [of "hsize h"] by linarith
  then have "word_of_nat t - 1 = (word_of_nat (t - 1) :: u64)"
    using assms(3) by (simp add: of_nat_diff)
  moreover have "uint (word_of_nat (t - 1) :: u64) = int (t - 1)"
    using \<open>t \<le> USHRT_MAX\<close> by (simp add: uint_nat unat_of_nat)
  ultimately show ?thesis
    using assms rd_recorded [OF assms(1), of "t - 1"] by (simp add: histo_percentile_def)
qed

text \<open>The index each percentile is read from.\<close>

definition rank_index :: "brubeck_histo \<Rightarrow> nat \<Rightarrow> nat" where
  "rank_index h i = projr (histo_irank (hsize h) (ranks ! i)) - 1"

lemma rank_index:
  assumes "histo_ok h" "hsize h \<noteq> 0" "i \<le> j" "j < 6"
  shows "histo_percentile h (ranks ! i) = Inr (recorded h ! rank_index h i)"
    "rank_index h i \<le> rank_index h j" "rank_index h j < unat (hsize h)"
proof -
  obtain t t' where "histo_irank (hsize h) (ranks ! i) = Inr t" "histo_irank (hsize h) (ranks ! j) = Inr t'"
    "1 \<le> t" "t \<le> t'" "t' \<le> unat (hsize h)"
    by (rule ranks_irank [OF assms(2-4)])
  with histo_percentile_nth [OF assms(1), of "ranks ! i" t]
  show "histo_percentile h (ranks ! i) = Inr (recorded h ! rank_index h i)"
    "rank_index h i \<le> rank_index h j" "rank_index h j < unat (hsize h)"
    by (auto simp: rank_index_def)
qed

text \<open>
  The index of the value at a rank among \<open>n\<close> ordered ones: the rank times \<open>n\<close> plus one half, in single
  precision, cut to an integer, is its position counted from one.
\<close>

definition nearest_rank :: "nat \<Rightarrow> float \<Rightarrow> nat" where
  "nearest_rank n r = nat \<lfloor>fp_real (decode32 (fadd (fmul r (f_of_nat n)) (f_lit 5 10)))\<rfloor> - 1"

lemma rank_index_nearest:
  assumes "hsize h \<noteq> 0" "i < 6"
  shows "rank_index h i = nearest_rank (unat (hsize h)) (ranks ! i)"
proof -
  obtain t where t: "histo_irank (hsize h) (ranks ! i) = Inr t" using ranks_irank [OF assms(1) _ assms(2), of i] by blast
  let ?x = "decode32 (fadd (fmul (ranks ! i) (f_of_nat (unat (hsize h)))) (f_lit 5 10))"
  from t obtain s m e where x: "?x = FFin s m e" "t = trunc_nat m e" "s \<longrightarrow> t = 0"
    by (cases ?x) (auto simp: histo_irank_def Let_def split: if_splits)
  have "nat \<lfloor>fp_real (FFin s m e)\<rfloor> = t"
  proof (cases s)
    case True
    then have "fp_real (FFin s m e) \<le> 0" by simp
    then have "\<lfloor>fp_real (FFin s m e)\<rfloor> \<le> 0" by linarith
    with True x(3) show ?thesis by simp
  next
    case False
    with trunc_nat_floor [of m e] x(2) show ?thesis by (metis fp_real.simps(1) mult_1 nat_int)
  qed
  with t x(1) show ?thesis by (simp add: rank_index_def nearest_rank_def)
qed

definition order_stat :: "brubeck_histo \<Rightarrow> nat \<Rightarrow> double" where
  "order_stat h i = qsort value_cmp (recorded h) ! rank_index h i"

text \<open>What a non-empty histogram is sampled to; reading the order statistics never fails.\<close>

lemma histo_sample_eq:
  assumes "histo_ok h" "hsize h \<noteq> 0"
  shows "brubeck_histo_sample h = Inr
    (\<lparr>s_sum = foldl dadd 0 (qsort value_cmp (recorded h)),
      s_min = qsort value_cmp (recorded h) ! 0,
      s_max = qsort value_cmp (recorded h) ! (unat (hsize h) - 1),
      s_mean = ddiv (foldl dadd 0 (qsort value_cmp (recorded h))) (d_of_nat (unat (hsize h))),
      s_median = order_stat h 0, s_count = d_of_nat (unat (hcount h)),
      s_percentile = map (order_stat h) [1, 2, 3, 4, 5]\<rparr>,
     (histo_sort h)\<lparr>hsize := 0, hcount := 0\<rparr>)"
proof -
  note so = histo_sort_recorded [OF assms(1)]
  have n: "0 < unat (hsize h)" using assms(2) by (simp add: unat_gt_0)
  have ri: "rank_index (histo_sort h) i = rank_index h i" for i
    by (simp add: rank_index_def so(3))
  have p: "histo_percentile (histo_sort h) (ranks ! i) = Inr (order_stat h i)" if "i < 6" for i
    using rank_index(1) [OF so(2), of i i] that assms(2) by (simp add: so(1,3) order_stat_def ri)
  have "rd (hvalues (histo_sort h)) 0 = Inr (qsort value_cmp (recorded h) ! 0)"
    using rd_recorded [OF so(2), of 0] n by (simp add: so(1,3))
  moreover have "uint (hsize h) - 1 = int (unat (hsize h) - 1)"
    using n by (simp add: of_nat_diff Suc_le_eq)
  then have "rd (hvalues (histo_sort h)) (uint (hsize (histo_sort h)) - 1)
      = Inr (qsort value_cmp (recorded h) ! (unat (hsize h) - 1))"
    using rd_recorded [OF so(2), of "unat (hsize h) - 1"] n by (simp only: so(1,3))
  moreover have "histo_sum (histo_sort h) = foldl dadd 0 (qsort value_cmp (recorded h))"
    using so(1) by (simp add: histo_sum_def recorded_def)
  ultimately show ?thesis
    using p [of 0] p [of 1] p [of 2] p [of 3] p [of 4] p [of 5] assms(2)
    by (simp add: brubeck_histo_sample_def Let_def ranks_def so(3,4))
qed

lemma sorted_nth_dle:
  assumes "\<forall>x\<in>set xs. \<not> is_nan x" "i \<le> j" "j < length xs"
  shows "dle (qsort value_cmp xs ! i) (qsort value_cmp xs ! j)"
proof -
  have "qsort value_cmp xs ! i \<in> set xs" "qsort value_cmp xs ! j \<in> set xs"
    using assms(2,3) nth_mem [of i "qsort value_cmp xs"] nth_mem [of j "qsort value_cmp xs"] by auto
  moreover have "dkey (qsort value_cmp xs ! i) \<le> dkey (qsort value_cmp xs ! j)"
    using sorted_nth_mono [OF sorted_qsort [OF assms(1)] assms(2)] assms(2,3) by simp
  ultimately show ?thesis using assms(1) by (simp add: dle_iff)
qed

lemma histo_push_ok:
  assumes "histo_ok h" "histo_count (hcount h) sf = Inr c"
  shows "\<exists>h'. brubeck_histo_push h v sf = Inr h' \<and> histo_ok h' \<and> hcount h' = c
    \<and> recorded h' = (if length (recorded h) < USHRT_MAX then recorded h @ [v] else recorded h)"
proof (cases "unat (hsize h) < USHRT_MAX")
  case True
  then show ?thesis
    by (rule histo_push_room [OF assms(1) _ assms(2)]) (use True length_recorded [OF assms(1)] in auto)
next
  case False
  then have full: "unat (hsize h) = USHRT_MAX" using u16_le [of "hsize h"] by simp
  from histo_push_full [OF assms(1) full assms(2)] full assms(1) show ?thesis
    by (auto simp: length_recorded) (auto simp: histo_ok_def recorded_def)
qed

section \<open>Properties\<close>


text \<open>
  C13. Sampling a non-empty histogram without NaNs never reads outside the array, empties it, and
  the reported values are recorded values in order: minimum, median, the five percentiles and
  maximum ascend, and every recorded value lies between minimum and maximum.
\<close>

theorem histo_sample_ordered:
  assumes "histo_ok h" "hsize h \<noteq> 0" "\<forall>v\<in>set (recorded h). \<not> is_nan v"
  shows "\<exists>smp h'. brubeck_histo_sample h = Inr (smp, h') \<and> histo_ok h' \<and> recorded h' = [] \<and> hcount h' = 0
    \<and> sorted_wrt dle ([s_min smp, s_median smp] @ s_percentile smp @ [s_max smp])
    \<and> set ([s_min smp, s_median smp, s_max smp] @ s_percentile smp) \<subseteq> set (recorded h)
    \<and> (\<forall>v\<in>set (recorded h). dle (s_min smp) v \<and> dle v (s_max smp))
    \<and> s_count smp = d_of_nat (unat (hcount h))"
proof -
  let ?q = "qsort value_cmp (recorded h)"
  have n: "0 < unat (hsize h)" "length (recorded h) = unat (hsize h)"
    using assms(1,2) by (auto simp: unat_gt_0 length_recorded)
  let ?idx = "[0] @ map (rank_index h) [0, 1, 2, 3, 4, 5] @ [unat (hsize h) - 1]"
  have ri: "rank_index h i \<le> rank_index h j \<and> rank_index h j < unat (hsize h)" if "i \<le> j" "j < 6" for i j
    using rank_index [OF assms(1,2) that] by simp
  have le: "rank_index h i \<le> unat (hsize h) - 1" if "i < 6" for i
    using ri [of i i] that by simp
  have "sorted ?idx"
    using ri [of 0 1] ri [of 1 2] ri [of 2 3] ri [of 3 4] ri [of 4 5]
      le [of 0] le [of 1] le [of 2] le [of 3] le [of 4] le [of 5] by simp
  moreover have idx: "\<forall>i\<in>set ?idx. i < length (recorded h)"
    using n ri [of 0 5] ri [of 1 5] ri [of 2 5] ri [of 3 5] ri [of 4 5] by simp
  ultimately have "sorted_wrt (\<lambda>i j. dle (?q ! i) (?q ! j)) ?idx"
    using sorted_nth_dle [OF assms(3)] by (auto intro: sorted_wrt_mono_rel [rotated])
  then have "sorted_wrt dle (map ((!) ?q) ?idx)" by (simp only: sorted_wrt_map)
  moreover have "set (map ((!) ?q) ?idx) \<subseteq> set (recorded h)"
    using idx nth_mem [of _ ?q] by (force simp del: map_append)
  moreover have "dle (?q ! 0) v \<and> dle v (?q ! (unat (hsize h) - 1))" if "v \<in> set (recorded h)" for v
  proof -
    from that obtain k where "v = ?q ! k" "k < length (recorded h)"
      by (metis in_set_conv_nth length_qsort set_qsort)
    with sorted_nth_dle [OF assms(3), of 0 k] sorted_nth_dle [OF assms(3), of k "unat (hsize h) - 1"] n
    show ?thesis by simp
  qed
  moreover have "histo_ok ((histo_sort h)\<lparr>hsize := 0, hcount := 0\<rparr>)"
    using histo_sort_recorded(2) [OF assms(1)] by (simp add: histo_ok_def)
  ultimately show ?thesis
    unfolding histo_sample_eq [OF assms(1,2)]
    by (simp add: order_stat_def) (simp add: recorded_def)
qed


theorem histo_sample_ordered_witness:
  "\<exists>smp h'. brubeck_histo_sample \<lparr>hvalues = [d_of_nat 7, d_of_nat 3], hcount = 2, halloc = 16, hsize = 2\<rparr>
     = Inr (smp, h') \<and> recorded h' = [] \<and> dle (s_median smp) (s_max smp)"
proof -
  let ?h = "\<lparr>hvalues = [d_of_nat 7, d_of_nat 3], hcount = 2, halloc = 16, hsize = 2\<rparr>"
  have "histo_ok ?h" by (simp add: histo_ok_def)
  moreover have "\<forall>v\<in>set (recorded ?h). \<not> is_nan v" by (simp add: recorded_def fp_eval)
  ultimately show ?thesis using histo_sample_ordered [of ?h] by auto
qed

end
