(* ===== verification/City.thy ===== *)
theory City
  imports Prelude
begin

text \<open>
  CityHash32 (\<^verbatim>\<open>src/city.c\<close>), the hash that places a metric in its shard. A pointer into the key
  is the list of the bytes behind it; \<open>read32\<close> fails outside that list, so that a hash that is
  \<open>Inr\<close> has read inside the key only.
\<close>

section \<open>Model\<close>

text \<open>\<^verbatim>\<open>memcpy\<close> of four bytes into a \<^verbatim>\<open>uint32_t\<close>, on a little-endian machine.\<close>

definition read32 :: "string \<Rightarrow> int \<Rightarrow> u32 res" where
  "read32 s p =
     rbind (rd s p) (\<lambda>b0. rbind (rd s (p + 1)) (\<lambda>b1. rbind (rd s (p + 2)) (\<lambda>b2. rbind (rd s (p + 3)) (\<lambda>b3.
       Inr (ucast (byte_of b0) OR push_bit 8 (ucast (byte_of b1)) OR push_bit 16 (ucast (byte_of b2))
            OR push_bit 24 (ucast (byte_of b3)))))))"

abbreviation c1 :: u32 where
  "c1 \<equiv> 0xcc9e2d51"

abbreviation c2 :: u32 where
  "c2 \<equiv> 0x1b873593"

definition fmix :: "u32 \<Rightarrow> u32" where
  "fmix h =
     (let h = h XOR drop_bit 16 h; h = h * 0x85ebca6b;
          h = h XOR drop_bit 13 h; h = h * 0xc2b2ae35
      in h XOR drop_bit 16 h)"

definition ror32 :: "u32 \<Rightarrow> nat \<Rightarrow> u32" where
  "ror32 val sh = (if sh = 0 then val else drop_bit sh val OR push_bit (32 - sh) val)"

definition bswap_32 :: "u32 \<Rightarrow> u32" where
  "bswap_32 x = push_bit 24 (x AND 0xFF) OR push_bit 8 (x AND 0xFF00)
     OR (drop_bit 8 x AND 0xFF00) OR drop_bit 24 x"

definition mur :: "u32 \<Rightarrow> u32 \<Rightarrow> u32" where
  "mur a h =
     (let a = a * c1; a = ror32 a 17; a = a * c2; h = h XOR a; h = ror32 h 19
      in h * 5 + 0xe6546b64)"

definition Hash32Len13to24 :: "string \<Rightarrow> u64 \<Rightarrow> u32 res" where
  "Hash32Len13to24 s len =
     rbind (read32 s (- 4 + uint (drop_bit 1 len))) (\<lambda>a.
     rbind (read32 s 4) (\<lambda>b.
     rbind (read32 s (uint len - 8)) (\<lambda>c.
     rbind (read32 s (uint (drop_bit 1 len))) (\<lambda>d.
     rbind (read32 s 0) (\<lambda>e.
     rbind (read32 s (uint len - 4)) (\<lambda>f.
       Inr (fmix (mur f (mur e (mur d (mur c (mur b (mur a (ucast len))))))))))))))"

text \<open>The loop adds \<^verbatim>\<open>s[i]\<close>, a signed \<^verbatim>\<open>char\<close>, to an unsigned sum.\<close>

fun len0to4_loop :: "string \<Rightarrow> nat \<Rightarrow> int \<Rightarrow> u32 \<Rightarrow> u32 \<Rightarrow> (u32 \<times> u32) res" where
  "len0to4_loop s 0 i b c = Inr (b, c)"
| "len0to4_loop s (Suc n) i b c =
     rbind (rd s i) (\<lambda>ch.
       let b = b * c1 + scast (byte_of ch); c = c XOR b
       in len0to4_loop s n (i + 1) b c)"

definition Hash32Len0to4 :: "string \<Rightarrow> u64 \<Rightarrow> u32 res" where
  "Hash32Len0to4 s len =
     rbind (len0to4_loop s (unat len) 0 0 9) (\<lambda>(b, c). Inr (fmix (mur b (mur (ucast len) c))))"

definition Hash32Len5to12 :: "string \<Rightarrow> u64 \<Rightarrow> u32 res" where
  "Hash32Len5to12 s len =
     (let a = ucast len; b = ucast (len * 5); c = 9; d = b in
     rbind (read32 s 0) (\<lambda>x. rbind (read32 s (uint len - 4)) (\<lambda>y.
     rbind (read32 s (uint (drop_bit 1 len AND 4))) (\<lambda>z.
       Inr (fmix (mur (c + z) (mur (b + y) (mur (a + x) d))))))))"

text \<open>\<^verbatim>\<open>PERMUTE3(f, h, g)\<close> gives \<open>f\<close> the old \<open>g\<close>, \<open>h\<close> the old \<open>f\<close> and \<open>g\<close> the old \<open>h\<close>.\<close>

fun permute3 :: "'a \<times> 'a \<times> 'a \<Rightarrow> 'a \<times> 'a \<times> 'a" where
  "permute3 (a, b, c) =
     (let (a, b) = (b, a); (a, c) = (c, a) in (a, b, c))"

definition city_round :: "u32 \<Rightarrow> u32 \<Rightarrow> u32 \<Rightarrow> u32 \<Rightarrow> u32 \<Rightarrow> u32 \<times> u32 \<times> u32 \<Rightarrow> u32 \<times> u32 \<times> u32" where
  "city_round a0 a1 a2 a3 a4 hgf =
     (let (h, g, f) = hgf;
          h = h XOR a0; h = ror32 h 18; h = h * 5 + 0xe6546b64;
          f = f + a1; f = ror32 f 19; f = f * c1;
          g = g + a2; g = ror32 g 18; g = g * 5 + 0xe6546b64;
          h = h XOR (a3 + a1); h = ror32 h 19; h = h * 5 + 0xe6546b64;
          g = g XOR a4; g = bswap_32 g * 5;
          h = h + a4 * 5; h = bswap_32 h;
          f = f + a0;
          (f, h, g) = permute3 (f, h, g)
      in (h, g, f))"

definition scramble :: "u32 \<Rightarrow> u32" where
  "scramble x = ror32 (x * c1) 17 * c2"

fun city_loop :: "nat \<Rightarrow> string \<Rightarrow> int \<Rightarrow> u32 \<times> u32 \<times> u32 \<Rightarrow> (u32 \<times> u32 \<times> u32) res" where
  "city_loop 0 s p hgf = Inr hgf"
| "city_loop (Suc iters) s p hgf =
     rbind (read32 s p) (\<lambda>a0. rbind (read32 s (p + 4)) (\<lambda>a1. rbind (read32 s (p + 8)) (\<lambda>a2.
     rbind (read32 s (p + 12)) (\<lambda>a3. rbind (read32 s (p + 16)) (\<lambda>a4.
       city_loop iters s (p + 20) (city_round (scramble a0) a1 (scramble a2) (scramble a3) a4 hgf))))))"

definition city_finish :: "u32 \<times> u32 \<times> u32 \<Rightarrow> u32" where
  "city_finish hgf =
     (let (h, g, f) = hgf;
          g = ror32 g 11 * c1; g = ror32 g 17 * c1;
          f = ror32 f 11 * c1; f = ror32 f 17 * c1;
          h = ror32 (h + g) 19; h = h * 5 + 0xe6546b64; h = ror32 h 17 * c1;
          h = ror32 (h + f) 19; h = h * 5 + 0xe6546b64
      in ror32 h 17 * c1)"

text \<open>The \<^verbatim>\<open>do ... while\<close> runs at least once: \<^verbatim>\<open>(len - 1) / 20\<close> is positive for keys above 24 bytes.\<close>

definition CityHash32 :: "string \<Rightarrow> u64 \<Rightarrow> u32 res" where
  "CityHash32 s len =
     (if len \<le> 24 then
        (if len \<le> 12 then (if len \<le> 4 then Hash32Len0to4 s len else Hash32Len5to12 s len)
         else Hash32Len13to24 s len)
      else
        let h = ucast len; g = c1 * ucast len; f = g in
        rbind (read32 s (uint len - 4)) (\<lambda>r0. rbind (read32 s (uint len - 8)) (\<lambda>r1.
        rbind (read32 s (uint len - 16)) (\<lambda>r2. rbind (read32 s (uint len - 12)) (\<lambda>r3.
        rbind (read32 s (uint len - 20)) (\<lambda>r4.
          let a0 = scramble r0; a1 = scramble r1; a2 = scramble r2; a3 = scramble r3; a4 = scramble r4;
              h = h XOR a0; h = ror32 h 19; h = h * 5 + 0xe6546b64;
              h = h XOR a2; h = ror32 h 19; h = h * 5 + 0xe6546b64;
              g = g XOR a1; g = ror32 g 19; g = g * 5 + 0xe6546b64;
              g = g XOR a3; g = ror32 g 19; g = g * 5 + 0xe6546b64;
              f = f + a4; f = ror32 f 19; f = f * 5 + 0xe6546b64
          in rbind (city_loop (unat ((len - 1) div 20)) s 0 (h, g, f)) (\<lambda>hgf.
               Inr (city_finish hgf))))))))"

section \<open>Reads\<close>

lemma rd_prefix: "0 \<le> p \<Longrightarrow> p < int (length key) \<Longrightarrow> rd (key @ rest) p = Inr (key ! nat p)"
  using nat_less_iff [of p "length key"] by (simp add: rd_def nth_append)

lemma read32_prefix:
  assumes "0 \<le> p" "p + 4 \<le> int (length key)"
  obtains w where "\<And>rest. read32 (key @ rest) p = Inr w"
  using assms by (simp add: read32_def rd_prefix)

definition local_read :: "string \<Rightarrow> int \<Rightarrow> bool" where
  "local_read key p \<longleftrightarrow> (\<exists>w. \<forall>rest. read32 (key @ rest) p = Inr w)"

lemma local_readI: "0 \<le> p \<Longrightarrow> p + 4 \<le> int (length key) \<Longrightarrow> local_read key p"
  unfolding local_read_def by (meson read32_prefix)

lemma len0to4_loop_prefix:
  "0 \<le> i \<Longrightarrow> i + int n \<le> int (length key) \<Longrightarrow> \<exists>r. \<forall>rest. len0to4_loop (key @ rest) n i b c = Inr r"
proof (induction n arbitrary: i b c)
  case (Suc n)
  then show ?case by (simp add: rd_prefix Let_def)
qed simp

lemma city_loop_prefix:
  "0 \<le> p \<Longrightarrow> p + 20 * int n \<le> int (length key) \<Longrightarrow> \<exists>r. \<forall>rest. city_loop n (key @ rest) p hgf = Inr r"
proof (induction n arbitrary: p hgf)
  case (Suc n)
  then have "local_read key p" "local_read key (p + 4)" "local_read key (p + 8)"
    "local_read key (p + 12)" "local_read key (p + 16)"
    by (auto intro!: local_readI)
  then obtain a0 a1 a2 a3 a4 where
    "\<forall>rest. read32 (key @ rest) p = Inr a0" "\<forall>rest. read32 (key @ rest) (p + 4) = Inr a1"
    "\<forall>rest. read32 (key @ rest) (p + 8) = Inr a2" "\<forall>rest. read32 (key @ rest) (p + 12) = Inr a3"
    "\<forall>rest. read32 (key @ rest) (p + 16) = Inr a4"
    unfolding local_read_def by metis
  then show ?case using Suc by simp
next
  case 0
  then show ?case by (cases hgf) simp
qed

lemma local_read_obtain:
  assumes "local_read key p"
  obtains w where "\<And>rest. read32 (key @ rest) p = Inr w"
  using assms unfolding local_read_def by blast

lemma half_len: "uint (drop_bit 1 (len::u64)) = uint len div 2"
  unfolding drop_bit_eq_div uint_div_distrib by simp

lemma Hash32Len13to24_prefix:
  assumes "12 < length key" "length key \<le> 24" "uint len = int (length key)"
  shows "\<exists>h. \<forall>rest. Hash32Len13to24 (key @ rest) len = Inr h"
proof -
  let ?n = "int (length key)"
  have "local_read key (- 4 + ?n div 2)" "local_read key 4" "local_read key (?n - 8)"
    "local_read key (?n div 2)" "local_read key 0" "local_read key (?n - 4)"
    using assms(1,2) by (auto intro!: local_readI)
  then show ?thesis
    unfolding Hash32Len13to24_def half_len assms(3) local_read_def by (elim exE) simp
qed

lemma Hash32Len5to12_prefix:
  assumes "4 < length key" "length key \<le> 12" "uint len = int (length key)"
  shows "\<exists>h. \<forall>rest. Hash32Len5to12 (key @ rest) len = Inr h"
proof -
  let ?n = "int (length key)"
  have "uint (drop_bit 1 len AND 4) = (?n div 2) AND 4"
    using half_len [of len] assms(3) by (simp add: unsigned_and_eq)
  moreover have "?n \<in> {5, 6, 7, 8, 9, 10, 11, 12}" using assms(1,2) by auto
  then have "(?n div 2) AND 4 = 0 \<or> (?n div 2) AND 4 = 4 \<and> 8 \<le> ?n" by auto
  ultimately have "local_read key (uint (drop_bit 1 len AND 4))" "local_read key 0" "local_read key (?n - 4)"
    using assms(1,2) by (auto intro!: local_readI)
  then show ?thesis
    unfolding Hash32Len5to12_def assms(3) local_read_def Let_def by (elim exE) simp
qed

lemma CityHash32_long_prefix:
  assumes "24 < length key" "uint len = int (length key)" "\<not> len \<le> 24"
  shows "\<exists>h. \<forall>rest. CityHash32 (key @ rest) len = Inr h"
proof -
  let ?n = "int (length key)"
  have "unat len = length key" using assms(2) by (metis nat_int unat_eq_nat_uint)
  then have it: "unat ((len - 1) div 20) = (length key - 1) div 20"
    using assms(1) by (simp add: unat_div unat_sub_if')
  have "0 + 20 * int ((length key - 1) div 20) \<le> ?n" by linarith
  from city_loop_prefix [OF order_refl this]
  obtain R where lp: "\<And>hgf rest. city_loop ((length key - 1) div 20) (key @ rest) 0 hgf = Inr (R hgf)"
    by metis
  have "local_read key (?n - 4)" "local_read key (?n - 8)" "local_read key (?n - 16)"
    "local_read key (?n - 12)" "local_read key (?n - 20)"
    using assms(1) by (auto intro!: local_readI)
  then obtain r0 r1 r2 r3 r4 where
    "\<forall>rest. read32 (key @ rest) (?n - 4) = Inr r0" "\<forall>rest. read32 (key @ rest) (?n - 8) = Inr r1"
    "\<forall>rest. read32 (key @ rest) (?n - 16) = Inr r2" "\<forall>rest. read32 (key @ rest) (?n - 12) = Inr r3"
    "\<forall>rest. read32 (key @ rest) (?n - 20) = Inr r4"
    unfolding local_read_def by metis
  then show ?thesis
    using assms(3) lp by (simp add: CityHash32_def it assms(2) Let_def) 
qed

lemma CityHash32_prefix:
  assumes "length key < 2 ^ 64"
  shows "\<exists>h. \<forall>rest. CityHash32 (key @ rest) (word_of_nat (length key)) = Inr h"
proof -
  let ?len = "word_of_nat (length key) :: u64"
  have u: "uint ?len = int (length key)" "unat ?len = length key"
    using assms by (simp_all add: uint_nat unat_of_nat)
  then have le: "?len \<le> k \<longleftrightarrow> length key \<le> unat k" for k by (simp add: word_le_nat_alt)
  consider "length key \<le> 4" | "4 < length key" "length key \<le> 12" | "12 < length key" "length key \<le> 24"
    | "24 < length key" by linarith
  then show ?thesis
  proof cases
    case 1
    then show ?thesis
      using len0to4_loop_prefix [of 0 "length key" key 0 9]
      by (auto simp: CityHash32_def le Hash32Len0to4_def u)
  next
    case 2
    then show ?thesis using Hash32Len5to12_prefix [OF 2 u(1)] by (simp add: CityHash32_def le)
  next
    case 3
    then show ?thesis using Hash32Len13to24_prefix [OF 3 u(1)] by (simp add: CityHash32_def le)
  next
    case 4
    then show ?thesis using CityHash32_long_prefix [OF 4 u(1)] by (simp add: le)
  qed
qed

section \<open>Properties\<close>

text \<open>
  C37. The hash reads inside the key only and is a function of the bytes of the key: whatever
  follows the key in memory, the hash is defined and the same.
\<close>

theorem CityHash32_in_bounds:
  assumes "length key < 2 ^ 64"
  shows "\<exists>h. \<forall>rest. CityHash32 (key @ rest) (word_of_nat (length key)) = Inr h"
  using CityHash32_prefix [OF assms] .

theorem CityHash32_in_bounds_witness:
  "\<exists>h. \<forall>rest. CityHash32 (''abcdefghijklmnopqrstuvwxyz'' @ rest) 26 = Inr h"
  using CityHash32_in_bounds [of "''abcdefghijklmnopqrstuvwxyz''"] by simp

end
