(* ===== verification/Utils.thy ===== *)
theory Utils
  imports IEEE754 "HOL-Library.Sublist"
begin

text \<open>
  The helpers of \<^verbatim>\<open>src/utils.c\<close> and \<^verbatim>\<open>src/utils.h\<close>: string search, printing of integers and of
  single-precision numbers into a buffer, complete writes to a socket and address resolution.
\<close>

section \<open>Strings\<close>

text \<open>A C string argument is the list of bytes its pointer leads to, terminator included.\<close>

fun starts_with :: "string \<Rightarrow> string \<Rightarrow> bool res" where
  "starts_with _ [] = Inl OutOfBounds"
| "starts_with str (q # pre) =
     (if q = NUL then Inr True
      else case str of [] \<Rightarrow> Inl OutOfBounds
           | c # str' \<Rightarrow> if c \<noteq> q then Inr False else starts_with str' pre)"

text \<open>\<^verbatim>\<open>strncmp(s, t, n) == 0\<close>.\<close>

fun strncmp_eq :: "string \<Rightarrow> string \<Rightarrow> nat \<Rightarrow> bool res" where
  "strncmp_eq _ _ 0 = Inr True"
| "strncmp_eq (c # s) (d # t) (Suc n) =
     (if c \<noteq> d then Inr False else if c = NUL then Inr True else strncmp_eq s t n)"
| "strncmp_eq _ _ (Suc n) = Inl OutOfBounds"

fun find_loop :: "string \<Rightarrow> char \<Rightarrow> string \<Rightarrow> nat \<Rightarrow> nat \<Rightarrow> string option res" where
  "find_loop [] c f len slen = Inl OutOfBounds"
| "find_loop (sc # s) c f len slen =
     (if sc = NUL \<or> slen < 1 then Inr None
      else if sc \<noteq> c then find_loop s c f len (slen - 1)
      else if len > slen - 1 then Inr None
      else rbind (strncmp_eq s f len) (\<lambda>eq.
             if eq then Inr (Some (sc # s)) else find_loop s c f len (slen - 1)))"

definition find_substr :: "string \<Rightarrow> string \<Rightarrow> nat \<Rightarrow> string option res" where
  "find_substr s f slen =
     (case f of [] \<Rightarrow> Inl OutOfBounds
      | c # f' \<Rightarrow> if c \<noteq> NUL then find_loop s c f' (length (cstr f')) slen else Inr (Some s))"

section \<open>Numbers\<close>

abbreviation FLOAT_PRECISION :: nat where
  "FLOAT_PRECISION \<equiv> 4"

text \<open>The digits of \<^verbatim>\<open>number\<close>, least significant first, written from \<open>ptr\<close> on.\<close>

function itoa_loop :: "string \<Rightarrow> int \<Rightarrow> u32 \<Rightarrow> (string \<times> int) res" where
  "itoa_loop buf ptr number =
     rbind (wr buf ptr (char_of (48 + unat (number mod 10)))) (\<lambda>buf'.
       if number div 10 \<noteq> 0 then itoa_loop buf' (ptr + 1) (number div 10) else Inr (buf', ptr + 1))"
  by pat_completeness auto
termination
proof (relation "measure (\<lambda>(_, _, n). unat n)")
  show "((buf', ptr + 1, number div 10), (buf, ptr, number)) \<in> measure (\<lambda>(_, _, n). unat n)"
    if "number div 10 \<noteq> 0" for buf buf' :: string and ptr :: int and number :: u32
  proof -
    have "unat number \<noteq> 0" using that by (metis div_0 unat_eq_zero)
    then show ?thesis by (simp add: unat_div)
  qed
qed simp

function swap_loop :: "string \<Rightarrow> int \<Rightarrow> int \<Rightarrow> string res" where
  "swap_loop buf origin ptr =
     (if origin < ptr then
        rbind (rd buf ptr) (\<lambda>t. rbind (rd buf origin) (\<lambda>c. rbind (wr buf ptr c) (\<lambda>buf'.
        rbind (wr buf' origin t) (\<lambda>buf''. swap_loop buf'' (origin + 1) (ptr - 1)))))
      else Inr buf)"
  by pat_completeness auto
termination by (relation "measure (\<lambda>(_, i, j). nat (j - i))") auto

definition brubeck_itoa :: "string \<Rightarrow> int \<Rightarrow> u32 \<Rightarrow> (string \<times> int) res" where
  "brubeck_itoa buf origin number =
     rbind (itoa_loop buf origin number) (\<lambda>(buf', ptr).
       rbind (swap_loop buf' origin (ptr - 1)) (\<lambda>buf''. Inr (buf'', ptr - origin)))"

text \<open>The fields that \<^verbatim>\<open>brubeck_ftoa\<close> cuts out of the word \<^verbatim>\<open>x.L\<close>.\<close>

definition ftoa_exp2 :: "float \<Rightarrow> int" where
  "ftoa_exp2 x = uint (drop_bit 23 x AND 0xFF) - 127"

definition ftoa_mantissa :: "float \<Rightarrow> u64" where
  "ftoa_mantissa x = ucast ((x AND 0xFFFFFF) OR 0x800000)"

text \<open>
  The mask \<^verbatim>\<open>safe_mask\<close> is a word of 64 bits shifted by \<^verbatim>\<open>64 - 24 - safe_shift\<close>, which is undefined when
  the count is not below 64.
\<close>

definition ftoa_mask :: "int \<Rightarrow> u64 res" where
  "ftoa_mask safe_shift =
     (let k = 64 - 24 - safe_shift in
      if 0 \<le> k \<and> k < 64 then Inr (drop_bit (nat k) 0xFFFFFFFFFFFFFFFF) else Inl BadShift)"

definition ftoa_parts :: "float \<Rightarrow> u64 \<Rightarrow> u64 \<times> u64" where
  "ftoa_parts x safe_mask =
     (let exp2 = ftoa_exp2 x; mantissa = ftoa_mantissa x in
      if 64 \<le> exp2 then (0xFFFFFFFFFFFFFFFF, 0)
      else if 23 \<le> exp2 then (push_bit (nat (exp2 - 23)) mantissa, 0)
      else if 0 \<le> exp2 then (drop_bit (nat (23 - exp2)) mantissa, mantissa AND safe_mask)
      else (0, mantissa AND 0xFFFFFF))"

fun frac_loop :: "nat \<Rightarrow> string \<Rightarrow> int \<Rightarrow> u64 \<Rightarrow> int \<Rightarrow> u64 \<Rightarrow> (string \<times> int) res" where
  "frac_loop 0 buf p frac_part safe_shift safe_mask = Inr (buf, p)"
| "frac_loop (Suc m) buf p frac_part safe_shift safe_mask =
     (let frac_part = push_bit 3 frac_part + push_bit 1 frac_part in
      rbind (wr buf p (char_of_byte (ucast (drop_bit (nat (24 + safe_shift)) frac_part + 48)))) (\<lambda>buf'.
        frac_loop m buf' (p + 1) (frac_part AND safe_mask) safe_shift safe_mask))"

function trim_zeros :: "string \<Rightarrow> int \<Rightarrow> int res" where
  "trim_zeros buf p = rbind (rd buf (p - 1)) (\<lambda>c. if c = CHR ''0'' then trim_zeros buf (p - 1) else Inr p)"
  by pat_completeness auto
termination by (relation "measure (\<lambda>(_, p). nat p)") (auto simp: rd_Inr_iff)

definition ftoa_int :: "string \<Rightarrow> int \<Rightarrow> u64 \<Rightarrow> (string \<times> int) res" where
  "ftoa_int buf p int_part =
     (if int_part = 0 then rbind (wr buf p (CHR ''0'')) (\<lambda>buf. Inr (buf, p + 1))
      else rbind (brubeck_itoa buf p (ucast int_part)) (\<lambda>(buf, n). Inr (buf, p + n)))"

definition ftoa_frac :: "string \<Rightarrow> int \<Rightarrow> u64 \<Rightarrow> int \<Rightarrow> u64 \<Rightarrow> (string \<times> int) res" where
  "ftoa_frac buf p frac_part safe_shift safe_mask =
     (if frac_part \<noteq> 0 then
        rbind (wr buf p (CHR ''.'')) (\<lambda>buf.
        rbind (frac_loop FLOAT_PRECISION buf (p + 1) frac_part safe_shift safe_mask) (\<lambda>(buf, p).
        rbind (trim_zeros buf p) (\<lambda>p.
        rbind (rd buf (p - 1)) (\<lambda>c. Inr (buf, if c = CHR ''.'' then p - 1 else p)))))
      else Inr (buf, p))"

definition brubeck_ftoa :: "string \<Rightarrow> int \<Rightarrow> float \<Rightarrow> (string \<times> int) res" where
  "brubeck_ftoa buf outbuf x =
     rbind (if x <s 0 then rbind (wr buf outbuf (CHR ''-'')) (\<lambda>b. Inr (b, outbuf + 1))
            else Inr (buf, outbuf)) (\<lambda>(buf, p).
     rbind (if ftoa_exp2 x < - 36 then rbind (wr buf p (CHR ''0'')) (\<lambda>b. Inr (b, p + 1))
            else
              let safe_shift = - (ftoa_exp2 x + 1) in
              rbind (ftoa_mask safe_shift) (\<lambda>safe_mask.
              let (int_part, frac_part) = ftoa_parts x safe_mask in
              rbind (ftoa_int buf p int_part) (\<lambda>(buf, p). ftoa_frac buf p frac_part safe_shift safe_mask))) (\<lambda>(buf, p).
     rbind (wr buf p NUL) (\<lambda>buf. Inr (buf, p - outbuf))))"

text \<open>Reference printing: decimal digits of a number, and of a count of ten-thousandths.\<close>

definition digit :: "nat \<Rightarrow> char" where
  "digit d = char_of (48 + d)"

fun dec :: "nat \<Rightarrow> string" where
  "dec n = (if n < 10 then [] else dec (n div 10)) @ [digit (n mod 10)]"

fun pad :: "nat \<Rightarrow> nat \<Rightarrow> string" where
  "pad 0 n = []"
| "pad (Suc m) n = pad m (n div 10) @ [digit (n mod 10)]"

definition strip :: "string \<Rightarrow> string" where
  "strip s = rev (dropWhile (\<lambda>c. c = CHR ''0'') (rev s))"

definition decimal4 :: "nat \<Rightarrow> string" where
  "decimal4 n =
     dec (n div 10000) @ (let t = strip (pad 4 (n mod 10000)) in if t = [] then [] else CHR ''.'' # t)"

declare dec.simps [simp del] itoa_loop.simps [simp del] swap_loop.simps [simp del] trim_zeros.simps [simp del]

section \<open>Writing behind a text\<close>

text \<open>A buffer that holds the text \<open>pfx\<close> so far and has the cells \<open>rest\<close> left.\<close>

lemma wr_end [c_mem]: "wr (pfx @ r # rs) (int (length pfx)) c = Inr (pfx @ c # rs)"
  by (simp add: wr_def)

lemma rd_mid [c_mem]: "rd (pfx @ c # rs) (int (length pfx)) = Inr c"
  by (simp add: rd_def nth_append)

lemma unat_mod_10: "unat ((n::u32) mod 10) = unat n mod 10" "unat (n div 10) = unat n div 10"
  by (simp_all add: unat_mod unat_div)

lemma itoa_loop_dec:
  "length (dec (unat n)) \<le> length rest \<Longrightarrow>
   itoa_loop (pfx @ rest) (int (length pfx)) n =
     Inr (pfx @ rev (dec (unat n)) @ drop (length (dec (unat n))) rest, int (length pfx + length (dec (unat n))))"
proof (induction "unat n" arbitrary: n pfx rest rule: less_induct)
  case less
  have dec: "dec (unat n) = (if unat n < 10 then [] else dec (unat n div 10)) @ [digit (unat n mod 10)]"
    by (rule dec.simps)
  obtain r rs where rest: "rest = r # rs" using less.prems by (cases rest) (auto simp: dec)
  have z: "n div 10 = 0 \<longleftrightarrow> unat n < 10"
    by (metis div_eq_0_iff unat_eq_zero unat_mod_10(2) zero_neq_numeral)
  let ?c = "digit (unat n mod 10)"
  show ?case
  proof (cases "unat n < 10")
    case True
    then show ?thesis
      by (simp add: itoa_loop.simps [of _ _ n] rest wr_end z dec unat_mod_10 digit_def)
  next
    case False
    have "itoa_loop ((pfx @ [?c]) @ rs) (int (length (pfx @ [?c]))) (n div 10) =
      Inr ((pfx @ [?c]) @ rev (dec (unat (n div 10))) @ drop (length (dec (unat (n div 10)))) rs,
        int (length (pfx @ [?c]) + length (dec (unat (n div 10)))))"
      by (rule less.hyps) (use False less.prems in \<open>simp_all add: unat_mod_10 dec rest\<close>)
    with False show ?thesis
      by (simp add: itoa_loop.simps [of _ _ n] rest wr_end z dec unat_mod_10 digit_def ac_simps)
  qed
qed

lemma swap_loop_rev:
  "swap_loop (a @ ys @ b) (int (length a)) (int (length a + length ys) - 1) = Inr (a @ rev ys @ b)"
proof (induction "length ys" arbitrary: a ys b rule: less_induct)
  case less
  show ?case
  proof (cases "length ys \<le> 1")
    case True
    then show ?thesis by (cases ys) (auto simp: swap_loop.simps)
  next
    case False
    then obtain y zs z where ys: "ys = y # zs @ [z]"
      by (metis One_nat_def append_Nil2 append_butlast_last_id length_0_conv length_append_singleton
          list.exhaust list.size(4) nat_le_linear not_less_eq_eq plus_1_eq_Suc add.commute zero_le)
    have last: "int (length a + length ys) - 1 = int (length (a @ y # zs))" by (simp add: ys)
    have "swap_loop ((a @ [z]) @ zs @ (y # b)) (int (length (a @ [z]))) (int (length (a @ [z]) + length zs) - 1)
      = Inr ((a @ [z]) @ rev zs @ (y # b))"
      by (rule less.hyps) (simp add: ys)
    moreover have "rd (a @ ys @ b) (int (length (a @ y # zs))) = Inr z"
      using rd_mid [of "a @ y # zs" z b] by (simp add: ys)
    moreover have "wr (a @ ys @ b) (int (length (a @ y # zs))) y = Inr (a @ y # zs @ y # b)"
      using wr_end [of "a @ y # zs" z b y] by (simp add: ys)
    ultimately show ?thesis
      unfolding last by (subst swap_loop.simps) (simp add: ys rd_mid wr_end ac_simps)
  qed
qed

lemma itoa_dec:
  assumes "length (dec (unat n)) \<le> length rest"
  shows "brubeck_itoa (pfx @ rest) (int (length pfx)) n =
    Inr (pfx @ dec (unat n) @ drop (length (dec (unat n))) rest, int (length (dec (unat n))))"
  using itoa_loop_dec [OF assms, of pfx] swap_loop_rev [of pfx "rev (dec (unat n))"]
  by (simp add: brubeck_itoa_def)

lemma frac_step:
  assumes "unat f < 2 ^ k" "k \<le> 59"
  shows "unat (push_bit 3 (f::u64) + push_bit 1 f) = 10 * unat f"
proof -
  have "unat f < 2 ^ 59" using assms power_increasing [OF assms(2), of "2::nat"] by linarith
  then have "unat (word_of_nat (10 * unat f) :: u64) = 10 * unat f" by (simp add: unat_of_nat del: of_nat_mult)
  moreover have "push_bit 3 f + push_bit 1 f = word_of_nat (10 * unat f)"
    by (simp add: push_bit_eq_mult)
  ultimately show ?thesis by (simp only:)
qed

lemma ftoa_mask_eq:
  assumes "0 < k" "k \<le> 59"
  shows "ftoa_mask (int k - 24) = Inr (mask k)"
proof -
  have "(0xFFFFFFFFFFFFFFFF :: u64) = mask 64" by (simp add: mask_eq_exp_minus_1)
  moreover have "drop_bit (64 - k) (mask 64 :: u64) = mask k"
    using assms by (intro bit_word_eqI) (auto simp: bit_simps)
  moreover have "nat (64 - 24 - (int k - 24)) = 64 - k" using assms by simp
  ultimately show ?thesis using assms by (simp add: ftoa_mask_def Let_def)
qed

lemma unat_and_mask: "unat ((w::'a::len word) AND mask k) = unat w mod 2 ^ k"
  by (simp only: take_bit_eq_mask [symmetric] unsigned_take_bit_eq) (simp add: take_bit_eq_mod)

lemma unat_drop_bit_div: "unat (drop_bit k (w::'a::len word)) = unat w div 2 ^ k"
  unfolding unat_drop_bit_eq by (simp only: drop_bit_eq_div)

lemma digit_byte: "unat (w::u64) < 10 \<Longrightarrow> char_of_byte (ucast (w + 48)) = digit (unat w)"
proof -
  assume "unat w < 10"
  then have "unat (ucast (w + 48) :: u8) = 48 + unat w"
    by (simp add: unsigned_ucast_eq unat_word_ariths take_bit_eq_mod)
  then show ?thesis by (simp add: char_of_byte_def digit_def)
qed

text \<open>The digits of a fraction \<open>f / 2^k\<close>, most significant first.\<close>

fun fdigits :: "nat \<Rightarrow> nat \<Rightarrow> nat \<Rightarrow> string" where
  "fdigits 0 f k = []"
| "fdigits (Suc m) f k = digit (10 * f div 2 ^ k) # fdigits m (10 * f mod 2 ^ k) k"

lemma pad_Suc_front: "n < 10 ^ Suc m \<Longrightarrow> pad (Suc m) n = digit (n div 10 ^ m) # pad m (n mod 10 ^ m)"
proof (induction m arbitrary: n)
  case (Suc m)
  then have "n div 10 < 10 ^ Suc m" by (simp add: less_mult_imp_div_less)
  then have "pad (Suc (Suc m)) n = digit (n div 10 div 10 ^ m) # pad m (n div 10 mod 10 ^ m) @ [digit (n mod 10)]"
    using Suc.IH [of "n div 10"] by simp
  moreover have "n mod 10 ^ Suc m div 10 = n div 10 mod 10 ^ m" "n mod 10 ^ Suc m mod 10 = n mod 10"
    by (simp_all add: mod_mult2_eq mod_mod_cancel)
  ultimately show ?case by (simp add: div_mult2_eq)
qed simp

lemma fdigits_pad: "f < 2 ^ k \<Longrightarrow> fdigits m f k = pad m (f * 10 ^ m div 2 ^ k)"
proof (induction m arbitrary: f)
  case (Suc m)
  let ?q = "10 * f div 2 ^ k" and ?r = "10 * f mod 2 ^ k"
  let ?s = "?r * 10 ^ m div 2 ^ k"
  have "f * 10 ^ Suc m = (10 * f) * 10 ^ m" by simp
  also have "\<dots> = (?q * 2 ^ k + ?r) * 10 ^ m" by (simp only: div_mult_mod_eq)
  also have "\<dots> = ?r * 10 ^ m + ?q * 10 ^ m * 2 ^ k" by (simp only: algebra_simps)
  finally have eq: "f * 10 ^ Suc m div 2 ^ k = ?s + ?q * 10 ^ m" by simp
  have "?r * 10 ^ m < 10 ^ m * 2 ^ k" by (simp add: mult.commute)
  then have s: "?s < 10 ^ m" by (simp add: less_mult_imp_div_less)
  have "?q < 10" using Suc.prems by (simp add: less_mult_imp_div_less)
  then have "?q * 10 ^ m \<le> 9 * 10 ^ m" by (intro mult_le_mono1) simp
  with s have "?s + ?q * 10 ^ m < 10 ^ Suc m" unfolding power_Suc by linarith
  then have "pad (Suc m) (?s + ?q * 10 ^ m) = digit ?q # pad m ?s"
    using s by (subst pad_Suc_front) auto
  then show ?case unfolding eq using Suc.IH [of ?r] by simp
qed simp

lemma length_fdigits [simp]: "length (fdigits m f k) = m"
  by (induction m arbitrary: f) auto

lemma frac_loop_fdigits:
  "unat f < 2 ^ k \<Longrightarrow> 0 < k \<Longrightarrow> k \<le> 59 \<Longrightarrow> m \<le> length rest \<Longrightarrow>
   frac_loop m (pfx @ rest) (int (length pfx)) f (int k - 24) (mask k) =
     Inr (pfx @ fdigits m (unat f) k @ drop m rest, int (length pfx + m))"
proof (induction m arbitrary: pfx rest f)
  case (Suc m)
  obtain r rs where rest: "rest = r # rs" using Suc.prems(4) by (cases rest) auto
  define g where "g = push_bit 3 f + push_bit 1 f"
  have g: "unat g = 10 * unat f" using frac_step [OF Suc.prems(1,3)] by (simp only: g_def)
  let ?c = "digit (10 * unat f div 2 ^ k)" and ?g = "g AND mask k"
  have "unat (drop_bit k g) = 10 * unat f div 2 ^ k" by (simp only: unat_drop_bit_div g)
  moreover have "10 * unat f div 2 ^ k < 10" using Suc.prems(1) by (simp add: less_mult_imp_div_less)
  ultimately have c: "char_of_byte (ucast (drop_bit k g + 48)) = ?c"
    using digit_byte [of "drop_bit k g"] by simp
  have m: "unat ?g = 10 * unat f mod 2 ^ k"
    by (simp only: unat_and_mask g)
  have "frac_loop m ((pfx @ [?c]) @ rs) (int (length (pfx @ [?c]))) ?g (int k - 24) (mask k) =
    Inr ((pfx @ [?c]) @ fdigits m (unat ?g) k @ drop m rs, int (length (pfx @ [?c]) + m))"
    by (rule Suc.IH) (use Suc.prems m rest in simp_all)
  then show ?case
    by (simp only: frac_loop.simps Let_def g_def [symmetric]) (simp add: c m rest wr_end algebra_simps)
qed simp

lemma strip_append: "strip ds \<noteq> [] \<Longrightarrow> strip (pfx @ ds) = pfx @ strip ds"
  by (auto simp: strip_def dropWhile_append dropWhile_eq_Nil_conv)

lemma strip_zeros: "strip ds = [] \<Longrightarrow> c \<noteq> CHR ''0'' \<Longrightarrow> strip (pfx @ c # ds) = pfx @ [c]"
  by (simp add: strip_def dropWhile_append dropWhile_eq_Nil_conv)

lemma trim_zeros_strip:
  "strip pfx \<noteq> [] \<Longrightarrow> trim_zeros (pfx @ rest) (int (length pfx)) = Inr (int (length (strip pfx)))"
proof (induction pfx arbitrary: rest rule: rev_induct)
  case (snoc c cs)
  have r: "rd (cs @ c # rest) (int (length cs)) = Inr c" by (rule rd_mid)
  show ?case
  proof (cases "c = CHR ''0''")
    case True
    with snoc.prems have "strip cs \<noteq> []" "strip (cs @ [c]) = strip cs" by (simp_all add: strip_def)
    with True r snoc.IH [of "c # rest"] show ?thesis by (subst trim_zeros.simps) simp
  next
    case False
    with r show ?thesis by (subst trim_zeros.simps) (simp add: strip_def)
  qed
qed (simp add: strip_def)

section \<open>Printing of single-precision numbers\<close>

lemma length_dec: "n < 10 ^ k \<Longrightarrow> 0 < k \<Longrightarrow> length (dec n) \<le> k"
proof (induction k arbitrary: n)
  case (Suc k)
  show ?case
  proof (cases "n < 10")
    case False
    then have "0 < k" using Suc.prems(1) by (cases k) auto
    with False Suc.IH [of "n div 10"] Suc.prems(1) show ?thesis
      by (subst dec.simps) (simp add: less_mult_imp_div_less)
  qed (subst dec.simps, simp)
qed simp

lemma length_dec_u32: "length (dec (unat (n::u32))) \<le> 10"
  using unsigned_less [of n, where ?'a = nat] by (intro length_dec) simp_all

lemma digit_0 [simp]: "digit 0 = CHR ''0''"
  by (simp add: digit_def char_of_def bit_0)

lemma dec_0 [simp]: "dec 0 = ''0''"
  by (simp add: dec.simps)

lemma digit_not_dot: "d < 10 \<Longrightarrow> digit d \<noteq> CHR ''.''"
proof
  assume "d < 10" "digit d = CHR ''.''"
  then have "(of_char (digit d) :: nat) = of_char (CHR ''.'')" by simp
  with \<open>d < 10\<close> show False by (simp add: digit_def)
qed

lemma fdigits_not_dot: "f < 2 ^ k \<Longrightarrow> CHR ''.'' \<notin> set (fdigits m f k)"
proof (induction m arbitrary: f)
  case (Suc m)
  then have "10 * f div 2 ^ k < 10" by (simp add: less_mult_imp_div_less)
  with Suc digit_not_dot [of "10 * f div 2 ^ k"] show ?case by auto
qed simp

lemma ftoa_int_dec:
  assumes "length (dec (unat (ucast i :: u32))) \<le> length rest"
  shows "ftoa_int (pfx @ rest) (int (length pfx)) i = Inr (pfx @ dec (unat (ucast i :: u32))
      @ drop (length (dec (unat (ucast i :: u32)))) rest, int (length pfx + length (dec (unat (ucast i :: u32)))))"
proof (cases "i = 0")
  case True
  with assms show ?thesis by (cases rest) (auto simp: ftoa_int_def wr_end)
next
  case False
  with itoa_dec [OF assms, of pfx] show ?thesis by (simp add: ftoa_int_def)
qed

definition frac_text :: "string \<Rightarrow> string" where
  "frac_text ds = (if strip ds = [] then [] else CHR ''.'' # strip ds)"

lemma trim_tail:
  assumes "CHR ''.'' \<notin> set ds"
  shows "\<exists>tl. rbind (trim_zeros (pfx @ CHR ''.'' # ds @ rs) (int (length pfx + 1 + length ds))) (\<lambda>p.
      rbind (rd (pfx @ CHR ''.'' # ds @ rs) (p - 1)) (\<lambda>c. Inr (if c = CHR ''.'' then p - 1 else p)))
      = Inr (int (length pfx + length (frac_text ds)))
    \<and> pfx @ CHR ''.'' # ds @ rs = pfx @ frac_text ds @ tl
    \<and> length (frac_text ds) + length tl = 1 + length ds + length rs"
proof -
  define sd where "sd = strip ds"
  obtain z where z: "ds = sd @ z"
    unfolding sd_def strip_def by (metis rev_append rev_rev_ident takeWhile_dropWhile_id)
  have sp: "strip (pfx @ CHR ''.'' # ds) = pfx @ CHR ''.'' # sd"
    using strip_append [of ds "pfx @ ''.''"] strip_zeros [of ds "CHR ''.''" pfx] by (cases "sd = []") (auto simp: sd_def)
  then have tr: "trim_zeros (pfx @ CHR ''.'' # ds @ rs) (int (length pfx + 1 + length ds)) = Inr (int (length pfx + 1 + length sd))"
    using trim_zeros_strip [of "pfx @ CHR ''.'' # ds" rs] by simp
  have ft: "frac_text ds = (if sd = [] then [] else CHR ''.'' # sd)" by (simp add: frac_text_def sd_def)
  show ?thesis
  proof (cases "sd = []")
    case True
    with tr ft rd_mid [of pfx "CHR ''.''" "ds @ rs"] show ?thesis by simp
  next
    case False
    then obtain w c where wc: "sd = w @ [c]" by (metis rev_exhaust)
    then have "c \<noteq> CHR ''.''" using assms z by auto
    moreover have "rd (pfx @ CHR ''.'' # ds @ rs) (int (length pfx + length sd)) = Inr c"
      using rd_mid [of "pfx @ CHR ''.'' # w" c "z @ rs"] by (simp add: z wc)
    ultimately show ?thesis using tr ft False by (simp add: z)
  qed
qed

lemma ftoa_frac_text:
  assumes "unat f < 2 ^ k" "0 < k" "k \<le> 59" "5 \<le> length rest"
  shows "\<exists>tl. ftoa_frac (pfx @ rest) (int (length pfx)) f (int k - 24) (mask k) =
      Inr (pfx @ frac_text (fdigits 4 (unat f) k) @ tl, int (length pfx + length (frac_text (fdigits 4 (unat f) k))))
    \<and> length (frac_text (fdigits 4 (unat f) k)) + length tl = length rest"
proof (cases "f = 0")
  case True
  then have "frac_text (fdigits 4 (unat f) k) = []"
    by (simp add: frac_text_def strip_def numeral_eq_Suc)
  with True show ?thesis by (simp add: ftoa_frac_def)
next
  case False
  obtain r rs where rest: "rest = r # rs" using assms(4) by (cases rest) auto
  define ds where "ds = fdigits 4 (unat f) k"
  have ds: "CHR ''.'' \<notin> set ds" "length ds = 4" using fdigits_not_dot [OF assms(1)] by (simp_all add: ds_def)
  obtain tl where tl: "rbind (trim_zeros (pfx @ CHR ''.'' # ds @ drop 4 rs) (int (length pfx + 1 + length ds))) (\<lambda>p.
      rbind (rd (pfx @ CHR ''.'' # ds @ drop 4 rs) (p - 1)) (\<lambda>c. Inr (if c = CHR ''.'' then p - 1 else p)))
      = Inr (int (length pfx + length (frac_text ds)))"
    "pfx @ CHR ''.'' # ds @ drop 4 rs = pfx @ frac_text ds @ tl"
    "length (frac_text ds) + length tl = 1 + length ds + length (drop 4 rs)"
    using trim_tail [OF ds(1), of pfx "drop 4 rs"] by blast
  have "frac_loop 4 (pfx @ CHR ''.'' # rs) (int (length pfx) + 1) f (int k - 24) (mask k) =
      Inr (pfx @ CHR ''.'' # ds @ drop 4 rs, int (length pfx + 1 + length ds))"
    using frac_loop_fdigits [OF assms(1-3), of 4 rs "pfx @ ''.''"] assms(4) rest ds(2)
    by (simp add: add.commute ds_def)
  then have "ftoa_frac (pfx @ rest) (int (length pfx)) f (int k - 24) (mask k) =
      Inr (pfx @ CHR ''.'' # ds @ drop 4 rs, int (length pfx + length (frac_text ds)))"
    using False tl(1) by (auto simp: ftoa_frac_def rest wr_end rbind_Inr_iff simp del: of_nat_add)
  with tl(2,3) assms(4) rest ds(2) show ?thesis by (auto simp: ds_def [symmetric])
qed

lemma ftoa_mantissa: "unat (ftoa_mantissa x) = 2 ^ 23 + unat x mod 2 ^ 23"
proof -
  have "(x AND 0xFFFFFF) OR 0x800000 = Bit_Operations.set_bit 23 (x AND mask 24)"
    by (simp add: mask_eq_exp_minus_1 set_bit_eq_or)
  also have "\<dots> = Bit_Operations.set_bit 23 (x AND mask 23)"
    by (rule bit_word_eqI) (auto simp: bit_simps)
  also have "\<dots> = (x AND mask 23) + push_bit 23 1"
    by (simp add: set_bit_eq bit_simps)
  finally have eq: "(x AND 0xFFFFFF) OR 0x800000 = (x AND mask 23) + 2 ^ 23" by simp
  have lt: "unat x mod 2 ^ 23 < 2 ^ 23" by simp
  then have "unat ((x AND mask 23) + 2 ^ 23) = unat x mod 2 ^ 23 + 2 ^ 23"
    by (simp add: unat_word_ariths unat_and_mask)
  with lt show ?thesis
    unfolding ftoa_mantissa_def eq by (simp add: unsigned_ucast_eq take_bit_eq_mod)
qed

lemma ftoa_exp2: "ftoa_exp2 x = int (unat x div 2 ^ 23 mod 2 ^ 8) - 127"
proof -
  have "drop_bit 23 x AND 0xFF = drop_bit 23 x AND mask 8" by (simp add: mask_eq_exp_minus_1)
  then show ?thesis
    unfolding ftoa_exp2_def uint_nat by (simp only: unat_and_mask unat_drop_bit_div)
qed

lemma sless_0: "(x::u32) <s 0 \<longleftrightarrow> 2 ^ 31 \<le> unat x"
proof -
  have "x <s 0 \<longleftrightarrow> bit (unat x) 31"
    by (simp add: word_sless_alt signed_take_bit_negative_iff sint_uint bit_unsigned_iff)
  also have "\<dots> \<longleftrightarrow> odd (unat x div 2 ^ 31)" by (rule bit_iff_odd)
  also have "unat x div 2 ^ 31 < 2"
    using unsigned_less [of x, where ?'a = nat] by (simp add: less_mult_imp_div_less)
  then have "odd (unat x div 2 ^ 31) \<longleftrightarrow> 0 < unat x div 2 ^ 31" by (auto simp: less_2_cases_iff)
  finally show ?thesis by (simp add: div_greater_zero_iff)
qed

text \<open>The magnitude as mantissa and exponent.\<close>

lemma decode32_ftoa:
  assumes "ftoa_exp2 x \<noteq> - 127" "ftoa_exp2 x \<noteq> 128"
  shows "decode32 x = FFin (x <s 0) (unat (ftoa_mantissa x)) (ftoa_exp2 x - 23)"
  using assms unfolding ftoa_exp2
  by (auto simp: decode32_def fp_decode_def Let_def fields32 exp_range sless_0 ftoa_mantissa)

lemma decode32_tiny:
  assumes "ftoa_exp2 x = - 127"
  shows "\<exists>m<2 ^ 23. decode32 x = FFin (x <s 0) m (- 149)"
  using assms unfolding ftoa_exp2
  by (auto simp: decode32_def fp_decode_def Let_def fields32 exp_range sless_0)


lemma ftoa_parts_small:
  assumes "ftoa_exp2 x = 23 - int k" "0 < k" "k \<le> 59" "ftoa_parts x (mask k) = (i, f)"
  shows "unat i = unat (ftoa_mantissa x) div 2 ^ k" "unat f = unat (ftoa_mantissa x) mod 2 ^ k"
proof -
  let ?M = "ftoa_mantissa x"
  have M: "unat ?M < 2 ^ 24" using ftoa_mantissa [of x] by simp
  have "unat i = unat ?M div 2 ^ k \<and> unat f = unat ?M mod 2 ^ k"
  proof -
    consider "k \<le> 23" | "24 \<le> k" by linarith
    then show ?thesis
    proof cases
      case 1
      then have "i = drop_bit k ?M" "f = ?M AND mask k"
        using assms by (simp_all add: ftoa_parts_def Let_def)
      then show ?thesis by (simp add: unat_drop_bit_div unat_and_mask)
    next
      case 2
      then have "unat ?M < 2 ^ k" using M power_increasing [OF 2, of "2::nat"] by linarith
      moreover have "i = 0" "f = ?M AND mask 24"
        using 2 assms by (simp_all add: ftoa_parts_def Let_def mask_eq_exp_minus_1)
      ultimately show ?thesis using M by (simp add: unat_and_mask)
    qed
  qed
  then show "unat i = unat ?M div 2 ^ k" "unat f = unat ?M mod 2 ^ k" by blast+
qed

definition ten_thousandths :: "float \<Rightarrow> nat" where
  "ten_thousandths x = nat \<lfloor>\<bar>fp_real (decode32 x)\<bar> * 10 ^ 4\<rfloor>"

lemma nat_floor_ratio: "nat \<lfloor>real a / real b\<rfloor> = a div b"
  by (simp add: floor_divide_of_nat_eq)

lemma powi_23: "2 powi (- int k) = 1 / (2::real) ^ k"
  by (simp add: power_int_minus divide_inverse)

lemma ten_thousandths_small:
  assumes "ftoa_exp2 x = 23 - int k" "0 < k" "k \<le> 59"
  shows "ten_thousandths x = unat (ftoa_mantissa x) * 10 ^ 4 div 2 ^ k"
proof -
  define M where "M = unat (ftoa_mantissa x)"
  have "decode32 x = FFin (x <s 0) M (- int k)"
    using decode32_ftoa [of x] assms by (simp add: M_def)
  then have "\<bar>fp_real (decode32 x)\<bar> * 10 ^ 4 = real (M * 10 ^ 4) / real (2 ^ k)"
    by (simp add: powi_23)
  then show ?thesis unfolding ten_thousandths_def M_def [symmetric] by (simp only: nat_floor_ratio)
qed

lemma ten_thousandths_tiny:
  assumes "ftoa_exp2 x < - 36"
  shows "ten_thousandths x = 0"
proof -
  have "\<bar>fp_real (decode32 x)\<bar> * 10 ^ 4 < 1"
  proof (cases "ftoa_exp2 x = - 127")
    case True
    then obtain m where m: "m < 2 ^ 23" "decode32 x = FFin (x <s 0) m (- 149)"
      using decode32_tiny by blast
    then have "real m < 2 ^ 23" by (simp add: of_nat_less_iff flip: of_nat_power)
    then show ?thesis using m(2) by (simp add: power_int_minus divide_simps)
  next
    case False
    define k where "k = nat (- ftoa_exp2 x - 37)"
    have e: "ftoa_exp2 x - 23 = - 60 - int k" using assms by (simp add: k_def)
    define M where "M = unat (ftoa_mantissa x)"
    have "M < 2 ^ 24" using ftoa_mantissa [of x] by (simp add: M_def)
    then have "real M < 2 ^ 24" by (simp add: of_nat_less_iff flip: of_nat_power)
    moreover have "(2::real) powi (- 60 - int k) \<le> 2 powi (- 60)" by (intro power_int_increasing) auto
    ultimately have "real M * 2 powi (- 60 - int k) \<le> 2 ^ 24 * 2 powi (- 60)"
      by (intro mult_mono) auto
    then have "real M * 2 powi (- 60 - int k) * 10 ^ 4 \<le> 2 ^ 24 * 2 powi (- 60) * 10 ^ 4"
      by (intro mult_right_mono) auto
    moreover have "2 ^ 24 * 2 powi (- 60) * 10 ^ 4 < (1::real)" by (simp add: power_int_minus divide_simps)
    ultimately have "real M * 2 powi (- 60 - int k) * 10 ^ 4 < 1" by (rule le_less_trans)
    moreover have "decode32 x = FFin (x <s 0) M (- 60 - int k)"
      using decode32_ftoa [of x] False assms by (simp add: e M_def)
    ultimately show ?thesis by simp
  qed
  then show ?thesis unfolding ten_thousandths_def by (simp add: nat_eq_iff floor_eq_iff)
qed

lemma mult_div_split:
  assumes "0 < c"
  shows "M * c div (2::nat) ^ k div c = M div 2 ^ k"
    "M * c div 2 ^ k mod c = M mod 2 ^ k * c div 2 ^ k"
proof -
  show "M * c div 2 ^ k div c = M div 2 ^ k"
    using assms by (metis div_mult2_eq div_mult_mult1_if mult.commute not_less_zero)
  have "M * c = (M div 2 ^ k * 2 ^ k + M mod 2 ^ k) * c" by (simp only: div_mult_mod_eq)
  also have "\<dots> = M mod 2 ^ k * c + (M div 2 ^ k * c) * 2 ^ k" by (simp only: algebra_simps)
  finally have "M * c div 2 ^ k = M mod 2 ^ k * c div 2 ^ k + M div 2 ^ k * c" by simp
  moreover have "M mod 2 ^ k * c div 2 ^ k < c"
    using assms by (intro less_mult_imp_div_less) (simp add: mult.commute)
  ultimately show "M * c div 2 ^ k mod c = M mod 2 ^ k * c div 2 ^ k" by simp
qed

lemma decimal4_split: "decimal4 n = dec (n div 10 ^ 4) @ frac_text (pad 4 (n mod 10 ^ 4))"
  by (simp add: decimal4_def frac_text_def Let_def)

lemma decimal4_small:
  assumes "ftoa_exp2 x = 23 - int k" "0 < k" "k \<le> 59" "ftoa_parts x (mask k) = (i, f)"
  shows "decimal4 (ten_thousandths x) = dec (unat i) @ frac_text (fdigits 4 (unat f) k)"
proof -
  have "unat f < 2 ^ k" using ftoa_parts_small(2) [OF assms] by simp
  then show ?thesis
    unfolding decimal4_split ten_thousandths_small [OF assms(1-3)]
    by (simp only: fdigits_pad mult_div_split zero_less_power zero_less_numeral ftoa_parts_small [OF assms])
qed

text \<open>
  What is printed: the sign of the number and its magnitude, cut to four decimals. The numbers for
  which the program defines this are the finite ones below \<open>2^23\<close> in magnitude.
\<close>

definition ftoa_text :: "float \<Rightarrow> string" where
  "ftoa_text x = (case decode32 x of
     FFin s m e \<Rightarrow> (if s then ''-'' else []) @ decimal4 (ten_thousandths x)
   | _ \<Rightarrow> [])"

definition ftoa_range :: "float \<Rightarrow> bool" where
  "ftoa_range x \<longleftrightarrow> (case decode32 x of FFin s m e \<Rightarrow> \<bar>fp_real (FFin s m e)\<bar> < 2 ^ 23 | _ \<Rightarrow> False)"

lemma decode32_special: "ftoa_exp2 x = 128 \<Longrightarrow> \<not> (\<exists>s m e. decode32 x = FFin s m e)"
  unfolding ftoa_exp2 by (auto simp: decode32_def fp_decode_def Let_def fields32)

lemma ftoa_range_iff: "ftoa_range x \<longleftrightarrow> ftoa_exp2 x < 23"
proof -
  consider "ftoa_exp2 x = - 127" | "ftoa_exp2 x = 128" | "ftoa_exp2 x \<noteq> - 127" "ftoa_exp2 x \<noteq> 128" by blast
  then show ?thesis
  proof cases
    case 1
    then obtain m where m: "m < 2 ^ 23" "decode32 x = FFin (x <s 0) m (- 149)" using decode32_tiny by blast
    then have "real m < 2 ^ 23" by (simp add: of_nat_less_iff flip: of_nat_power)
    with m(2) 1 show ?thesis by (simp add: ftoa_range_def power_int_minus divide_simps)
  next
    case 2
    with decode32_special show ?thesis by (auto simp: ftoa_range_def split: fpnum.splits)
  next
    case 3
    define M where "M = unat (ftoa_mantissa x)"
    have M: "2 ^ 23 \<le> M" "M < 2 ^ 24" using ftoa_mantissa [of x] by (simp_all add: M_def)
    then have r: "2 ^ 23 \<le> real M" "real M < 2 ^ 24"
      by (simp_all add: of_nat_less_iff of_nat_le_iff flip: of_nat_power)
    have "real M * 2 powi (ftoa_exp2 x - 23) < 2 ^ 23 \<longleftrightarrow> ftoa_exp2 x < 23"
    proof (cases "ftoa_exp2 x < 23")
      case True
      then have "(2::real) powi (ftoa_exp2 x - 23) \<le> 2 powi (- 1)" by (intro power_int_increasing) auto
      then have "real M * 2 powi (ftoa_exp2 x - 23) \<le> real M * 2 powi (- 1)" by (intro mult_left_mono) auto
      with r(2) True show ?thesis by (simp add: power_int_minus)
    next
      case False
      then have "(2::real) powi 0 \<le> 2 powi (ftoa_exp2 x - 23)" by (intro power_int_increasing) auto
      then have "real M * 1 \<le> real M * 2 powi (ftoa_exp2 x - 23)" by (intro mult_left_mono) auto
      with r(1) have "2 ^ 23 \<le> real M * 2 powi (ftoa_exp2 x - 23)" by linarith
      with False show ?thesis by (simp only: not_less [symmetric] simp_thms)
    qed
    moreover have "decode32 x = FFin (x <s 0) M (ftoa_exp2 x - 23)" using decode32_ftoa [OF 3] by (simp add: M_def)
    ultimately show ?thesis by (simp add: ftoa_range_def abs_mult)
  qed
qed

lemma ftoa_text_eq:
  assumes "ftoa_exp2 x < 23"
  shows "ftoa_text x = (if x <s 0 then ''-'' else []) @ decimal4 (ten_thousandths x)"
  using assms decode32_tiny [of x] decode32_ftoa [of x] by (cases "ftoa_exp2 x = - 127") (auto simp: ftoa_text_def)

lemma pad_zero: "pad m 0 = replicate m (CHR ''0'')"
  by (induction m) (simp_all add: replicate_append_same)

lemma frac_text_0: "frac_text (pad 4 0) = []"
  by (simp add: frac_text_def strip_def pad_zero dropWhile_eq_Nil_conv)

text \<open>The middle part of the printing: everything between the sign and the terminator.\<close>

lemma ftoa_body:
  assumes k: "ftoa_exp2 x = 23 - int k" "0 < k" "k \<le> 59" and "15 \<le> length rest" "ftoa_parts x (mask k) = (i, f)"
  shows "\<exists>T tl. rbind (ftoa_int (pfx @ rest) (int (length pfx)) i) (\<lambda>(buf, p). ftoa_frac buf p f (int k - 24) (mask k))
      = Inr (pfx @ T @ tl, int (length pfx + length T)) \<and> length T + length tl = length rest \<and> length T \<le> 15
    \<and> T = decimal4 (ten_thousandths x)"
proof -
  let ?d = "dec (unat (ucast i :: u32))"
  have d: "length ?d \<le> 10" by (rule length_dec_u32)
  then have int: "ftoa_int (pfx @ rest) (int (length pfx)) i =
      Inr ((pfx @ ?d) @ drop (length ?d) rest, int (length (pfx @ ?d)))"
    using ftoa_int_dec [of i rest pfx] assms(4) by simp
  let ?f = "frac_text (fdigits 4 (unat f) k)"
  note parts = ftoa_parts_small [OF k assms(5)]
  have "unat i \<le> unat (ftoa_mantissa x)" by (simp add: parts(1))
  then have u: "unat (ucast i :: u32) = unat i"
    using ftoa_mantissa [of x] by (simp add: unsigned_ucast_eq take_bit_eq_mod)
  have room: "5 \<le> length (drop (length ?d) rest)" using d assms(4) by simp
  have "unat f < 2 ^ k" by (simp add: parts(2))
  then obtain tl where tl: "ftoa_frac ((pfx @ ?d) @ drop (length ?d) rest) (int (length (pfx @ ?d))) f (int k - 24) (mask k) =
      Inr ((pfx @ ?d) @ ?f @ tl, int (length (pfx @ ?d) + length ?f))" "length ?f + length tl = length (drop (length ?d) rest)"
    using ftoa_frac_text [OF _ k(2,3) room, of f "pfx @ ?d"] by blast
  have "length (strip (fdigits 4 (unat f) k)) \<le> 4"
    using length_dropWhile_le [of _ "rev (fdigits 4 (unat f) k)"] by (simp add: strip_def)
  then have "length ?f \<le> 5" by (simp add: frac_text_def)
  then show ?thesis
    using int tl d assms(4) decimal4_small [OF k assms(5)]
    by - (rule exI [of _ "?d @ ?f"], rule exI [of _ tl], simp add: u del: of_nat_add)
qed

lemma ftoa_writes:
  assumes "17 \<le> length rest" "ftoa_range x"
  shows "\<exists>tl. brubeck_ftoa (pfx @ rest) (int (length pfx)) x = Inr (pfx @ ftoa_text x @ NUL # tl, int (length (ftoa_text x)))
    \<and> length (ftoa_text x) + 1 + length tl = length rest \<and> length (ftoa_text x) \<le> 16"
proof -
  have e: "ftoa_exp2 x < 23" using assms(2) by (simp add: ftoa_range_iff)
  define sg where "sg = (if x <s 0 then ''-'' else [])"
  let ?r = "drop (length sg) rest"
  have s: "(if x <s 0 then rbind (wr (pfx @ rest) (int (length pfx)) (CHR ''-'')) (\<lambda>b. Inr (b, int (length pfx) + 1))
            else Inr (pfx @ rest, int (length pfx))) = Inr ((pfx @ sg) @ ?r, int (length (pfx @ sg)))"
    using assms(1) by (cases rest) (auto simp: wr_end sg_def)
  have sg: "length sg \<le> 1" by (simp add: sg_def)
  have r: "16 \<le> length ?r" using assms(1) by (auto simp: sg_def)
  have ft: "ftoa_text x = sg @ decimal4 (ten_thousandths x)" by (simp add: ftoa_text_eq [OF e] sg_def)
  obtain T tl where T: "(if ftoa_exp2 x < - 36
       then rbind (wr ((pfx @ sg) @ ?r) (int (length (pfx @ sg))) (CHR ''0'')) (\<lambda>b. Inr (b, int (length (pfx @ sg)) + 1))
       else let safe_shift = - (ftoa_exp2 x + 1) in
         rbind (ftoa_mask safe_shift) (\<lambda>safe_mask. let (int_part, frac_part) = ftoa_parts x safe_mask in
         rbind (ftoa_int ((pfx @ sg) @ ?r) (int (length (pfx @ sg))) int_part) (\<lambda>(buf, p). ftoa_frac buf p frac_part safe_shift safe_mask)))
     = Inr ((pfx @ sg) @ T @ tl, int (length (pfx @ sg) + length T))"
    "length T + length tl = length ?r" "length T \<le> 15" "ftoa_text x = sg @ T"
  proof (cases "ftoa_exp2 x < - 36")
    case True
    then have "ftoa_text x = sg @ ''0''"
      by (simp add: ft ten_thousandths_tiny decimal4_split frac_text_0)
    moreover obtain c cs where "?r = c # cs" using r by (cases ?r) auto
    moreover have "wr ((pfx @ sg) @ c # cs) (int (length (pfx @ sg))) (CHR ''0'') = Inr ((pfx @ sg) @ CHR ''0'' # cs)"
      by (rule wr_end)
    ultimately show ?thesis using True that [of "''0''" cs] by simp
  next
    case False
    define k where "k = nat (23 - ftoa_exp2 x)"
    have k: "ftoa_exp2 x = 23 - int k" "0 < k" "k \<le> 59" "- (ftoa_exp2 x + 1) = int k - 24"
      using False e by (simp_all add: k_def)
    obtain i f where p: "ftoa_parts x (mask k) = (i, f)" by force
    from ftoa_body [OF k(1-3) _ p, of ?r "pfx @ sg"] r obtain T tl where
      "rbind (ftoa_int ((pfx @ sg) @ ?r) (int (length (pfx @ sg))) i) (\<lambda>(buf, p). ftoa_frac buf p f (int k - 24) (mask k))
         = Inr ((pfx @ sg) @ T @ tl, int (length (pfx @ sg) + length T))"
      "length T + length tl = length ?r" "length T \<le> 15" "T = decimal4 (ten_thousandths x)" by auto
    then show ?thesis
      using False by (intro that [of T tl]) (simp_all only: if_False Let_def k(4) ftoa_mask_eq [OF k(2,3)] rbind_simps p prod.case ft)
  qed
  obtain c cs where "tl = c # cs" using T(2,3) r by (cases tl) auto
  then show ?thesis
    unfolding brubeck_ftoa_def s rbind_simps prod.case T(1)
    using T(2-4) wr_end [of "(pfx @ sg) @ T" c cs NUL] assms(1) sg by (simp add: add.assoc)
qed

lemma ftoa_undefined:
  assumes "rest \<noteq> []" "\<not> ftoa_range x"
  shows "brubeck_ftoa (pfx @ rest) (int (length pfx)) x = Inl BadShift"
proof -
  have e: "\<not> ftoa_exp2 x < 23" using assms(2) by (simp add: ftoa_range_iff)
  obtain c cs where "rest = c # cs" using assms(1) by (cases rest) auto
  with e show ?thesis by (simp add: brubeck_ftoa_def wr_end ftoa_mask_def Let_def)
qed

section \<open>String search\<close>

lemma starts_with_prefix:
  "NUL \<notin> set str \<Longrightarrow> NUL \<notin> set pre \<Longrightarrow> starts_with (str @ NUL # r) (pre @ NUL # r') = Inr (prefix pre str)"
proof (induction pre arbitrary: str)
  case (Cons q pre)
  then show ?case by (cases str) auto
qed simp

lemma strncmp_prefix:
  "NUL \<notin> set s \<Longrightarrow> NUL \<notin> set t \<Longrightarrow> strncmp_eq (s @ NUL # r) (t @ r') (length t) = Inr (prefix t s)"
proof (induction t arbitrary: s)
  case (Cons d t)
  then show ?case by (cases s) auto
qed simp

text \<open>Where a text first occurs in another.\<close>

fun first_occ :: "string \<Rightarrow> string \<Rightarrow> nat option" where
  "first_occ pat [] = (if pat = [] then Some 0 else None)"
| "first_occ pat (c # s) = (if prefix pat (c # s) then Some 0 else map_option Suc (first_occ pat s))"

lemma first_occ_least:
  "first_occ pat s = Some i \<longleftrightarrow> i \<le> length s \<and> prefix pat (drop i s) \<and> (\<forall>j<i. \<not> prefix pat (drop j s))"
proof (induction s arbitrary: i)
  case (Cons c s)
  then show ?case by (cases i) (auto simp: less_Suc_eq_0_disj)
qed auto

lemma first_occ_short: "length s < length pat \<Longrightarrow> first_occ pat s = None"
  by (induction s) (auto dest: prefix_length_le)

lemma cstr_terminated: "NUL \<notin> set s \<Longrightarrow> cstr (s @ NUL # r) = s"
  unfolding cstr_def by (subst takeWhile_append2) auto

lemma find_loop_first:
  assumes "NUL \<notin> set a" "NUL \<notin> set f"
  shows "find_loop (a @ NUL # r) c (f @ NUL # r') (length f) slen =
    Inr (map_option (\<lambda>i. drop i (a @ NUL # r)) (first_occ (c # f) (take slen a)))"
  using assms(1)
proof (induction a arbitrary: slen)
  case (Cons b a)
  show ?case
  proof (cases slen)
    case (Suc n)
    show ?thesis
    proof (cases "b = c \<and> length f > n")
      case True
      then have "first_occ (c # f) (take slen (b # a)) = None" using Suc by (intro first_occ_short) auto
      with True Cons.prems Suc show ?thesis by auto
    next
      case False
      have "strncmp_eq (a @ NUL # r) (f @ NUL # r') (length f) = Inr (prefix f a)"
        using strncmp_prefix [of a f] Cons.prems assms(2) by simp
      moreover have "length f \<le> n \<Longrightarrow> prefix f (take n a) = prefix f a"
        by (metis prefix_def prefix_length_le prefix_order.trans take_is_prefix append_eq_conv_conj take_take min.absorb1)
      ultimately show ?thesis
        using False Cons Suc by (auto simp: option.map_comp o_def)
    qed
  qed (use Cons.prems in auto)
qed simp

section \<open>Properties\<close>

lemma decimal4_155: "decimal4 155000 = ''15.5''"
proof -
  have s: "(4::nat) = Suc (Suc (Suc (Suc 0)))" by simp
  have d: "digit 5 = CHR ''5''" "digit 1 = CHR ''1''" by code_simp+
  then have "dec 15 = ''15''" by (simp add: dec.simps)
  moreover have "pad 4 5000 = ''5000''" unfolding s using d by simp
  ultimately show ?thesis by (simp add: decimal4_def strip_def)
qed

text \<open>
  C35. Given 17 free cells, \<^verbatim>\<open>brubeck_ftoa\<close> writes inside the buffer, terminates its output, and the
  text of every number below \<open>2^23\<close> in magnitude is its sign followed by its value truncated to
  four decimals, without trailing zeros. From \<open>2^23\<close> on, and for infinities and NaNs, the function
  shifts a 64-bit word by more than 63 places, which is undefined.
\<close>

theorem ftoa_correct:
  assumes "17 \<le> length rest"
  shows "case decode32 x of
      FFin s m e \<Rightarrow>
        if \<bar>fp_real (FFin s m e)\<bar> < 2 ^ 23
        then let t = (if s then ''-'' else []) @ decimal4 (nat \<lfloor>\<bar>fp_real (FFin s m e)\<bar> * 10 ^ 4\<rfloor>) in
             \<exists>tl. brubeck_ftoa (pfx @ rest) (int (length pfx)) x = Inr (pfx @ t @ NUL # tl, int (length t))
        else brubeck_ftoa (pfx @ rest) (int (length pfx)) x = Inl BadShift
    | _ \<Rightarrow> brubeck_ftoa (pfx @ rest) (int (length pfx)) x = Inl BadShift"
proof -
  have "rest \<noteq> []" using assms by auto
  note u = ftoa_undefined [OF this, of x pfx] and w = ftoa_writes [OF assms, of x pfx]
  show ?thesis
  proof (cases "decode32 x")
    case (FFin s m e)
    define t where "t = (if s then ''-'' else []) @ decimal4 (nat \<lfloor>\<bar>fp_real (FFin s m e)\<bar> * 10 ^ 4\<rfloor>)"
    have "ftoa_range x \<longleftrightarrow> \<bar>fp_real (FFin s m e)\<bar> < 2 ^ 23" "ftoa_text x = t"
      by (simp_all add: FFin ftoa_range_def ftoa_text_def ten_thousandths_def t_def)
    with u w show ?thesis
      unfolding FFin fpnum.case t_def [symmetric] Let_def by (cases "\<bar>fp_real (FFin s m e)\<bar> < 2 ^ 23") (simp_all only: if_True if_False not_False_eq_True simp_thms, blast)
  qed (use u in \<open>simp_all add: ftoa_range_def\<close>)
qed

theorem ftoa_correct_witness:
  "(\<exists>tl. brubeck_ftoa (''x'' @ replicate 17 NUL) 1 0xC1780000 = Inr (''x'' @ ''-15.5'' @ NUL # tl, 5))
   \<and> brubeck_ftoa (''x'' @ replicate 17 NUL) 1 0x4B000000 = Inl BadShift"
proof -
  have d: "decode32 0xC1780000 = FFin True 16252928 (- 20)" "decode32 0x4B000000 = FFin False 8388608 0" by (simp_all add: fp_eval)
  have r: "\<bar>fp_real (FFin True 16252928 (- 20))\<bar> = 31 / 2" by (simp add: power_int_minus)
  have r2: "\<not> \<bar>fp_real (FFin False 8388608 0)\<bar> < 2 ^ 23" by simp
  have f: "nat \<lfloor>31 / 2 * 10 ^ 4 :: real\<rfloor> = 155000" by simp
  have l: "17 \<le> length (replicate 17 NUL)" "int (length ''x'') = 1" "int (length ''-15.5'') = 5" "(31 / 2 :: real) < 2 ^ 23" by simp_all
  show ?thesis
    using ftoa_correct [OF l(1), where x = "0xC1780000" and pfx = "''x''"] ftoa_correct [OF l(1), where x = "0x4B000000" and pfx = "''x''"]
    unfolding d fpnum.case r f decimal4_155 l(2) Let_def by (simp only: l(3,4) r2 if_True if_False append.simps simp_thms)
qed

text \<open>
  C39. \<^verbatim>\<open>find_substr\<close> returns the first place where \<^verbatim>\<open>find\<close> occurs within the first \<^verbatim>\<open>slen\<close> bytes of the
  string, or NULL when there is none, and reads no byte behind the terminators.
\<close>

theorem find_substr_first:
  assumes "NUL \<notin> set a" "NUL \<notin> set pat"
  shows "find_substr (a @ NUL # r) (pat @ NUL # r') slen =
    Inr (map_option (\<lambda>i. drop i (a @ NUL # r)) (first_occ pat (take slen a)))"
proof (cases pat)
  case Nil
  then show ?thesis by (cases "take slen a") (auto simp: find_substr_def)
next
  case (Cons c f)
  with find_loop_first [of a f r c r' slen] assms show ?thesis
    by (auto simp: find_substr_def cstr_terminated)
qed

theorem find_substr_first_witness:
  "find_substr (''hello'' @ NUL # []) (''lo'' @ NUL # []) 5 = Inr (Some (''lo'' @ [NUL]))
   \<and> find_substr (''hello'' @ NUL # []) (''lo'' @ NUL # []) 4 = Inr None"
  using find_substr_first [of "''hello''" "''lo''" "[]" "[]" 5] find_substr_first [of "''hello''" "''lo''" "[]" "[]" 4]
  by simp

end
