(* ===== verification/Net.thy ===== *)
theory Net
  imports Prelude "HOL-Library.Sublist"
begin

text \<open>
  The socket helpers of \<^verbatim>\<open>src/utils.c\<close> and \<^verbatim>\<open>src/utils.h\<close>: \<^verbatim>\<open>xwrite\<close> and \<^verbatim>\<open>write_in_full\<close> over a kernel
  that may interrupt a write or accept a part of it, the socket options, and the resolution of an
  address by \<^verbatim>\<open>url_to_inaddr2\<close>.
\<close>

section \<open>Writing to a socket\<close>

text \<open>
  One answer of the kernel to \<^verbatim>\<open>write(2)\<close>: some bytes are accepted (never more than offered),
  the call is to be repeated (\<^verbatim>\<open>EAGAIN\<close>, \<^verbatim>\<open>EINTR\<close>), or it fails with another error. A script of
  answers stands for the behaviour of the kernel; a thread that has used up its script is still
  inside \<^verbatim>\<open>write\<close>, which is the result \<open>None\<close>.
\<close>

datatype sys_write = Accept nat | Again | Fail

text \<open>\<^verbatim>\<open>xwrite\<close>: the returned \<^verbatim>\<open>ssize_t\<close> and the rest of the script.\<close>

fun xwrite :: "sys_write list \<Rightarrow> nat \<Rightarrow> (int \<times> sys_write list) option" where
  "xwrite [] len = None"
| "xwrite (Accept n # ks) len = Some (int (min n len), ks)"
| "xwrite (Again # ks) len = xwrite ks len"
| "xwrite (Fail # ks) len = Some (- 1, ks)"

lemma xwrite_shrinks: "xwrite ks len = Some (r, ks') \<Longrightarrow> length ks' < length ks"
  by (induction ks len rule: xwrite.induct) auto

text \<open>
  \<^verbatim>\<open>write_in_full\<close>: the result and the bytes the kernel has taken. \<open>tot\<close> is the running sum of
  the function, \<open>p\<close> the bytes still to be written.
\<close>

function write_loop :: "sys_write list \<Rightarrow> string \<Rightarrow> int \<Rightarrow> (int \<times> string \<times> sys_write list) option" where
  "write_loop ks p tot =
     (if length p > 0 then
        (case xwrite ks (length p) of
           None \<Rightarrow> None
         | Some (written, ks') \<Rightarrow>
             if written < 0 then Some (- 1, [], ks')
             else if written = 0 then Some (- 1, [], ks')
             else map_option (\<lambda>(r, sent, ks'). (r, take (nat written) p @ sent, ks'))
                    (write_loop ks' (drop (nat written) p) (tot + written)))
      else Some (tot, [], ks))"
  by pat_completeness auto
termination by (relation "measure (\<lambda>(ks, _, _). length ks)") (auto simp: xwrite_shrinks)

definition write_in_full :: "sys_write list \<Rightarrow> string \<Rightarrow> (int \<times> string \<times> sys_write list) option" where
  "write_in_full ks buf = write_loop ks buf 0"

declare write_loop.simps [simp del]

lemma xwrite_range: "xwrite ks len = Some (r, ks') \<Longrightarrow> - 1 \<le> r \<and> r \<le> int len"
  by (induction ks len rule: xwrite.induct) auto

lemma write_loop_sent:
  "write_loop ks p tot = Some (r, sent, ks') \<Longrightarrow>
     prefix sent p \<and> (r = tot + int (length p) \<and> sent = p \<or> r = - 1 \<and> sent \<noteq> p)"
proof (induction ks p tot arbitrary: r sent ks' rule: write_loop.induct)
  case (1 ks p tot)
  show ?case
  proof (cases "p = []")
    case True
    then show ?thesis using 1(2) by (simp add: write_loop.simps [of ks])
  next
    case False
    then obtain w ks1 where x: "xwrite ks (length p) = Some (w, ks1)"
      using 1(2) by (auto simp: write_loop.simps [of ks] split: option.splits)
    show ?thesis
    proof (cases "w \<le> 0")
      case True
      then show ?thesis using 1(2) x False by (auto simp: write_loop.simps [of ks] split: if_splits)
    next
      case w: False
      then obtain s where s: "write_loop ks1 (drop (nat w) p) (tot + w) = Some (r, s, ks')"
        "sent = take (nat w) p @ s"
        using 1(2) x False by (auto simp: write_loop.simps [of ks])
      have "prefix s (drop (nat w) p) \<and> (r = tot + w + int (length (drop (nat w) p)) \<and> s = drop (nat w) p
          \<or> r = - 1 \<and> s \<noteq> drop (nat w) p)"
        using 1(1) [OF _ x refl _ _ s(1)] False w by simp
      moreover have "w \<le> int (length p)" using xwrite_range [OF x] by simp
      moreover have "prefix (take (nat w) p @ s) p \<longleftrightarrow> prefix s (drop (nat w) p)"
        by (metis append_take_drop_id same_prefix_prefix)
      moreover have "take (nat w) p @ s = p \<longleftrightarrow> s = drop (nat w) p"
        by (metis append_take_drop_id same_append_eq)
      ultimately show ?thesis using s(2) w by (auto simp: of_nat_diff)
    qed
  qed
qed

text \<open>The bytes a script of answers offers to take, as long as none of them is an error.\<close>

fun willing :: "sys_write list \<Rightarrow> bool" where
  "willing [] = True"
| "willing (Accept n # ks) = (0 < n \<and> willing ks)"
| "willing (Again # ks) = willing ks"
| "willing (Fail # ks) = False"

fun accepts :: "sys_write list \<Rightarrow> nat" where
  "accepts [] = 0"
| "accepts (Accept n # ks) = Suc (accepts ks)"
| "accepts (Again # ks) = accepts ks"
| "accepts (Fail # ks) = 0"

lemma xwrite_willing:
  assumes "willing ks" "0 < accepts ks" "0 < len"
  obtains w ks' where "xwrite ks len = Some (w, ks')" "0 < w" "willing ks'" "accepts ks = Suc (accepts ks')"
  using assms by (induction ks len rule: xwrite.induct) auto

lemma write_loop_total:
  "willing ks \<Longrightarrow> length p \<le> accepts ks \<Longrightarrow> \<exists>ks'. write_loop ks p tot = Some (tot + int (length p), p, ks')"
proof (induction "length p" arbitrary: ks p tot rule: less_induct)
  case less
  show ?case
  proof (cases "p = []")
    case True
    then show ?thesis by (simp add: write_loop.simps [of ks])
  next
    case False
    then obtain w ks1 where x: "xwrite ks (length p) = Some (w, ks1)" "0 < w" "willing ks1"
      "accepts ks = Suc (accepts ks1)"
      using xwrite_willing [of ks "length p"] less.prems
      by (metis Suc_le_eq length_greater_0_conv less_le_trans)
    have w: "w \<le> int (length p)" using xwrite_range [OF x(1)] by simp
    have "\<exists>ks'. write_loop ks1 (drop (nat w) p) (tot + w)
        = Some (tot + w + int (length (drop (nat w) p)), drop (nat w) p, ks')"
      by (rule less.hyps) (use x less.prems False in auto)
    with x w False show ?thesis by (auto simp: write_loop.simps [of ks] of_nat_diff)
  qed
qed

section \<open>Addresses\<close>

text \<open>
  The resolver \<^verbatim>\<open>getaddrinfo\<close> is a parameter: \<open>None\<close> for a failure, otherwise the list of its
  answers, each with its family, the length of its address and the address.
\<close>

abbreviation AF_INET :: nat where
  "AF_INET \<equiv> 2"

record sockaddr_in =
  sin_family :: nat
  sin_port :: u16
  sin_addr :: u32

record addrinfo =
  ai_family :: nat
  ai_addrlen :: nat
  ai_addr :: sockaddr_in

definition htons :: "int \<Rightarrow> u16" where
  "htons port = (let p = word_of_int port :: u16 in push_bit 8 p OR drop_bit 8 p)"

abbreviation sizeof_sockaddr_in :: nat where
  "sizeof_sockaddr_in \<equiv> 16"

text \<open>The search runs over \<open>rp\<close> but looks at the first answer, \<open>result\<close>, every time.\<close>

fun search_inet :: "addrinfo \<Rightarrow> addrinfo list \<Rightarrow> addrinfo option" where
  "search_inet result [] = None"
| "search_inet result (rp # rest) =
     (if ai_family result = AF_INET \<and> ai_addrlen result = sizeof_sockaddr_in then Some rp
      else search_inet result rest)"

definition url_to_inaddr2 :: "(string \<Rightarrow> addrinfo list option) \<Rightarrow> string option \<Rightarrow> int \<Rightarrow> sockaddr_in res" where
  "url_to_inaddr2 getaddrinfo url port =
     (case url of
        Some u \<Rightarrow>
          (case getaddrinfo u of
             None \<Rightarrow> Inl (Die ''failed to resolve address'')
           | Some [] \<Rightarrow> Inl (Die ''address format not supported'')
           | Some (r # rs) \<Rightarrow>
               (case search_inet r (r # rs) of
                  None \<Rightarrow> Inl (Die ''address format not supported'')
                | Some rp \<Rightarrow> Inr ((ai_addr rp)\<lparr>sin_port := htons port\<rparr>)))
      | None \<Rightarrow> Inr \<lparr>sin_family = AF_INET, sin_port = htons port, sin_addr = 0\<rparr>)"

lemma search_inet_first: "search_inet r (q # qs) =
    (if ai_family r = AF_INET \<and> ai_addrlen r = sizeof_sockaddr_in then Some q else None)"
proof -
  have "search_inet r qs = None"
    if "\<not> (ai_family r = AF_INET \<and> ai_addrlen r = sizeof_sockaddr_in)" for qs
    by (induction qs) (use that in auto)
  then show ?thesis by auto
qed

section \<open>Socket options\<close>

text \<open>
  The kernel's side of a socket: the descriptor \<^verbatim>\<open>socket(2)\<close> returns, whether setting an option
  succeeds, and whether an address can be bound.
\<close>

datatype sock_option = SetNonblock | SetReuseAddr int | SetRcvBuf int | SetSndBuf int | SetReusePort int

record sock_kernel =
  k_socket :: int
  k_setopt :: "int \<Rightarrow> sock_option \<Rightarrow> bool"
  k_bind :: "int \<Rightarrow> sockaddr_in \<Rightarrow> bool"

abbreviation LARGE_SOCK_SIZE :: int where
  "LARGE_SOCK_SIZE \<equiv> 33554431"

definition sock_setnonblock :: "sock_kernel \<Rightarrow> int \<Rightarrow> unit res" where
  "sock_setnonblock k fd = (if k_setopt k fd SetNonblock then Inr () else Inl (Die ''Failed to set O_NONBLOCK''))"

definition sock_setreuse :: "sock_kernel \<Rightarrow> int \<Rightarrow> int \<Rightarrow> unit res" where
  "sock_setreuse k fd reuse = (if k_setopt k fd (SetReuseAddr reuse) then Inr () else Inl (Die ''Failed to set SO_REUSEADDR''))"

definition sock_enlarge_in :: "sock_kernel \<Rightarrow> int \<Rightarrow> unit res" where
  "sock_enlarge_in k fd = (if k_setopt k fd (SetRcvBuf LARGE_SOCK_SIZE) then Inr () else Inl (Die ''Failed to set SO_RCVBUF''))"

definition sock_enlarge_out :: "sock_kernel \<Rightarrow> int \<Rightarrow> unit res" where
  "sock_enlarge_out k fd = (if k_setopt k fd (SetSndBuf LARGE_SOCK_SIZE) then Inr () else Inl (Die ''Failed to set SO_SNDBUF''))"

definition sock_setreuse_port :: "sock_kernel \<Rightarrow> int \<Rightarrow> int \<Rightarrow> unit res" where
  "sock_setreuse_port k fd reuse = (if k_setopt k fd (SetReusePort reuse) then Inr () else Inl (Die ''failed to set SO_REUSEPORT''))"

section \<open>Properties\<close>

text \<open>
  A call of \<^verbatim>\<open>write_in_full\<close> that returns has sent a prefix of the buffer, and it returns the
  length of the buffer if this prefix is everything and \<open>-1\<close> if it is not.
\<close>

theorem write_in_full_sent:
  assumes "write_in_full ks buf = Some (r, sent, ks')"
  shows "prefix sent buf \<and> (r = int (length buf) \<and> sent = buf \<or> r = - 1 \<and> sent \<noteq> buf)"
  using write_loop_sent [OF assms [unfolded write_in_full_def]] by simp

theorem write_in_full_sent_witness:
  "write_in_full [Accept 2, Again, Accept 0] ''abc'' = Some (- 1, ''ab'', []) \<and> prefix ''ab'' ''abc''"
proof -
  have "write_in_full [Accept 2, Again, Accept 0] ''abc'' = Some (- 1, ''ab'', [])"
    by (simp add: write_in_full_def write_loop.simps)
  with write_in_full_sent [OF this] show ?thesis by simp
qed

text \<open>
  C38. If the kernel goes on taking at least one byte per write, with any number of interruptions
  in between, \<^verbatim>\<open>write_in_full\<close> returns and has sent the whole buffer.
\<close>

theorem write_in_full_complete:
  assumes "willing ks" "length buf \<le> accepts ks"
  shows "\<exists>ks'. write_in_full ks buf = Some (int (length buf), buf, ks')"
  using write_loop_total [OF assms, of 0] by (simp add: write_in_full_def)

theorem write_in_full_complete_witness:
  "\<exists>ks'. write_in_full [Again, Accept 2, Again, Accept 1, Accept 7] ''abc'' = Some (3, ''abc'', ks')"
  using write_in_full_complete [of "[Again, Accept 2, Again, Accept 1, Accept 7]" "''abc''"] by simp

text \<open>
  The search for an IPv4 address looks at the first answer of the resolver only: its address
  is taken when it is IPv4, and otherwise the daemon dies although a later answer may be IPv4.
\<close>

theorem url_to_inaddr2_first:
  assumes "getaddrinfo u = Some (r # rs)"
  shows "url_to_inaddr2 getaddrinfo (Some u) port =
    (if ai_family r = AF_INET \<and> ai_addrlen r = sizeof_sockaddr_in
     then Inr ((ai_addr r)\<lparr>sin_port := htons port\<rparr>) else Inl (Die ''address format not supported''))"
  using assms by (simp add: url_to_inaddr2_def search_inet_first del: search_inet.simps)

theorem url_to_inaddr2_first_witness:
  "let a = \<lparr>sin_family = AF_INET, sin_port = 0, sin_addr = 0x7f000001\<rparr> in
   url_to_inaddr2 (\<lambda>u. Some [\<lparr>ai_family = 10, ai_addrlen = 28, ai_addr = a\<rparr>,
      \<lparr>ai_family = AF_INET, ai_addrlen = 16, ai_addr = a\<rparr>]) (Some ''localhost'') 8126
     = Inl (Die ''address format not supported'')"
  unfolding Let_def by (subst url_to_inaddr2_first [OF refl]) simp

end
