(* ===== verification/Hashtable.thy ===== *)
theory Hashtable
  imports Prelude
begin

text \<open>
  The table of metrics (\<^verbatim>\<open>src/ht.c\<close>, \<^verbatim>\<open>src/ht.h\<close>), a wrapper around the hash table of Concurrency
  Kit. The library is not part of the sources: its operations are the parameter \<open>ck\<close>, and the
  locale \<open>ck_table\<close> states what its documentation promises of them. The operations of
  \<^verbatim>\<open>ht.c\<close> are defined over \<open>ck\<close>; the locale \<open>hashtable\<close> is the contract the rest of the daemon
  relies on.
\<close>

section \<open>Model\<close>

text \<open>
  The calls of the library that \<^verbatim>\<open>ht.c\<close> makes, in byte-string mode: initialisation with a size
  (which may fail), lookup, insertion (which refuses a key that is present), the number of
  entries, and the entries in the order of an iteration.
\<close>

record ('h, 'v) ck_ht =
  ck_init :: "u64 \<Rightarrow> 'h option"
  ck_get :: "'h \<Rightarrow> string \<Rightarrow> 'v option"
  ck_put :: "'h \<Rightarrow> string \<Rightarrow> 'v \<Rightarrow> 'h \<times> bool"
  ck_count :: "'h \<Rightarrow> nat"
  ck_entries :: "'h \<Rightarrow> (string \<times> 'v) list"

text \<open>
  Keys are passed as a pointer and a length of 16 bits. The write lock makes every operation that
  takes it one step.
\<close>

definition brubeck_hashtable_new :: "('h, 'v) ck_ht \<Rightarrow> u64 \<Rightarrow> 'h option" where
  "brubeck_hashtable_new ck sz = ck_init ck sz"

definition brubeck_hashtable_find :: "('h, 'v) ck_ht \<Rightarrow> 'h \<Rightarrow> string \<Rightarrow> u16 \<Rightarrow> 'v option" where
  "brubeck_hashtable_find ck ht key key_len = ck_get ck ht (take (unat key_len) key)"

definition brubeck_hashtable_insert :: "('h, 'v) ck_ht \<Rightarrow> 'h \<Rightarrow> string \<Rightarrow> u16 \<Rightarrow> 'v \<Rightarrow> 'h \<times> bool" where
  "brubeck_hashtable_insert ck ht key key_len val = ck_put ck ht (take (unat key_len) key) val"

definition brubeck_hashtable_size :: "('h, 'v) ck_ht \<Rightarrow> 'h \<Rightarrow> nat" where
  "brubeck_hashtable_size ck ht = ck_count ck ht"

text \<open>The callback is a step of the state \<open>'s\<close> for each value, in the order of the iteration.\<close>

definition brubeck_hashtable_foreach :: "('h, 'v) ck_ht \<Rightarrow> 'h \<Rightarrow> ('v \<Rightarrow> 's \<Rightarrow> 's) \<Rightarrow> 's \<Rightarrow> 's" where
  "brubeck_hashtable_foreach ck ht callback payload = fold callback (map snd (ck_entries ck ht)) payload"

text \<open>
  The array of \<^verbatim>\<open>to_a\<close> has one cell per entry counted before the iteration; a further entry would
  be written behind it.
\<close>

fun fill_array :: "'v option list \<Rightarrow> nat \<Rightarrow> 'v list \<Rightarrow> 'v option list res" where
  "fill_array array i [] = Inr array"
| "fill_array array i (v # vs) =
     rbind (wr array (int i) (Some v)) (\<lambda>array. fill_array array (Suc i) vs)"

definition brubeck_hashtable_to_a :: "('h, 'v) ck_ht \<Rightarrow> 'h \<Rightarrow> ('v option list \<times> nat) res" where
  "brubeck_hashtable_to_a ck ht =
     (let len = ck_count ck ht in
      rbind (fill_array (replicate len None) 0 (map snd (ck_entries ck ht))) (\<lambda>array. Inr (array, len)))"

section \<open>Contracts\<close>

text \<open>What Concurrency Kit documents, for tables that satisfy \<open>tinv\<close>.\<close>

locale ck_table =
  fixes ck :: "('h, 'v) ck_ht"
    and tinv :: "'h \<Rightarrow> bool"
  assumes init_tinv: "ck_init ck sz = Some h \<Longrightarrow> tinv h"
    and init_empty: "ck_init ck sz = Some h \<Longrightarrow> ck_entries ck h = []"
    and put_tinv: "tinv h \<Longrightarrow> tinv (fst (ck_put ck h k v))"
    and entries_distinct: "tinv h \<Longrightarrow> distinct (map fst (ck_entries ck h))"
    and get_entries: "tinv h \<Longrightarrow> ck_get ck h k = map_of (ck_entries ck h) k"
    and count_entries: "tinv h \<Longrightarrow> ck_count ck h = length (ck_entries ck h)"
    and put_absent: "tinv h \<Longrightarrow> ck_get ck h k = None \<Longrightarrow> snd (ck_put ck h k v)
          \<and> set (ck_entries ck (fst (ck_put ck h k v))) = insert (k, v) (set (ck_entries ck h))"
    and put_present: "tinv h \<Longrightarrow> ck_get ck h k \<noteq> None \<Longrightarrow> \<not> snd (ck_put ck h k v)
          \<and> set (ck_entries ck (fst (ck_put ck h k v))) = set (ck_entries ck h)"

text \<open>The keys a length of 16 bits can describe.\<close>

definition short_key :: "string \<Rightarrow> bool" where
  "short_key k \<longleftrightarrow> length k < 2 ^ 16"

text \<open>What the daemon relies on: a finite map from short keys, written once per key.\<close>

locale hashtable =
  fixes find_key :: "'h \<Rightarrow> string \<Rightarrow> 'v option"
    and insert_key :: "'h \<Rightarrow> string \<Rightarrow> 'v \<Rightarrow> 'h \<times> bool"
    and values_of :: "'h \<Rightarrow> 'v list"
    and hinv :: "'h \<Rightarrow> bool"
  assumes insert_hinv: "hinv h \<Longrightarrow> hinv (fst (insert_key h k v))"
    and insert_ok_iff: "hinv h \<Longrightarrow> short_key k \<Longrightarrow> snd (insert_key h k v) \<longleftrightarrow> find_key h k = None"
    and find_insert: "hinv h \<Longrightarrow> short_key k \<Longrightarrow> short_key j \<Longrightarrow> find_key (fst (insert_key h k v)) j =
          (if j = k \<and> find_key h k = None then Some v else find_key h j)"
    and find_values: "hinv h \<Longrightarrow> short_key k \<Longrightarrow> find_key h k = Some v \<Longrightarrow> v \<in> set (values_of h)"
begin

text \<open>After an insertion, successful or not, the key is present and the old bindings are kept.\<close>

lemma find_after_insert: "hinv h \<Longrightarrow> short_key k \<Longrightarrow> \<exists>w. find_key (fst (insert_key h k v)) k = Some w"
  by (simp add: find_insert)

lemma find_mono:
  "hinv h \<Longrightarrow> short_key k \<Longrightarrow> short_key j \<Longrightarrow> find_key h j = Some w \<Longrightarrow>
   find_key (fst (insert_key h k v)) j = Some w"
  by (auto simp: find_insert)

lemma insert_twice: "hinv h \<Longrightarrow> short_key k \<Longrightarrow> \<not> snd (insert_key (fst (insert_key h k v)) k w)"
  using find_after_insert by (auto simp: insert_hinv insert_ok_iff)

text \<open>Any sequence of insertions keeps the first value of each key.\<close>

definition inserts :: "(string \<times> 'v) list \<Rightarrow> 'h \<Rightarrow> 'h" where
  "inserts kvs h = fold (\<lambda>(k, v) h. fst (insert_key h k v)) kvs h"

lemma inserts_hinv: "hinv h \<Longrightarrow> hinv (inserts kvs h)"
  by (induction kvs arbitrary: h) (auto simp: inserts_def insert_hinv)

lemma find_inserts:
  "hinv h \<Longrightarrow> short_key k \<Longrightarrow> \<forall>kv\<in>set kvs. short_key (fst kv) \<Longrightarrow>
   find_key (inserts kvs h) k = (case find_key h k of Some w \<Rightarrow> Some w | None \<Rightarrow> map_of kvs k)"
proof (induction kvs arbitrary: h)
  case (Cons kv kvs)
  obtain j v where kv: "kv = (j, v)" by force
  have "find_key (inserts (kv # kvs) h) k = find_key (inserts kvs (fst (insert_key h j v))) k"
    by (simp add: inserts_def kv)
  also have "\<dots> = (case find_key (fst (insert_key h j v)) k of Some w \<Rightarrow> Some w | None \<Rightarrow> map_of kvs k)"
    using Cons insert_hinv by simp
  finally show ?case using Cons.prems by (auto simp: find_insert kv split: option.splits)
qed (simp add: inserts_def split: option.splits)

end

text \<open>The operations on keys given as strings.\<close>

definition find_str :: "('h, 'v) ck_ht \<Rightarrow> 'h \<Rightarrow> string \<Rightarrow> 'v option" where
  "find_str ck h k = brubeck_hashtable_find ck h k (word_of_nat (length k))"

definition insert_str :: "('h, 'v) ck_ht \<Rightarrow> 'h \<Rightarrow> string \<Rightarrow> 'v \<Rightarrow> 'h \<times> bool" where
  "insert_str ck h k v = brubeck_hashtable_insert ck h k (word_of_nat (length k)) v"

definition table_values :: "('h, 'v) ck_ht \<Rightarrow> 'h \<Rightarrow> 'v list" where
  "table_values ck h = map snd (ck_entries ck h)"

lemma short_str:
  assumes "short_key k"
  shows "find_str ck h k = ck_get ck h k" "insert_str ck h k v = ck_put ck h k v"
  using assms
  by (simp_all add: short_key_def find_str_def insert_str_def brubeck_hashtable_find_def
      brubeck_hashtable_insert_def unat_of_nat)

lemma fill_array_all: "length vs + i \<le> length a \<Longrightarrow>
    fill_array a i vs = Inr (take i a @ map Some vs @ drop (i + length vs) a)"
proof (induction vs arbitrary: a i)
  case (Cons v vs)
  then have "i < length a" by simp
  then have "fill_array a i (v # vs) = fill_array (a[i := Some v]) (Suc i) vs" by (simp add: wr_in)
  also have "\<dots> = Inr (take (Suc i) (a[i := Some v]) @ map Some vs @ drop (Suc i + length vs) (a[i := Some v]))"
    using Cons by simp
  finally show ?case using \<open>i < length a\<close> by (simp add: take_Suc_conv_app_nth)
qed simp

context ck_table
begin

lemma get_Some_iff: "tinv h \<Longrightarrow> ck_get ck h k = Some v \<longleftrightarrow> (k, v) \<in> set (ck_entries ck h)"
  by (simp add: get_entries entries_distinct)

lemma get_put:
  assumes "tinv h"
  shows "ck_get ck (fst (ck_put ck h k v)) j = (if j = k \<and> ck_get ck h k = None then Some v else ck_get ck h j)"
proof (rule option_eqI)
  fix w
  have w: "ck_get ck h' j = Some w \<longleftrightarrow> (j, w) \<in> set (ck_entries ck h')" if "tinv h'" for h'
    using get_Some_iff [OF that] .
  have k: "ck_get ck h k = None \<Longrightarrow> (k, w) \<notin> set (ck_entries ck h)"
    using get_Some_iff [OF assms] by (metis option.distinct(1))
  show "ck_get ck (fst (ck_put ck h k v)) j = Some w \<longleftrightarrow>
      (if j = k \<and> ck_get ck h k = None then Some v else ck_get ck h j) = Some w"
    using put_absent [OF assms, of k v] put_present [OF assms, of k v] k
    by (auto simp: w [OF assms] w [OF put_tinv [OF assms]])
qed

lemma put_ok_iff: "tinv h \<Longrightarrow> snd (ck_put ck h k v) \<longleftrightarrow> ck_get ck h k = None"
  using put_absent put_present by blast

lemma to_a_all: "tinv h \<Longrightarrow> brubeck_hashtable_to_a ck h =
    Inr (map Some (map snd (ck_entries ck h)), length (ck_entries ck h))"
  by (simp add: brubeck_hashtable_to_a_def count_entries fill_array_all)

end

text \<open>The table of the daemon satisfies the contract whenever the library does its part.\<close>

sublocale ck_table \<subseteq> table: hashtable "find_str ck" "insert_str ck" "table_values ck" tinv
proof
  fix h k v
  assume "tinv h"
  then show "tinv (fst (insert_str ck h k v))"
    by (simp add: insert_str_def brubeck_hashtable_insert_def put_tinv)
next
  fix h k j v
  assume "tinv h" "short_key k" "short_key j"
  then show "find_str ck (fst (insert_str ck h k v)) j
      = (if j = k \<and> find_str ck h k = None then Some v else find_str ck h j)"
    by (simp add: short_str get_put)
next
  fix h k v
  assume "tinv h" "short_key k"
  then show "snd (insert_str ck h k v) \<longleftrightarrow> find_str ck h k = None"
    by (simp add: short_str put_ok_iff)
next
  fix h k v
  assume "tinv h" "short_key k" "find_str ck h k = Some v"
  then have "(k, v) \<in> set (ck_entries ck h)" by (simp add: short_str get_Some_iff)
  then show "v \<in> set (table_values ck h)" by (force simp: table_values_def)
qed

context ck_table
begin

lemma insert_find_str:
  assumes "tinv h" "short_key k" "short_key j" "insert_str ck h k v = (h', ok)"
  shows "tinv h'" "ok \<longleftrightarrow> find_str ck h k = None"
    "find_str ck h' j = (if ok \<and> j = k then Some v else find_str ck h j)"
  using table.insert_hinv [OF assms(1), of k v] table.insert_ok_iff [OF assms(1,2), of v]
    table.find_insert [OF assms(1-3), of v] assms(4) by auto

lemma find_inserts_str:
  "tinv h \<Longrightarrow> short_key k \<Longrightarrow> \<forall>kv\<in>set kvs. short_key (fst kv) \<Longrightarrow> find_str ck h k = None \<Longrightarrow>
   find_str ck (fold (\<lambda>(k, v) h. fst (insert_str ck h k v)) kvs h) k = map_of kvs k"
  using table.find_inserts [of h k kvs] by (simp add: table.inserts_def)

end

section \<open>A reference table\<close>

text \<open>The simplest table that keeps the library's promises: a list of entries.\<close>

definition list_ck :: "((string \<times> 'v) list, 'v) ck_ht" where
  "list_ck = \<lparr>ck_init = (\<lambda>_. Some []), ck_get = map_of,
     ck_put = (\<lambda>h k v. if map_of h k = None then ((k, v) # h, True) else (h, False)),
     ck_count = length, ck_entries = (\<lambda>h. h)\<rparr>"

definition list_inv :: "(string \<times> 'v) list \<Rightarrow> bool" where
  "list_inv h \<longleftrightarrow> distinct (map fst h)"

interpretation list_table: ck_table list_ck list_inv
  by unfold_locales (auto simp: list_ck_def list_inv_def map_of_eq_None_iff)

section \<open>Properties\<close>

text \<open>
  For every hash table that behaves as documented: a key that is inserted can be looked up, the
  first insertion of a key wins and a second one is refused, and no other key is affected.
\<close>

theorem hashtable_insert_find:
  assumes "ck_table ck tinv" "tinv h" "length k < 2 ^ 16" "length j < 2 ^ 16"
    "brubeck_hashtable_insert ck h k (word_of_nat (length k)) v = (h', ok)"
  shows "tinv h' \<and> (ok \<longleftrightarrow> brubeck_hashtable_find ck h k (word_of_nat (length k)) = None)
    \<and> brubeck_hashtable_find ck h' j (word_of_nat (length j)) =
      (if ok \<and> j = k then Some v else brubeck_hashtable_find ck h j (word_of_nat (length j)))"
  using ck_table.insert_find_str [OF assms(1,2), of k j v h' ok] assms(3-5)
  by (simp add: short_key_def find_str_def insert_str_def)

theorem hashtable_insert_find_witness:
  "brubeck_hashtable_find list_ck (fst (brubeck_hashtable_insert list_ck [] ''a'' 1 (7::nat))) ''a'' 1 = Some 7"
  using hashtable_insert_find [OF list_table.ck_table_axioms, of "[]" "''a''" "''a''" "7::nat"]
  by (cases "brubeck_hashtable_insert list_ck [] ''a'' 1 (7::nat)")
    (simp add: list_inv_def brubeck_hashtable_find_def list_ck_def)

text \<open>
  C36. The array of all metrics has exactly the cells it needs: filling it stays inside the
  allocated block, and it holds the values of the table, one cell each.
\<close>

theorem hashtable_to_a_in_bounds:
  assumes "ck_table ck tinv" "tinv h"
  shows "\<exists>array. brubeck_hashtable_to_a ck h = Inr (array, brubeck_hashtable_size ck h)
    \<and> length array = brubeck_hashtable_size ck h \<and> array = map (\<lambda>(k, v). Some v) (ck_entries ck h)"
  using ck_table.to_a_all [OF assms] ck_table.count_entries [OF assms]
  by (simp add: brubeck_hashtable_size_def case_prod_beta comp_def)

theorem hashtable_to_a_in_bounds_witness:
  "\<exists>array. brubeck_hashtable_to_a list_ck [(''a'', 1::nat), (''b'', 2)] = Inr (array, 2) \<and> array = [Some 1, Some 2]"
  using hashtable_to_a_in_bounds [OF list_table.ck_table_axioms, of "[(''a'', 1::nat), (''b'', 2)]"]
  by (simp add: list_inv_def brubeck_hashtable_size_def list_ck_def)

end
