(* ===== verification/Internal_Stats.thy ===== *)
theory Internal_Stats
  imports IEEE754
begin

text \<open>
  The daemon's statistics about itself (\<^verbatim>\<open>struct brubeck_internal_stats\<close> in \<^verbatim>\<open>src/server.h\<close>): the
  live counters that the samplers increment and the copy of the last sampling period.
\<close>

record stats =
  n_metrics :: u32
  n_errors :: u32
  n_unique_keys :: u32
  n_failed :: u32
  n_from_future :: u32
  n_delayed :: u32
  n_replayed :: u32

record brubeck_internal_stats =
  stat_freq :: int
  st_live :: stats
  st_sample :: stats

datatype stat = Metrics | Errors | UniqueKeys | Failed | FromFuture | Delayed | Replayed

fun get_stat :: "stat \<Rightarrow> stats \<Rightarrow> u32" where
  "get_stat Metrics = n_metrics"
| "get_stat Errors = n_errors"
| "get_stat UniqueKeys = n_unique_keys"
| "get_stat Failed = n_failed"
| "get_stat FromFuture = n_from_future"
| "get_stat Delayed = n_delayed"
| "get_stat Replayed = n_replayed"

fun set_stat :: "stat \<Rightarrow> u32 \<Rightarrow> stats \<Rightarrow> stats" where
  "set_stat Metrics v s = s\<lparr>n_metrics := v\<rparr>"
| "set_stat Errors v s = s\<lparr>n_errors := v\<rparr>"
| "set_stat UniqueKeys v s = s\<lparr>n_unique_keys := v\<rparr>"
| "set_stat Failed v s = s\<lparr>n_failed := v\<rparr>"
| "set_stat FromFuture v s = s\<lparr>n_from_future := v\<rparr>"
| "set_stat Delayed v s = s\<lparr>n_delayed := v\<rparr>"
| "set_stat Replayed v s = s\<lparr>n_replayed := v\<rparr>"

definition zero_stats :: stats where
  "zero_stats = \<lparr>n_metrics = 0, n_errors = 0, n_unique_keys = 0, n_failed = 0, n_from_future = 0,
     n_delayed = 0, n_replayed = 0\<rparr>"

text \<open>\<^verbatim>\<open>brubeck_stats_inc\<close>: an atomic increment of 32 bits.\<close>

definition brubeck_stats_inc :: "stat \<Rightarrow> brubeck_internal_stats \<Rightarrow> brubeck_internal_stats" where
  "brubeck_stats_inc st s = s\<lparr>st_live := set_stat st (get_stat st (st_live s) + 1) (st_live s)\<rparr>"

definition brubeck_stats_sample :: "stat \<Rightarrow> brubeck_internal_stats \<Rightarrow> u32" where
  "brubeck_stats_sample st s = get_stat st (st_sample s)"

lemma get_set_stat [simp]: "get_stat i (set_stat j v s) = (if i = j then v else get_stat i s)"
  by (cases i; cases j) auto

declare get_stat.simps [simp del] set_stat.simps [simp del]

lemma live_inc [simp]: "get_stat i (st_live (brubeck_stats_inc j s)) = (if i = j then get_stat j (st_live s) + 1 else get_stat i (st_live s))"
  by (simp add: brubeck_stats_inc_def)

lemma inc_sample [simp]: "st_sample (brubeck_stats_inc j s) = st_sample s" "stat_freq (brubeck_stats_inc j s) = stat_freq s"
  by (simp_all add: brubeck_stats_inc_def)

end
