(* ===== verification/Metric.thy ===== *)
theory Metric
  imports Histogram Internal_Stats
begin

text \<open>
  The metrics (\<^verbatim>\<open>src/metric.h\<close>, the first part of \<^verbatim>\<open>src/metric.c\<close>, and the internal sampler of
  \<^verbatim>\<open>src/internal_sampler.c\<close>): what recording a value and sampling do to each kind of metric, and
  the table \<^verbatim>\<open>_prototypes\<close> that dispatches on the kind. Every operation of a metric runs under its
  spin lock, so it is one step on the metric. What a sample hands to the callback of the backend
  is the list of its (key, value) pairs.
\<close>

section \<open>Model\<close>

datatype brubeck_metric_t = MT_GAUGE | MT_METER | MT_COUNTER | MT_HISTO | MT_TIMER | MT_INTERNAL_STATS

abbreviation BRUBECK_MOD_RELATIVE_VALUE :: u8 where
  "BRUBECK_MOD_RELATIVE_VALUE \<equiv> 1"

abbreviation BRUBECK_EXPIRE_DISABLED :: u8 where
  "BRUBECK_EXPIRE_DISABLED \<equiv> 0"

abbreviation BRUBECK_EXPIRE_INACTIVE :: u8 where
  "BRUBECK_EXPIRE_INACTIVE \<equiv> 1"

abbreviation BRUBECK_EXPIRE_ACTIVE :: u8 where
  "BRUBECK_EXPIRE_ACTIVE \<equiv> 2"

text \<open>
  The members of the union \<^verbatim>\<open>as\<close> are separate fields: a metric never changes its kind, and each
  kind uses its own member. \<open>as_other\<close> tells whether the pointer to the statistics is set.
\<close>

record brubeck_metric =
  m_key :: string
  m_key_len :: u16
  m_type :: brubeck_metric_t
  m_expire :: u8
  as_value :: double
  as_previous :: double
  as_histogram :: brubeck_histo
  as_other :: bool

type_synonym emission = "string \<times> double"

definition gauge_record :: "brubeck_metric \<Rightarrow> double \<Rightarrow> double \<Rightarrow> u8 \<Rightarrow> brubeck_metric" where
  "gauge_record metric v sample_freq modifiers =
     (if modifiers AND BRUBECK_MOD_RELATIVE_VALUE \<noteq> 0 then metric\<lparr>as_value := dadd (as_value metric) v\<rparr>
      else metric\<lparr>as_value := v\<rparr>)"

definition gauge_sample :: "brubeck_metric \<Rightarrow> emission list \<times> brubeck_metric" where
  "gauge_sample metric = ([(cstr (m_key metric), as_value metric)], metric)"

definition meter_record :: "brubeck_metric \<Rightarrow> double \<Rightarrow> double \<Rightarrow> u8 \<Rightarrow> brubeck_metric" where
  "meter_record metric v sample_freq modifiers =
     (let v = dmul v sample_freq in metric\<lparr>as_value := dadd (as_value metric) v\<rparr>)"

definition meter_sample :: "brubeck_metric \<Rightarrow> emission list \<times> brubeck_metric" where
  "meter_sample metric = ([(cstr (m_key metric), as_value metric)], metric\<lparr>as_value := 0\<rparr>)"

definition counter_record :: "brubeck_metric \<Rightarrow> double \<Rightarrow> double \<Rightarrow> u8 \<Rightarrow> brubeck_metric" where
  "counter_record metric v sample_freq modifiers =
     (let v = dmul v sample_freq;
          metric =
            (if dlt 0 (as_previous metric) then
               let diff = (if dle (as_previous metric) v then dsub v (as_previous metric) else v)
               in metric\<lparr>as_value := dadd (as_value metric) diff\<rparr>
             else metric)
      in metric\<lparr>as_previous := v\<rparr>)"

definition counter_sample :: "brubeck_metric \<Rightarrow> emission list \<times> brubeck_metric" where
  "counter_sample metric = ([(cstr (m_key metric), as_value metric)], metric\<lparr>as_value := 0\<rparr>)"

definition histogram_record :: "brubeck_metric \<Rightarrow> double \<Rightarrow> double \<Rightarrow> u8 \<Rightarrow> brubeck_metric res" where
  "histogram_record metric v sample_freq modifiers =
     rbind (brubeck_histo_push (as_histogram metric) v sample_freq) (\<lambda>h. Inr (metric\<lparr>as_histogram := h\<rparr>))"

text \<open>
  \<^verbatim>\<open>WITH_SUFFIX\<close> copies a suffix and its terminator behind the key in a stack buffer of \<open>room\<close>
  bytes; the callback sees the C string that results.
\<close>

definition with_suffix :: "nat \<Rightarrow> brubeck_metric \<Rightarrow> string \<Rightarrow> double \<Rightarrow> emission res" where
  "with_suffix room metric suffix v =
     (if unat (m_key_len metric) + length suffix + 1 \<le> room
      then Inr (cstr (take (unat (m_key_len metric)) (m_key metric) @ suffix), v)
      else Inl OutOfBounds)"

fun emit_all :: "nat \<Rightarrow> brubeck_metric \<Rightarrow> (string \<times> double) list \<Rightarrow> emission list res" where
  "emit_all room metric [] = Inr []"
| "emit_all room metric ((suffix, v) # rest) =
     rbind (with_suffix room metric suffix v) (\<lambda>e.
       rbind (emit_all room metric rest) (\<lambda>es. Inr (e # es)))"

definition histogram_sample :: "int \<Rightarrow> brubeck_metric \<Rightarrow> (emission list \<times> brubeck_metric) res" where
  "histogram_sample backend_freq metric =
     rbind (brubeck_histo_sample (as_histogram metric)) (\<lambda>(hsample, h).
       let metric = metric\<lparr>as_histogram := h\<rparr>;
           room = unat (m_key_len metric) + length ''.percentile.999'' + 1;
           counts = [(''.count'', s_count hsample),
                     (''.count_ps'', ddiv (s_count hsample) (d_of_int backend_freq))];
           stats = [(''.min'', s_min hsample), (''.max'', s_max hsample), (''.sum'', s_sum hsample),
                    (''.mean'', s_mean hsample), (''.median'', s_median hsample),
                    (''.percentile.75'', s_percentile hsample ! 0),
                    (''.percentile.95'', s_percentile hsample ! 1),
                    (''.percentile.98'', s_percentile hsample ! 2),
                    (''.percentile.99'', s_percentile hsample ! 3),
                    (''.percentile.999'', s_percentile hsample ! 4)]
       in rbind (emit_all room metric (counts @ (if deq (s_count hsample) 0 then [] else stats))) (\<lambda>es.
            Inr (es, metric)))"

text \<open>
  The internal sampler: each counter is swapped with zero, \<^verbatim>\<open>unique_keys\<close> is only read, and the
  values become the sample of the period.
\<close>

abbreviation INTERNAL_LONGEST_KEY :: string where
  "INTERNAL_LONGEST_KEY \<equiv> ''.secure.from_future''"

definition internal_keys :: "(stat \<times> string) list" where
  "internal_keys =
     [(Metrics, ''.metrics''), (Errors, ''.errors''), (UniqueKeys, ''.unique_keys''),
      (Failed, ''.secure.failed''), (FromFuture, ''.secure.from_future''),
      (Delayed, ''.secure.delayed''), (Replayed, ''.secure.replayed'')]"

definition take_stat :: "stat \<Rightarrow> brubeck_internal_stats \<Rightarrow> u32 \<times> brubeck_internal_stats" where
  "take_stat st stats =
     (let v = get_stat st (st_live stats)
      in (v, stats\<lparr>st_live := (if st = UniqueKeys then st_live stats else set_stat st 0 (st_live stats)),
                   st_sample := set_stat st v (st_sample stats)\<rparr>))"

fun internal_loop :: "nat \<Rightarrow> brubeck_metric \<Rightarrow> (stat \<times> string) list \<Rightarrow> brubeck_internal_stats \<Rightarrow>
    (emission list \<times> brubeck_internal_stats) res" where
  "internal_loop room metric [] stats = Inr ([], stats)"
| "internal_loop room metric ((st, suffix) # rest) stats =
     (let (v, stats) = take_stat st stats in
      rbind (with_suffix room metric suffix (d_of_nat (unat v))) (\<lambda>e.
        rbind (internal_loop room metric rest stats) (\<lambda>(es, stats). Inr (e # es, stats))))"

definition brubeck_internal_sample ::
    "brubeck_internal_stats \<Rightarrow> brubeck_metric \<Rightarrow> (emission list \<times> brubeck_internal_stats \<times> brubeck_metric) res" where
  "brubeck_internal_sample stats metric =
     (if \<not> as_other metric then Inl NullPointer
      else
        let room = unat (m_key_len metric) + length INTERNAL_LONGEST_KEY + 1 in
        rbind (internal_loop room metric internal_keys stats) (\<lambda>(es, stats).
          Inr (es, stats, metric\<lparr>m_expire := BRUBECK_EXPIRE_ACTIVE\<rparr>)))"

text \<open>The dispatch over \<^verbatim>\<open>_prototypes\<close>; the record function of the internal metric is null.\<close>

definition brubeck_metric_sample ::
    "int \<Rightarrow> brubeck_internal_stats \<Rightarrow> brubeck_metric \<Rightarrow> (emission list \<times> brubeck_internal_stats \<times> brubeck_metric) res" where
  "brubeck_metric_sample backend_freq stats metric =
     (case m_type metric of
        MT_GAUGE \<Rightarrow> (let (es, m) = gauge_sample metric in Inr (es, stats, m))
      | MT_METER \<Rightarrow> (let (es, m) = meter_sample metric in Inr (es, stats, m))
      | MT_COUNTER \<Rightarrow> (let (es, m) = counter_sample metric in Inr (es, stats, m))
      | MT_HISTO \<Rightarrow> rbind (histogram_sample backend_freq metric) (\<lambda>(es, m). Inr (es, stats, m))
      | MT_TIMER \<Rightarrow> rbind (histogram_sample backend_freq metric) (\<lambda>(es, m). Inr (es, stats, m))
      | MT_INTERNAL_STATS \<Rightarrow> brubeck_internal_sample stats metric)"

definition brubeck_metric_record :: "brubeck_metric \<Rightarrow> double \<Rightarrow> double \<Rightarrow> u8 \<Rightarrow> brubeck_metric res" where
  "brubeck_metric_record metric v sample_freq modifiers =
     (case m_type metric of
        MT_GAUGE \<Rightarrow> Inr (gauge_record metric v sample_freq modifiers)
      | MT_METER \<Rightarrow> Inr (meter_record metric v sample_freq modifiers)
      | MT_COUNTER \<Rightarrow> Inr (counter_record metric v sample_freq modifiers)
      | MT_HISTO \<Rightarrow> histogram_record metric v sample_freq modifiers
      | MT_TIMER \<Rightarrow> histogram_record metric v sample_freq modifiers
      | MT_INTERNAL_STATS \<Rightarrow> Inl NullPointer)"


text \<open>A run of recordings.\<close>

fun record_all :: "brubeck_metric \<Rightarrow> (double \<times> double \<times> u8) list \<Rightarrow> brubeck_metric res" where
  "record_all metric [] = Inr metric"
| "record_all metric ((v, sample_freq, modifiers) # rest) =
     rbind (brubeck_metric_record metric v sample_freq modifiers) (\<lambda>metric. record_all metric rest)"

text \<open>
  The invariant of a metric: the key has the length it says, the histogram is well formed, and the
  internal metric has its pointer.
\<close>

definition metric_ok :: "brubeck_metric \<Rightarrow> bool" where
  "metric_ok m \<longleftrightarrow> length (m_key m) = unat (m_key_len m) \<and> histo_ok (as_histogram m)
     \<and> (m_type m = MT_INTERNAL_STATS \<longrightarrow> as_other m)"

section \<open>Recording\<close>

lemma record_kept:
  assumes "brubeck_metric_record m v sf md = Inr m'"
  shows "m_key m' = m_key m" "m_key_len m' = m_key_len m" "m_type m' = m_type m" "m_expire m' = m_expire m"
    "as_other m' = as_other m"
  using assms
  by (auto simp: brubeck_metric_record_def gauge_record_def meter_record_def counter_record_def
      histogram_record_def rbind_Inr_iff Let_def split: brubeck_metric_t.splits if_splits)

lemma record_histo_ok:
  assumes "histo_ok (as_histogram m)" "brubeck_metric_record m v sf md = Inr m'"
  shows "histo_ok (as_histogram m')"
proof (cases "as_histogram m' = as_histogram m")
  case True
  with assms(1) show ?thesis by simp
next
  case False
  then have p: "brubeck_histo_push (as_histogram m) v sf = Inr (as_histogram m')"
    using assms(2)
    by (auto simp: brubeck_metric_record_def gauge_record_def meter_record_def counter_record_def
        histogram_record_def rbind_Inr_iff Let_def split: brubeck_metric_t.splits if_splits)
  then obtain c where c: "histo_count (hcount (as_histogram m)) sf = Inr c"
    by (auto simp: brubeck_histo_push_def rbind_Inr_iff)
  from histo_push_ok [OF assms(1) c, of v] p show ?thesis by auto
qed

lemma record_metric_ok:
  assumes "metric_ok m" "brubeck_metric_record m v sf md = Inr m'"
  shows "metric_ok m'"
  using record_histo_ok [OF _ assms(2)] record_kept [OF assms(2)] assms(1) by (simp add: metric_ok_def)

lemma meter_record_all:
  assumes "m_type m = MT_METER" "as_value m = d_of_nat k"
    "\<forall>(n, f, md)\<in>set xs. n < 2 ^ 53 \<and> f < 2 ^ 53" "k + (\<Sum>(n, f, md)\<leftarrow>xs. n * f) < 2 ^ 53"
  shows "record_all m (map (\<lambda>(n, f, md). (d_of_nat n, d_of_nat f, md)) xs)
    = Inr (m\<lparr>as_value := d_of_nat (k + (\<Sum>(n, f, md)\<leftarrow>xs. n * f))\<rparr>)"
  using assms
proof (induction xs arbitrary: m k)
  case (Cons x xs)
  obtain n f md where x: "x = (n, f, md)" by (cases x)
  have b: "n < 2 ^ 53" "f < 2 ^ 53" "n * f < 2 ^ 53" "k + n * f < 2 ^ 53" using Cons.prems by (auto simp: x)
  have "meter_record m (d_of_nat n) (d_of_nat f) md = m\<lparr>as_value := d_of_nat (k + n * f)\<rparr>"
    by (simp only: meter_record_def Let_def dmul_of_nat [OF b(1-3)] Cons.prems(2) dadd_of_nat [OF b(4)])
  with Cons.IH [of "m\<lparr>as_value := d_of_nat (k + n * f)\<rparr>" "k + n * f"] Cons.prems
  show ?case by (simp add: x brubeck_metric_record_def add.assoc)
qed simp

text \<open>What a run of readings of a counter adds up to; a reading below its predecessor is a reset.\<close>

fun counter_total :: "nat \<Rightarrow> nat list \<Rightarrow> nat" where
  "counter_total prev [] = 0"
| "counter_total prev (n # ns) =
     (if prev = 0 then 0 else if prev \<le> n then n - prev else n) + counter_total n ns"

lemma counter_record_all:
  assumes "m_type m = MT_COUNTER" "as_value m = d_of_nat k" "as_previous m = d_of_nat p" "p < 2 ^ 53"
    "\<forall>n\<in>set ns. n < 2 ^ 53" "k + counter_total p ns < 2 ^ 53"
  shows "record_all m (map (\<lambda>n. (d_of_nat n, d_of_nat 1, md)) ns)
    = Inr (m\<lparr>as_value := d_of_nat (k + counter_total p ns), as_previous := d_of_nat (last (p # ns))\<rparr>)"
  using assms
proof (induction ns arbitrary: m k p)
  case (Cons n ns)
  let ?d = "if p = 0 then 0 else if p \<le> n then n - p else n"
  let ?m = "m\<lparr>as_value := d_of_nat (k + ?d), as_previous := d_of_nat n\<rparr>"
  have n: "n < 2 ^ 53" "k + ?d < 2 ^ 53" using Cons.prems by (auto split: if_splits)
  have mul: "dmul (d_of_nat n) (d_of_nat (Suc 0)) = d_of_nat n" using dmul_of_nat [of n 1] n by simp
  have pos: "dlt 0 (d_of_nat p) \<longleftrightarrow> 0 < p" using dlt_d_of_nat [of 0 p] Cons.prems(4) by (simp add: d_of_nat_0)
  have "counter_record m (d_of_nat n) (d_of_nat 1) md = ?m"
    using n Cons.prems(2-4)
    by (cases m) (auto simp: counter_record_def Let_def mul pos dle_d_of_nat dsub_of_nat dadd_of_nat)
  with Cons.IH [of ?m "k + ?d" n] Cons.prems n show ?case
    by (simp add: brubeck_metric_record_def add.assoc)
qed simp

text \<open>A gauge after its last absolute value and the relative ones behind it.\<close>

lemma gauge_record_all:
  assumes "m_type m = MT_GAUGE" "as_value m = d_of_int k" "\<bar>k\<bar> < 2 ^ 53" "\<forall>n\<in>set ns. \<bar>n\<bar> < 2 ^ 53"
    "\<forall>i\<le>length ns. \<bar>k + sum_list (take i ns)\<bar> < 2 ^ 53"
  shows "record_all m (map (\<lambda>n. (d_of_int n, sf, BRUBECK_MOD_RELATIVE_VALUE)) ns)
    = Inr (m\<lparr>as_value := d_of_int (k + sum_list ns)\<rparr>)"
  using assms
proof (induction ns arbitrary: m k)
  case (Cons n ns)
  have kn: "\<bar>k + n\<bar> < 2 ^ 53" using spec [OF Cons.prems(5), of 1] by simp
  have "\<bar>k + n + sum_list (take i ns)\<bar> < 2 ^ 53" if "i \<le> length ns" for i
    using spec [OF Cons.prems(5), of "Suc i"] that by (simp add: add.assoc)
  with Cons.IH [of "m\<lparr>as_value := d_of_int (k + n)\<rparr>" "k + n"] Cons.prems kn
  show ?case by (simp add: brubeck_metric_record_def gauge_record_def dadd_of_int add.assoc)
qed simp

lemma record_all_append:
  "record_all m (xs @ ys) = rbind (record_all m xs) (\<lambda>m. record_all m ys)"
  by (induction m xs rule: record_all.induct) (auto simp: rbind_def split: sum.splits)

section \<open>Sampling\<close>

lemma emit_all_fits:
  "\<forall>(suffix, v)\<in>set xs. unat (m_key_len m) + length suffix + 1 \<le> room \<Longrightarrow>
   emit_all room m xs = Inr (map (\<lambda>(suffix, v). (cstr (take (unat (m_key_len m)) (m_key m) @ suffix), v)) xs)"
  by (induction xs) (auto simp: with_suffix_def)

lemma cstr_append: "NUL \<notin> set k \<Longrightarrow> NUL \<notin> set s \<Longrightarrow> cstr (k @ s) = k @ s"
  by (auto simp: cstr_def takeWhile_eq_all_conv)

lemma internal_loop_fits:
  "\<forall>(st, suffix)\<in>set xs. unat (m_key_len m) + length suffix + 1 \<le> room \<Longrightarrow> distinct (map fst xs) \<Longrightarrow>
   \<exists>stats'. internal_loop room m xs stats =
       Inr (map (\<lambda>(st, suffix). (cstr (take (unat (m_key_len m)) (m_key m) @ suffix), d_of_nat (unat (get_stat st (st_live stats))))) xs, stats')
     \<and> (\<forall>st. get_stat st (st_live stats') = (if st \<in> fst ` set xs \<and> st \<noteq> UniqueKeys then 0 else get_stat st (st_live stats)))
     \<and> (\<forall>st. get_stat st (st_sample stats') = (if st \<in> fst ` set xs then get_stat st (st_live stats) else get_stat st (st_sample stats)))
     \<and> stat_freq stats' = stat_freq stats"
proof (induction xs arbitrary: stats)
  case (Cons x xs)
  obtain st suffix where x: "x = (st, suffix)" by (cases x)
  obtain v stats1 where t: "take_stat st stats = (v, stats1)" by force
  have v: "v = get_stat st (st_live stats)"
    "\<And>st'. get_stat st' (st_live stats1) = (if st' = st \<and> st \<noteq> UniqueKeys then 0 else get_stat st' (st_live stats))"
    "\<And>st'. get_stat st' (st_sample stats1) = (if st' = st then get_stat st (st_live stats) else get_stat st' (st_sample stats))"
    "stat_freq stats1 = stat_freq stats"
    using t by (auto simp: take_stat_def Let_def)
  have nd: "st \<notin> fst ` set xs" using Cons.prems by (auto simp: x)
  from Cons.IH [of stats1] Cons.prems obtain stats' where
    s: "internal_loop room m xs stats1 = Inr (map (\<lambda>(st, suffix). (cstr (take (unat (m_key_len m)) (m_key m) @ suffix), d_of_nat (unat (get_stat st (st_live stats1))))) xs, stats')"
    "\<forall>st. get_stat st (st_live stats') = (if st \<in> fst ` set xs \<and> st \<noteq> UniqueKeys then 0 else get_stat st (st_live stats1))"
    "\<forall>st. get_stat st (st_sample stats') = (if st \<in> fst ` set xs then get_stat st (st_live stats1) else get_stat st (st_sample stats1))"
    "stat_freq stats' = stat_freq stats1" by auto
  have eq: "map (\<lambda>(st, suffix). (cstr (take (unat (m_key_len m)) (m_key m) @ suffix), d_of_nat (unat (get_stat st (st_live stats1))))) xs
    = map (\<lambda>(st, suffix). (cstr (take (unat (m_key_len m)) (m_key m) @ suffix), d_of_nat (unat (get_stat st (st_live stats))))) xs"
    using nd by (intro map_cong) (force simp: v(2))+
  have "internal_loop room m (x # xs) stats = Inr (map (\<lambda>(st, suffix). (cstr (take (unat (m_key_len m)) (m_key m) @ suffix), d_of_nat (unat (get_stat st (st_live stats))))) (x # xs), stats')"
    using Cons.prems s(1) by (simp add: x t with_suffix_def v(1) eq)
  moreover have "\<forall>st'. get_stat st' (st_live stats') = (if st' \<in> fst ` set (x # xs) \<and> st' \<noteq> UniqueKeys then 0 else get_stat st' (st_live stats))"
    using s(2) by (auto simp: v x)
  moreover have "\<forall>st'. get_stat st' (st_sample stats') = (if st' \<in> fst ` set (x # xs) then get_stat st' (st_live stats) else get_stat st' (st_sample stats))"
    using s(3) nd by (auto simp: v x)
  ultimately show ?case using s(4) v(4) by auto
qed simp

text \<open>What a histogram with the ordered values \<open>q\<close> and the count \<open>c\<close> reports, by suffix.\<close>

definition histo_report :: "int \<Rightarrow> nat \<Rightarrow> double list \<Rightarrow> (string \<times> double) list" where
  "histo_report fr c q =
     (let c = (if q = [] then 0 else c); n = length q; total_of = foldl dadd 0 q; pct = (\<lambda>r. q ! nearest_rank n r) in
      [(''.count'', d_of_nat c), (''.count_ps'', ddiv (d_of_nat c) (d_of_int fr))] @
      (if c = 0 then []
       else [(''.min'', hd q), (''.max'', last q), (''.sum'', total_of), (''.mean'', ddiv total_of (d_of_nat n)),
             (''.median'', pct (f_lit 5 10)), (''.percentile.75'', pct (f_lit 75 100)), (''.percentile.95'', pct (f_lit 95 100)),
             (''.percentile.98'', pct (f_lit 98 100)), (''.percentile.99'', pct (f_lit 99 100)),
             (''.percentile.999'', pct (f_lit 999 1000))]))"

lemma histo_sample_total:
  assumes "histo_ok h"
  shows "\<exists>smp h'. brubeck_histo_sample h = Inr (smp, h') \<and> histo_ok h' \<and> recorded h' = []
    \<and> s_count smp = d_of_nat (if recorded h = [] then 0 else unat (hcount h))"
proof (cases "hsize h = 0")
  case True
  then show ?thesis using assms
    by (simp add: brubeck_histo_sample_def recorded_def empty_sample_def d_of_nat_0)
next
  case False
  then have "recorded h \<noteq> []" using length_recorded [OF assms] by (auto simp: unat_eq_zero)
  moreover have "histo_ok ((histo_sort h)\<lparr>hsize := 0, hcount := 0\<rparr>)"
    using histo_sort_recorded(2) [OF assms] by (simp add: histo_ok_def)
  ultimately show ?thesis
    using histo_sample_eq [OF assms False] by (simp add: recorded_def)
qed

lemma deq_zero: "n < 2 ^ 53 \<Longrightarrow> deq (d_of_nat n) 0 \<longleftrightarrow> n = 0"
  using dle_d_of_nat [of n 0] dle_d_of_nat [of 0 n] by (simp add: deq_def d_of_nat_0)

lemma histogram_sample_emits:
  assumes "metric_ok m" "NUL \<notin> set (m_key m)"
  shows "\<exists>es h. histogram_sample fr m = Inr (es, m\<lparr>as_histogram := h\<rparr>) \<and> histo_ok h \<and> recorded h = []
    \<and> es = map (\<lambda>(s, v). (m_key m @ s, v)) (histo_report fr (unat (hcount (as_histogram m))) (qsort value_cmp (recorded (as_histogram m))))"
proof -
  let ?h = "as_histogram m"
  let ?q = "qsort value_cmp (recorded ?h)"
  have h: "histo_ok ?h" "length (m_key m) = unat (m_key_len m)" using assms(1) by (auto simp: metric_ok_def)
  have len: "length ?q = unat (hsize ?h)" using length_recorded [OF h(1)] by simp
  have c: "cstr (m_key m @ sfx) = m_key m @ sfx" if "NUL \<notin> set sfx" for sfx
    using cstr_append [OF assms(2) that] .
  have bound: "unat (hcount ?h) < 2 ^ 53"
    using unsigned_less [of "hcount ?h", where ?'a = nat] by simp
  show ?thesis
  proof (cases "hsize ?h = 0")
    case True
    then have q: "?q = []" using len by simp
    have s: "brubeck_histo_sample ?h = Inr (empty_sample, ?h)" using True by (simp add: brubeck_histo_sample_def)
    have z: "deq (0::double) 0" using deq_zero [of 0] by (simp add: d_of_nat_0)
    show ?thesis
      unfolding histogram_sample_def s rbind_simps prod.case Let_def q using h z True
      by (subst emit_all_fits, simp add: empty_sample_def)
        (intro exI conjI [of "_ = Inr _"], auto simp: c histo_report_def empty_sample_def d_of_nat_0 recorded_def)
  next
    case False
    then have "0 < length ?q" unfolding len by (simp add: unat_gt_0)
    then have q: "?q \<noteq> []" by (rule length_greater_0_conv [THEN iffD1])
    have st: "order_stat ?h i = ?q ! nearest_rank (length ?q) (ranks ! i)" if "i < 6" for i
      using rank_index_nearest [OF False that] by (simp only: order_stat_def len)
    have mm: "?q ! 0 = hd ?q" "?q ! (unat (hsize ?h) - 1) = last ?q"
      unfolding len [symmetric] using q by (simp_all add: hd_conv_nth last_conv_nth del: length_qsort)
    let ?h' = "(histo_sort ?h)\<lparr>hsize := 0, hcount := 0\<rparr>"
    have ok: "histo_ok ?h'" "recorded ?h' = []"
      using histo_sort_recorded(2) [OF h(1)] by (simp_all add: histo_ok_def recorded_def)
    have "order_stat ?h 0 = ?q ! nearest_rank (length ?q) (f_lit 5 10)"
      "map (order_stat ?h) [1, 2, 3, 4, 5] = map (\<lambda>r. ?q ! nearest_rank (length ?q) r) [f_lit 75 100, f_lit 95 100, f_lit 98 100, f_lit 99 100, f_lit 999 1000]"
      using st [of 0] st [of 1] st [of 2] st [of 3] st [of 4] st [of 5] by (simp_all add: ranks_def del: length_qsort)
    note s = histo_sample_eq [OF h(1) False, unfolded this mm, folded len]
    show ?thesis
      unfolding histogram_sample_def s rbind_simps prod.case Let_def using h(2) ok q
      by (subst emit_all_fits, simp)
        (intro exI conjI [of "_ = Inr _"], auto simp: c histo_report_def deq_zero [OF bound] Let_def simp del: length_qsort)
  qed
qed

lemma histogram_sample_total:
  assumes "metric_ok m"
  shows "\<exists>es h. histogram_sample fr m = Inr (es, m\<lparr>as_histogram := h\<rparr>) \<and> histo_ok h"
proof -
  obtain smp h' where s: "brubeck_histo_sample (as_histogram m) = Inr (smp, h')" "histo_ok h'"
    using histo_sample_total [of "as_histogram m"] assms by (auto simp: metric_ok_def)
  show ?thesis
    unfolding histogram_sample_def s(1) rbind_simps prod.case Let_def
    using s(2) by (subst emit_all_fits) auto
qed

lemma internal_keys_props: "distinct (map fst internal_keys)" "fst ` set internal_keys = UNIV"
  "\<forall>(st, suffix)\<in>set internal_keys. length suffix \<le> length INTERNAL_LONGEST_KEY"
proof -
  show "fst ` set internal_keys = UNIV"
  proof -
    have "st \<in> fst ` set internal_keys" for st by (cases st) (simp_all add: internal_keys_def)
    then show ?thesis by auto
  qed
qed (simp_all add: internal_keys_def)

lemma internal_sample_total:
  assumes "metric_ok m" "as_other m"
  shows "\<exists>es stats'. brubeck_internal_sample stats m = Inr (es, stats', m\<lparr>m_expire := BRUBECK_EXPIRE_ACTIVE\<rparr>)
    \<and> length es = 7"
proof -
  let ?room = "unat (m_key_len m) + length INTERNAL_LONGEST_KEY + 1"
  have "\<forall>(st, suffix)\<in>set internal_keys. unat (m_key_len m) + length suffix + 1 \<le> ?room"
    using internal_keys_props(3) by auto
  from internal_loop_fits [OF this internal_keys_props(1), of stats] assms(2) show ?thesis
    by (auto simp: brubeck_internal_sample_def Let_def internal_keys_def)
qed

text \<open>Sampling a well-formed metric never fails.\<close>

lemma metric_sample_total:
  assumes "metric_ok m"
  shows "\<exists>es stats' m'. brubeck_metric_sample fr stats m = Inr (es, stats', m') \<and> metric_ok m'"
proof (cases "m_type m")
  case MT_INTERNAL_STATS
  then have "as_other m" using assms by (simp add: metric_ok_def)
  from internal_sample_total [OF assms this, of stats] assms MT_INTERNAL_STATS show ?thesis
    by (auto simp: brubeck_metric_sample_def metric_ok_def)
next
  case MT_HISTO
  with histogram_sample_total [OF assms, of fr] assms show ?thesis
    by (auto simp: brubeck_metric_sample_def metric_ok_def)
next
  case MT_TIMER
  with histogram_sample_total [OF assms, of fr] assms show ?thesis
    by (auto simp: brubeck_metric_sample_def metric_ok_def)
qed (use assms in \<open>auto simp: brubeck_metric_sample_def gauge_sample_def meter_sample_def counter_sample_def metric_ok_def\<close>)

section \<open>Properties\<close>

text \<open>
  C29. A meter reports exactly the sum of what was recorded since the last sample, each value
  multiplied by its sampling frequency, and starts again from zero; for integers below \<open>2^53\<close>
  no rounding is lost.
\<close>

theorem meter_reports_sum:
  assumes "m_type m = MT_METER" "as_value m = 0"
    "\<forall>(n, f, md)\<in>set xs. n < 2 ^ 53 \<and> f < 2 ^ 53" "(\<Sum>(n, f, md)\<leftarrow>xs. n * f) < 2 ^ 53"
  shows "\<exists>m'. record_all m (map (\<lambda>(n, f, md). (d_of_nat n, d_of_nat f, md)) xs) = Inr m'
    \<and> brubeck_metric_sample fr stats m' =
        Inr ([(cstr (m_key m), d_of_nat (\<Sum>(n, f, md)\<leftarrow>xs. n * f))], stats, m'\<lparr>as_value := 0\<rparr>)"
  using meter_record_all [of m 0 xs] assms
  by (simp add: d_of_nat_0 brubeck_metric_sample_def meter_sample_def)

theorem meter_reports_sum_witness:
  "let m = \<lparr>m_key = ''hits'', m_key_len = 4, m_type = MT_METER, m_expire = 2, as_value = 0, as_previous = 0,
       as_histogram = histo_zero, as_other = False\<rparr>;
       st = \<lparr>stat_freq = 10, st_live = zero_stats, st_sample = zero_stats\<rparr> in
   \<exists>m'. record_all m [(d_of_nat 3, d_of_nat 10, 0), (d_of_nat 4, d_of_nat 1, 0)] = Inr m'
     \<and> brubeck_metric_sample 10 st m' = Inr ([(''hits'', d_of_nat 34)], st, m'\<lparr>as_value := 0\<rparr>)"
  unfolding Let_def
  using meter_reports_sum [of "\<lparr>m_key = ''hits'', m_key_len = 4, m_type = MT_METER, m_expire = 2, as_value = 0,
      as_previous = 0, as_histogram = histo_zero, as_other = False\<rparr>" "[(3, 10, 0), (4, 1, 0)]" 10
      "\<lparr>stat_freq = 10, st_live = zero_stats, st_sample = zero_stats\<rparr>"]
  by (simp add: cstr_def)



text \<open>
  C31. A gauge reports the last absolute value plus the relative changes recorded after it, upwards and
  downwards, whatever was recorded before, and keeps its value over the sample. The values are
  integers whose running sum stays below \<open>2^53\<close> in magnitude, so that no rounding is lost.
\<close>

theorem gauge_reports_last:
  assumes "m_type m = MT_GAUGE" "record_all m before = Inr m1"
    "\<forall>k\<in>set ns. \<bar>k\<bar> < 2 ^ 53" "\<forall>i\<le>length ns. \<bar>n + sum_list (take i ns)\<bar> < 2 ^ 53"
  shows "\<exists>m'. record_all m (before @ (d_of_int n, sf, 0) # map (\<lambda>k. (d_of_int k, sf, BRUBECK_MOD_RELATIVE_VALUE)) ns) = Inr m'
    \<and> brubeck_metric_sample fr stats m' = Inr ([(cstr (m_key m), d_of_int (n + sum_list ns))], stats, m')"
proof -
  have kept: "m_type m1 = m_type m \<and> m_key m1 = m_key m"
    using assms(2) by (induction m before arbitrary: m1 rule: record_all.induct)
      (auto simp: rbind_Inr_iff record_kept)
  let ?m = "m1\<lparr>as_value := d_of_int n\<rparr>"
  have "\<bar>n\<bar> < 2 ^ 53" using spec [OF assms(4), of 0] by simp
  then have "record_all ?m (map (\<lambda>k. (d_of_int k, sf, BRUBECK_MOD_RELATIVE_VALUE)) ns) = Inr (?m\<lparr>as_value := d_of_int (n + sum_list ns)\<rparr>)"
    using gauge_record_all [of ?m n ns sf] assms(1,3,4) kept by simp
  with assms(1,2) kept show ?thesis
    by (simp add: record_all_append brubeck_metric_record_def gauge_record_def brubeck_metric_sample_def gauge_sample_def)
qed

theorem gauge_reports_last_witness:
  "let m = \<lparr>m_key = ''g'', m_key_len = 1, m_type = MT_GAUGE, m_expire = 2, as_value = 5, as_previous = 0,
       as_histogram = histo_zero, as_other = False\<rparr>;
       st = \<lparr>stat_freq = 10, st_live = zero_stats, st_sample = zero_stats\<rparr> in
   \<exists>m'. record_all m [(d_of_int 333, 0, 0), (d_of_int 9, 0, 1), (d_of_int (- 400), 0, 1)] = Inr m'
     \<and> brubeck_metric_sample 10 st m' = Inr ([(''g'', d_of_int (- 58))], st, m')"
proof -
  let ?m = "\<lparr>m_key = ''g'', m_key_len = 1, m_type = MT_GAUGE, m_expire = 2, as_value = 5, as_previous = 0,
       as_histogram = histo_zero, as_other = False\<rparr>"
  let ?st = "\<lparr>stat_freq = 10, st_live = zero_stats, st_sample = zero_stats\<rparr>"
  have "\<forall>i\<le>length [9, - 400 :: int]. \<bar>333 + sum_list (take i [9, - 400 :: int])\<bar> < 2 ^ 53"
    by (auto simp: le_Suc_eq numeral_2_eq_2)
  with gauge_reports_last [of ?m "[]" ?m "[9, - 400]" 333 0 10 ?st] show ?thesis unfolding Let_def by (simp add: cstr_def)
qed

text \<open>
  C32. Sampling a histogram or timer whose values are numbers empties it and reports, under the key with
  their suffixes, the count of the period and the count divided by the period, and exactly when
  something was counted the minimum, maximum, sum, mean, median and the five percentiles of the
  recorded values, which are read at their ranks in the ordered list of these values; the stack
  buffer for the longest suffix is never exceeded.
\<close>

theorem histogram_reports:
  assumes "metric_ok m" "m_type m = MT_HISTO \<or> m_type m = MT_TIMER" "NUL \<notin> set (m_key m)"
    "\<forall>v\<in>set (recorded (as_histogram m)). \<not> is_nan v"
  shows "\<exists>es m' q. brubeck_metric_sample fr stats m = Inr (es, stats, m') \<and> metric_ok m' \<and> recorded (as_histogram m') = []
    \<and> mset q = mset (recorded (as_histogram m)) \<and> sorted_wrt dle q
    \<and> (let c = (if q = [] then 0 else unat (hcount (as_histogram m))); n = length q; total_of = foldl dadd 0 q
       in es = map (\<lambda>(s, v). (m_key m @ s, v))
         ([(''.count'', d_of_nat c), (''.count_ps'', ddiv (d_of_nat c) (d_of_int fr))] @
          (if c = 0 then []
           else [(''.min'', hd q), (''.max'', last q), (''.sum'', total_of), (''.mean'', ddiv total_of (d_of_nat n)),
                 (''.median'', q ! nearest_rank n (f_lit 5 10)),
                 (''.percentile.75'', q ! nearest_rank n (f_lit 75 100)),
                 (''.percentile.95'', q ! nearest_rank n (f_lit 95 100)),
                 (''.percentile.98'', q ! nearest_rank n (f_lit 98 100)),
                 (''.percentile.99'', q ! nearest_rank n (f_lit 99 100)),
                 (''.percentile.999'', q ! nearest_rank n (f_lit 999 1000))])))"
proof -
  obtain es h where e: "histogram_sample fr m = Inr (es, m\<lparr>as_histogram := h\<rparr>)" "histo_ok h" "recorded h = []"
    "es = map (\<lambda>(s, v). (m_key m @ s, v)) (histo_report fr (unat (hcount (as_histogram m))) (qsort value_cmp (recorded (as_histogram m))))"
    using histogram_sample_emits [OF assms(1,3), of fr] by blast
  let ?q = "qsort value_cmp (recorded (as_histogram m))"
  have "sorted_wrt dle ?q"
    using sorted_nth_dle [OF assms(4)] by (auto simp: sorted_wrt_iff_nth_less)
  with e assms(1,2) show ?thesis
    by (intro exI [of _ es] exI [of _ "m\<lparr>as_histogram := h\<rparr>"] exI [of _ ?q])
      (auto simp: brubeck_metric_sample_def metric_ok_def histo_report_def Let_def)
qed

theorem histogram_reports_witness:
  "let m = \<lparr>m_key = ''t'', m_key_len = 1, m_type = MT_TIMER, m_expire = 2, as_value = 0, as_previous = 0,
       as_histogram = \<lparr>hvalues = [d_of_nat 7], hcount = 1, halloc = 16, hsize = 1\<rparr>, as_other = False\<rparr>;
       st = \<lparr>stat_freq = 10, st_live = zero_stats, st_sample = zero_stats\<rparr> in
   \<exists>es m'. brubeck_metric_sample 10 st m = Inr (es, st, m') \<and> length es = 12
     \<and> {(''t.count'', d_of_nat 1), (''t.min'', d_of_nat 7), (''t.max'', d_of_nat 7)} \<subseteq> set es"
proof -
  let ?m = "\<lparr>m_key = ''t'', m_key_len = 1, m_type = MT_TIMER, m_expire = 2, as_value = 0, as_previous = 0,
       as_histogram = \<lparr>hvalues = [d_of_nat 7], hcount = 1, halloc = 16, hsize = 1\<rparr>, as_other = False\<rparr>"
  let ?st = "\<lparr>stat_freq = 10, st_live = zero_stats, st_sample = zero_stats\<rparr>"
  have ok: "metric_ok ?m" by (simp add: metric_ok_def histo_ok_def)
  have r: "recorded (as_histogram ?m) = [d_of_nat 7]" by (simp add: recorded_def)
  have nan: "\<forall>v\<in>set (recorded (as_histogram ?m)). \<not> is_nan v" unfolding r by (simp add: is_nan_d_of_nat)
  from histogram_reports [OF ok _ _ nan, of 10 ?st] show ?thesis
    unfolding r Let_def by (auto simp: mset_single_iff_right)
qed

text \<open>
  C33. Sampling the internal metric reports the seven live counters, moves them into the sample of
  the period and clears all of them except the number of unique keys, so that no event is counted
  twice or lost; the metric stays active.
\<close>

theorem internal_sample_moves:
  assumes "metric_ok m" "m_type m = MT_INTERNAL_STATS" "NUL \<notin> set (m_key m)"
  shows "\<exists>es stats' m'. brubeck_metric_sample fr stats m = Inr (es, stats', m') \<and> m_expire m' = BRUBECK_EXPIRE_ACTIVE
    \<and> es = map (\<lambda>(st, suffix). (m_key m @ suffix, d_of_nat (unat (get_stat st (st_live stats))))) internal_keys
    \<and> (\<forall>st. get_stat st (st_live stats') = (if st = UniqueKeys then get_stat st (st_live stats) else 0))
    \<and> (\<forall>st. get_stat st (st_sample stats') = get_stat st (st_live stats))"
proof -
  let ?room = "unat (m_key_len m) + length INTERNAL_LONGEST_KEY + 1"
  have k: "length (m_key m) = unat (m_key_len m)" "as_other m" using assms(1,2) by (auto simp: metric_ok_def)
  have fits: "\<forall>(st, suffix)\<in>set internal_keys. unat (m_key_len m) + length suffix + 1 \<le> ?room"
    using internal_keys_props(3) by auto
  obtain stats' where s: "internal_loop ?room m internal_keys stats =
      Inr (map (\<lambda>(st, suffix). (cstr (take (unat (m_key_len m)) (m_key m) @ suffix), d_of_nat (unat (get_stat st (st_live stats))))) internal_keys, stats')"
    "\<forall>st. get_stat st (st_live stats') = (if st \<noteq> UniqueKeys then 0 else get_stat st (st_live stats))"
    "\<forall>st. get_stat st (st_sample stats') = get_stat st (st_live stats)"
    using internal_loop_fits [OF fits internal_keys_props(1), of stats] internal_keys_props(2) by auto
  have "cstr (take (unat (m_key_len m)) (m_key m) @ suffix) = m_key m @ suffix"
    if "(st, suffix) \<in> set internal_keys" for st suffix
    using that k(1) cstr_append [OF assms(3), of suffix] by (auto simp: internal_keys_def)
  then have "map (\<lambda>(st, suffix). (cstr (take (unat (m_key_len m)) (m_key m) @ suffix), d_of_nat (unat (get_stat st (st_live stats))))) internal_keys
    = map (\<lambda>(st, suffix). (m_key m @ suffix, d_of_nat (unat (get_stat st (st_live stats))))) internal_keys"
    by (intro map_cong) auto
  with s k(2) assms(2) show ?thesis
    by (simp add: brubeck_metric_sample_def brubeck_internal_sample_def Let_def)
qed

theorem internal_sample_moves_witness:
  "let m = \<lparr>m_key = ''brubeck'', m_key_len = 7, m_type = MT_INTERNAL_STATS, m_expire = 1, as_value = 0, as_previous = 0,
       as_histogram = histo_zero, as_other = True\<rparr>;
       st = \<lparr>stat_freq = 10, st_live = zero_stats\<lparr>n_errors := 3, n_unique_keys := 8\<rparr>, st_sample = zero_stats\<rparr> in
   \<exists>es st' m'. brubeck_metric_sample 10 st m = Inr (es, st', m') \<and> get_stat Errors (st_live st') = 0
     \<and> get_stat UniqueKeys (st_live st') = 8 \<and> get_stat Errors (st_sample st') = 3"
proof -
  let ?m = "\<lparr>m_key = ''brubeck'', m_key_len = 7, m_type = MT_INTERNAL_STATS, m_expire = 1, as_value = 0, as_previous = 0,
       as_histogram = histo_zero, as_other = True\<rparr>"
  have "metric_ok ?m" by (simp add: metric_ok_def histo_ok_def histo_zero_def)
  note r = internal_sample_moves [OF this, of 10 "\<lparr>stat_freq = 10, st_live = zero_stats\<lparr>n_errors := 3, n_unique_keys := 8\<rparr>, st_sample = zero_stats\<rparr>"]
  have "get_stat UniqueKeys (zero_stats\<lparr>n_errors := 3, n_unique_keys := 8\<rparr>) = 8"
    "get_stat Errors (zero_stats\<lparr>n_errors := 3, n_unique_keys := 8\<rparr>) = 3" by (simp_all add: get_stat.simps)
  with r show ?thesis unfolding Let_def by auto
qed

end
