(* ===== verification/Backend.thy ===== *)
theory Backend
  imports Metric Slab
begin

text \<open>
  Backends (\<^verbatim>\<open>src/backend.c\<close>, \<^verbatim>\<open>src/backend.h\<close>): the queue of metrics, to which the samplers push
  without a lock, and one turn of the backend thread, which samples the metrics of the queue.
\<close>

section \<open>Registration without a lock\<close>

text \<open>
  \<^verbatim>\<open>brubeck_backend_register_metric\<close> as it runs: the queue is a pointer to its first metric, each
  metric points to the \<^verbatim>\<open>next\<close> one. A thread pushes the metric \<open>p\<close>: it reads the head, stores it
  in the metric, and swaps the head if it has not changed, otherwise it starts again. Every read,
  store and compare-and-swap is one step, and the steps of all threads interleave.
\<close>

datatype 'p push_pc = Idle | Start | Loaded "'p option" | Stored "'p option" | Done

record 'p queue_state =
  queue :: "'p option"
  next_of :: "'p \<Rightarrow> 'p option"
  pc :: "'p \<Rightarrow> 'p push_pc"

inductive push_step :: "'p queue_state \<Rightarrow> 'p queue_state \<Rightarrow> bool" where
  call: "pc s p = Idle \<Longrightarrow> push_step s (s\<lparr>pc := (pc s)(p := Start)\<rparr>)"
| load: "pc s p = Start \<Longrightarrow> push_step s (s\<lparr>pc := (pc s)(p := Loaded (queue s))\<rparr>)"
| store: "pc s p = Loaded nxt \<Longrightarrow>
    push_step s (s\<lparr>next_of := (next_of s)(p := nxt), pc := (pc s)(p := Stored nxt)\<rparr>)"
| swap: "pc s p = Stored nxt \<Longrightarrow> queue s = nxt \<Longrightarrow>
    push_step s (s\<lparr>queue := Some p, pc := (pc s)(p := Done)\<rparr>)"
| retry: "pc s p = Stored nxt \<Longrightarrow> queue s \<noteq> nxt \<Longrightarrow> push_step s (s\<lparr>pc := (pc s)(p := Start)\<rparr>)"

inductive_cases push_stepE: "push_step s s'"

text \<open>The metrics met when the list is followed from a pointer.\<close>

inductive chain :: "('p \<Rightarrow> 'p option) \<Rightarrow> 'p option \<Rightarrow> 'p list \<Rightarrow> bool" for nx where
  nil: "chain nx None []"
| cons: "chain nx (nx p) ps \<Longrightarrow> chain nx (Some p) (p # ps)"

inductive_simps chain_simps: "chain nx None ps" "chain nx (Some p) ps"

text \<open>
  The invariant: the list \<open>ps\<close> behind the head has no duplicates, its members are exactly the
  metrics whose push is done, and a metric that waits for its swap points to the head it has seen.
\<close>

definition queue_inv :: "'p queue_state \<Rightarrow> 'p list \<Rightarrow> bool" where
  "queue_inv s ps \<longleftrightarrow> chain (next_of s) (queue s) ps \<and> distinct ps \<and> set ps = {p. pc s p = Done}
     \<and> (\<forall>p nxt. pc s p = Stored nxt \<longrightarrow> next_of s p = nxt)"

lemma chain_upd: "chain nx q ps \<Longrightarrow> p \<notin> set ps \<Longrightarrow> chain (nx(p := v)) q ps"
  by (induction rule: chain.induct) (auto intro: chain.intros)

lemma chain_unique: "chain nx q ps \<Longrightarrow> chain nx q qs \<Longrightarrow> ps = qs"
proof (induction arbitrary: qs rule: chain.induct)
  case (cons p ps)
  then obtain qs' where "qs = p # qs'" "chain nx (nx p) qs'" by (auto simp only: chain_simps)
  with cons.IH show ?case by blast
qed (simp only: chain_simps)

lemma push_step_inv:
  assumes "push_step s s'" "queue_inv s ps"
  shows "queue_inv s' ps \<or> (\<exists>p. pc s p \<noteq> Done \<and> pc s' p = Done \<and> queue_inv s' (p # ps))"
  using assms(1)
proof cases
  case (swap p nxt)
  with assms(2) have "chain (next_of s) (next_of s p) ps" "p \<notin> set ps" by (auto simp: queue_inv_def)
  then have "queue_inv s' (p # ps)"
    using assms(2) swap by (auto simp: queue_inv_def intro: chain.intros)
  with swap show ?thesis by auto
next
  case (store p nxt)
  with assms(2) show ?thesis by (auto simp: queue_inv_def intro: chain_upd)
qed (use assms(2) in \<open>auto simp: queue_inv_def\<close>)

interpretation pushes: inv_system push_step "\<lambda>s. \<exists>new. queue_inv s (new @ old)" for old
proof
  fix s s' :: "'a queue_state"
  assume "push_step s s'" "\<exists>new. queue_inv s (new @ old)"
  then show "\<exists>new. queue_inv s' (new @ old)" using push_step_inv by (metis append_Cons)
qed

lemma push_steps_inv:
  assumes "push_step\<^sup>*\<^sup>* s s'" "queue_inv s old"
  shows "\<exists>new. queue_inv s' (new @ old)"
  using pushes.run_keeps [OF assms(1), of old] assms(2) by (metis append_Nil)

text \<open>A thread that is left alone finishes: it retries at most once.\<close>

lemma push_finishes:
  assumes "pc s p \<noteq> Done"
  shows "\<exists>s'. push_step\<^sup>*\<^sup>* s s' \<and> pc s' p = Done \<and> (\<forall>q. q \<noteq> p \<longrightarrow> pc s' q = pc s q)"
proof -
  have st: "\<exists>s'. push_step\<^sup>*\<^sup>* s s' \<and> pc s' p = Done \<and> (\<forall>q. q \<noteq> p \<longrightarrow> pc s' q = pc s q)"
    if "pc s p = Start" for s
  proof -
    let ?a = "s\<lparr>pc := (pc s)(p := Loaded (queue s))\<rparr>"
    let ?b = "?a\<lparr>next_of := (next_of ?a)(p := queue s), pc := (pc ?a)(p := Stored (queue s))\<rparr>"
    let ?c = "?b\<lparr>queue := Some p, pc := (pc ?b)(p := Done)\<rparr>"
    have "push_step s ?a" using that by (rule push_step.load)
    moreover have "push_step ?a ?b" by (rule push_step.store) simp
    moreover have "push_step ?b ?c" by (rule push_step.swap) simp_all
    ultimately have "push_step\<^sup>*\<^sup>* s ?c" by (meson rtranclp.rtrancl_into_rtrancl rtranclp.rtrancl_refl)
    then show ?thesis by (intro exI [of _ ?c]) simp
  qed
  have sd: "\<exists>s'. push_step\<^sup>*\<^sup>* s s' \<and> pc s' p = Done \<and> (\<forall>q. q \<noteq> p \<longrightarrow> pc s' q = pc s q)"
    if "pc s p = Stored nxt" for s nxt
  proof (cases "queue s = nxt")
    case True
    from push_step.swap [OF that True] show ?thesis
      by (intro exI [of _ "s\<lparr>queue := Some p, pc := (pc s)(p := Done)\<rparr>"]) auto
  next
    case False
    note r = push_step.retry [OF that False]
    from st [of "s\<lparr>pc := (pc s)(p := Start)\<rparr>"] show ?thesis
      using converse_rtranclp_into_rtranclp [of push_step, OF r] by fastforce
  qed
  show ?thesis
  proof (cases "pc s p")
    case Idle
    from st [of "s\<lparr>pc := (pc s)(p := Start)\<rparr>"] show ?thesis
      using converse_rtranclp_into_rtranclp [of push_step, OF push_step.call [OF Idle]] by fastforce
  next
    case (Loaded nxt)
    from sd [of "s\<lparr>next_of := (next_of s)(p := nxt), pc := (pc s)(p := Stored nxt)\<rparr>" nxt] show ?thesis
      using converse_rtranclp_into_rtranclp [of push_step, OF push_step.store [OF Loaded]] by fastforce
  qed (use assms st sd in auto)
qed

section \<open>One turn of the backend thread\<close>

text \<open>
  The fields of \<^verbatim>\<open>struct brubeck_backend\<close>; the queue is the list of its metrics, as the chain above
  gives it, and \<open>brubeck_backend_register_metric\<close> is the step that a successful swap makes.
\<close>

datatype brubeck_backend_t = BACKEND_CARBON

record brubeck_backend =
  be_type :: brubeck_backend_t
  be_sample_freq :: int
  be_shard_n :: int
  be_tick_time :: u32
  be_queue :: "slab_ptr list"

definition brubeck_backend_register_metric :: "brubeck_backend \<Rightarrow> slab_ptr \<Rightarrow> brubeck_backend" where
  "brubeck_backend_register_metric self metric = self\<lparr>be_queue := metric # be_queue self\<rparr>"

fun brubeck_backend_name :: "brubeck_backend \<Rightarrow> string" where
  "brubeck_backend_name backend = (case be_type backend of BACKEND_CARBON \<Rightarrow> ''carbon'')"

text \<open>The function pointers of a backend, over its own state \<open>'c\<close>; \<^verbatim>\<open>flush\<close> may be null.\<close>

record 'c backend_ops =
  op_connect :: "'c \<Rightarrow> ('c \<times> int) res"
  op_sample :: "u32 \<Rightarrow> string \<Rightarrow> double \<Rightarrow> 'c \<Rightarrow> 'c res"
  op_flush :: "('c \<Rightarrow> 'c res) option"

type_synonym metric_heap = "slab_ptr \<Rightarrow> brubeck_metric option"

fun send_all :: "'c backend_ops \<Rightarrow> u32 \<Rightarrow> emission list \<Rightarrow> 'c \<Rightarrow> 'c res" where
  "send_all ops tick [] c = Inr c"
| "send_all ops tick ((key, v) # es) c = rbind (op_sample ops tick key v c) (\<lambda>c. send_all ops tick es c)"

fun sample_queue :: "'c backend_ops \<Rightarrow> brubeck_backend \<Rightarrow> slab_ptr list \<Rightarrow> metric_heap \<Rightarrow> brubeck_internal_stats \<Rightarrow> 'c \<Rightarrow>
    (metric_heap \<times> brubeck_internal_stats \<times> 'c) res" where
  "sample_queue ops self [] heap stats c = Inr (heap, stats, c)"
| "sample_queue ops self (mt # rest) heap stats c =
     (case heap mt of
        None \<Rightarrow> Inl NullPointer
      | Some m \<Rightarrow>
          if m_expire m > BRUBECK_EXPIRE_DISABLED then
            rbind (brubeck_metric_sample (be_sample_freq self) stats m) (\<lambda>(es, stats, m).
              rbind (send_all ops (be_tick_time self) es c) (\<lambda>c.
                sample_queue ops self rest (heap(mt \<mapsto> m)) stats c))
          else sample_queue ops self rest heap stats c)"

definition backend_thread_turn :: "'c backend_ops \<Rightarrow> u32 \<Rightarrow> brubeck_backend \<Rightarrow> metric_heap \<Rightarrow> brubeck_internal_stats \<Rightarrow> 'c \<Rightarrow>
    (brubeck_backend \<times> metric_heap \<times> brubeck_internal_stats \<times> 'c) res" where
  "backend_thread_turn ops now self heap stats c =
     rbind (op_connect ops c) (\<lambda>(c, r).
      if r \<noteq> 0 then Inr (self, heap, stats, c)
      else
        let self = self\<lparr>be_tick_time := now\<rparr> in
        rbind (sample_queue ops self (be_queue self) heap stats c) (\<lambda>(heap, stats, c).
          case op_flush ops of
            None \<Rightarrow> Inr (self, heap, stats, c)
          | Some flush \<Rightarrow> rbind (flush c) (\<lambda>c. Inr (self, heap, stats, c))))"

section \<open>What a turn sends\<close>

text \<open>The pairs a turn hands to the callback, in the order of the queue, and what becomes of the metrics.\<close>

fun collect :: "int \<Rightarrow> slab_ptr list \<Rightarrow> metric_heap \<Rightarrow> brubeck_internal_stats \<Rightarrow>
    (emission list \<times> metric_heap \<times> brubeck_internal_stats) res" where
  "collect freq [] heap stats = Inr ([], heap, stats)"
| "collect freq (mt # rest) heap stats =
     (case heap mt of
        None \<Rightarrow> Inl NullPointer
      | Some m \<Rightarrow>
          if m_expire m > BRUBECK_EXPIRE_DISABLED then
            rbind (brubeck_metric_sample freq stats m) (\<lambda>(es, stats, m).
              rbind (collect freq rest (heap(mt \<mapsto> m)) stats) (\<lambda>(es', heap, stats). Inr (es @ es', heap, stats)))
          else collect freq rest heap stats)"

lemma send_all_append: "send_all ops t (xs @ ys) c = rbind (send_all ops t xs c) (send_all ops t ys)"
  by (induction ops t xs c rule: send_all.induct) (auto simp: rbind_def split: sum.splits)

lemma sample_queue_iff:
  "sample_queue ops self q heap stats c = Inr (heap', stats', c') \<longleftrightarrow>
   (\<exists>es. collect (be_sample_freq self) q heap stats = Inr (es, heap', stats')
      \<and> send_all ops (be_tick_time self) es c = Inr c')"
proof (induction q arbitrary: heap stats c)
  case (Cons mt rest)
  show ?case
  proof (cases "heap mt")
    case (Some m)
    show ?thesis
    proof (cases "m_expire m > 0")
      case True
      show ?thesis
      proof (cases "brubeck_metric_sample (be_sample_freq self) stats m")
        case (Inr r)
        obtain es1 stats1 m1 where r: "r = (es1, stats1, m1)" by (cases r)
        define H where "H = heap(mt \<mapsto> m1)"
        have eqs: "sample_queue ops self (mt # rest) heap stats c = rbind (send_all ops (be_tick_time self) es1 c)
             (sample_queue ops self rest H stats1)"
          "collect (be_sample_freq self) (mt # rest) heap stats =
             rbind (collect (be_sample_freq self) rest H stats1) (\<lambda>(es', heap, stats). Inr (es1 @ es', heap, stats))"
          using Inr True Some by (simp_all add: r H_def)
        show ?thesis
          unfolding eqs rbind_Inr_iff Cons.IH by (fastforce simp: send_all_append rbind_Inr_iff)
      qed (use True Some in simp)
    next
      case False
      with Some Cons.IH show ?thesis by simp
    qed
  qed simp
qed simp

lemma sample_queue_collect:
  "collect (be_sample_freq self) q heap stats = Inr (es, heap', stats') \<Longrightarrow>
   sample_queue ops self q heap stats c = rbind (send_all ops (be_tick_time self) es c) (\<lambda>c. Inr (heap', stats', c))"
proof (induction q arbitrary: heap stats es c)
  case (Cons mt rest)
  then obtain m where m: "heap mt = Some m" by (auto split: option.splits)
  show ?case
  proof (cases "m_expire m > 0")
    case True
    with Cons.prems m obtain es1 stats1 m1 es2 where s: "brubeck_metric_sample (be_sample_freq self) stats m = Inr (es1, stats1, m1)"
      "collect (be_sample_freq self) rest (heap(mt \<mapsto> m1)) stats1 = Inr (es2, heap', stats')" "es = es1 @ es2"
      by (auto simp: rbind_Inr_iff)
    have "sample_queue ops self (mt # rest) heap stats c =
        rbind (send_all ops (be_tick_time self) es1 c) (sample_queue ops self rest (heap(mt \<mapsto> m1)) stats1)"
      using True m s(1) by simp
    also have "sample_queue ops self rest (heap(mt \<mapsto> m1)) stats1 =
        (\<lambda>c. rbind (send_all ops (be_tick_time self) es2 c) (\<lambda>c. Inr (heap', stats', c)))"
      using Cons.IH [OF s(2)] by blast
    finally show ?thesis by (simp add: s(3) send_all_append rbind_def split: sum.splits)
  next
    case False
    with Cons m show ?thesis by simp
  qed
qed simp

text \<open>What a turn with a connection does, once the pairs are known.\<close>

lemma backend_turn_eq:
  assumes "op_connect ops c = Inr (c1, 0)" "collect (be_sample_freq self) (be_queue self) heap stats = Inr (es, heap', stats')"
  shows "backend_thread_turn ops now self heap stats c =
    rbind (send_all ops now es c1) (\<lambda>c2.
      rbind (case op_flush ops of None \<Rightarrow> Inr c2 | Some flush \<Rightarrow> flush c2) (\<lambda>c'.
        Inr (self\<lparr>be_tick_time := now\<rparr>, heap', stats', c')))"
  using sample_queue_collect [of "self\<lparr>be_tick_time := now\<rparr>" "be_queue self" heap stats es heap' stats' ops c1] assms
  by (auto simp: backend_thread_turn_def Let_def rbind_def split: sum.splits option.splits)

lemma collect_total:
  assumes "\<forall>mt\<in>set q. \<exists>m. heap mt = Some m \<and> metric_ok m"
  shows "\<exists>r. collect freq q heap stats = Inr r"
  using assms
proof (induction q arbitrary: heap stats)
  case (Cons mt rest)
  then obtain m where m: "heap mt = Some m" "metric_ok m" by auto
  obtain es stats' m' where s: "brubeck_metric_sample freq stats m = Inr (es, stats', m')" "metric_ok m'"
    using metric_sample_total [OF m(2)] by blast
  have "\<forall>p\<in>set rest. \<exists>m. (heap(mt \<mapsto> m')) p = Some m \<and> metric_ok m"
    using Cons.prems s(2) by auto
  with Cons.IH obtain r where "collect freq rest (heap(mt \<mapsto> m')) stats' = Inr r" by blast
  moreover obtain r' where "collect freq rest heap stats = Inr r'" using Cons by fastforce
  ultimately show ?case using m(1) s(1) by (cases r; cases r') simp
qed simp

section \<open>The contract of a backend\<close>

text \<open>
  What the thread relies on: connecting keeps the backend in order, and a sample whose key is
  admissible and a flush are served without leaving the bounds of the backend's buffers. A backend
  may fail on a value, with an error that \<open>fails\<close> names.
\<close>

locale backend_driver =
  fixes ops :: "'c backend_ops"
    and cinv :: "'c \<Rightarrow> bool"
    and key_ok :: "string \<Rightarrow> bool"
    and fails :: "c_error \<Rightarrow> double \<Rightarrow> bool"
  assumes connect_total: "cinv c \<Longrightarrow> \<exists>c' r. op_connect ops c = Inr (c', r) \<and> cinv c'"
    and sample_total: "cinv c \<Longrightarrow> key_ok k \<Longrightarrow> case op_sample ops t k v c of Inr c' \<Rightarrow> cinv c' | Inl e \<Rightarrow> fails e v"
    and flush_total: "cinv c \<Longrightarrow> op_flush ops = Some fl \<Longrightarrow> \<exists>c'. fl c = Inr c' \<and> cinv c'"
begin

lemma send_all_total:
  "cinv c \<Longrightarrow> \<forall>(k, v)\<in>set es. key_ok k \<Longrightarrow>
   case send_all ops t es c of Inr c' \<Rightarrow> cinv c' | Inl e \<Rightarrow> \<exists>(k, v)\<in>set es. fails e v"
proof (induction es arbitrary: c)
  case (Cons e es)
  obtain k v where e: "e = (k, v)" by force
  show ?case
  proof (cases "op_sample ops t k v c")
    case (Inl x)
    with Cons.prems sample_total [of c k v t] show ?thesis by (simp add: e)
  next
    case (Inr c1)
    with Cons.prems sample_total [of c k v t] have "cinv c1" by (simp add: e)
    with Cons.IH [of c1] Cons.prems(2) Inr show ?thesis by (auto simp: e split: sum.splits)
  qed
qed simp

lemma turn_total:
  assumes "cinv c" "\<forall>mt\<in>set (be_queue self). \<exists>m. heap mt = Some m \<and> metric_ok m"
    "\<forall>es heap' stats'. collect (be_sample_freq self) (be_queue self) heap stats = Inr (es, heap', stats')
        \<longrightarrow> (\<forall>(k, v)\<in>set es. key_ok k)"
  shows "case backend_thread_turn ops now self heap stats c of
      Inr (self', heap', stats', c') \<Rightarrow> cinv c'
    | Inl e \<Rightarrow> \<exists>es heap' stats'. collect (be_sample_freq self) (be_queue self) heap stats = Inr (es, heap', stats')
        \<and> (\<exists>(k, v)\<in>set es. fails e v)"
proof -
  obtain c1 r where c1: "op_connect ops c = Inr (c1, r)" "cinv c1" using connect_total [OF assms(1)] by blast
  show ?thesis
  proof (cases "r = 0")
    case False
    with c1 show ?thesis by (simp add: backend_thread_turn_def)
  next
    case True
    obtain es heap' stats' where col: "collect (be_sample_freq self) (be_queue self) heap stats = Inr (es, heap', stats')"
      using collect_total [OF assms(2)] by (metis prod_cases3)
    note eq = backend_turn_eq [OF c1(1) [unfolded True] col, of now]
    have all: "case send_all ops now es c1 of Inr c' \<Rightarrow> cinv c' | Inl e \<Rightarrow> \<exists>(k, v)\<in>set es. fails e v"
      using send_all_total [OF c1(2)] assms(3) col by blast
    show ?thesis
    proof (cases "send_all ops now es c1")
      case (Inl e)
      with all col eq show ?thesis by auto
    next
      case (Inr c2)
      with all eq flush_total [of c2] show ?thesis by (cases "op_flush ops") auto
    qed
  qed
qed

end

section \<open>Properties\<close>

text \<open>
  C26. Pushing without a lock is safe: however the pushes of any number of threads interleave, the
  list behind the head keeps the metrics it had, in their order, gains those whose push is done,
  and holds each of them exactly once.
\<close>

theorem queue_push_safe:
  assumes "push_step\<^sup>*\<^sup>* s s'" "chain (next_of s) (queue s) old" "distinct old"
    "set old = {p. pc s p = Done}" "\<forall>p. pc s p = Done \<or> pc s p = Idle"
  shows "\<exists>new. chain (next_of s') (queue s') (new @ old) \<and> distinct (new @ old)
    \<and> set (new @ old) = {p. pc s' p = Done}"
proof -
  have "pc s p \<noteq> Stored nxt" for p nxt using spec [OF assms(5), of p] by auto
  then have "queue_inv s old" using assms(2-4) by (simp add: queue_inv_def)
  from push_steps_inv [OF assms(1) this] show ?thesis unfolding queue_inv_def by blast
qed

theorem queue_push_safe_witness:
  "\<exists>s new. push_step\<^sup>*\<^sup>* \<lparr>queue = Some 3, next_of = (\<lambda>_. None), pc = (\<lambda>p. if p = (3::nat) then Done else Idle)\<rparr> s
     \<and> pc s 1 = Done \<and> pc s 2 = Done \<and> chain (next_of s) (queue s) (new @ [3]) \<and> distinct (new @ [3])
     \<and> set (new @ [3]) = {p. pc s p = Done}"
proof -
  let ?s0 = "\<lparr>queue = Some 3, next_of = (\<lambda>_. None), pc = (\<lambda>p. if p = (3::nat) then Done else Idle)\<rparr>"
  let ?s1 = "?s0\<lparr>pc := (pc ?s0)(1 := Start)\<rparr>"
  let ?s2 = "?s1\<lparr>pc := (pc ?s1)(1 := Loaded (queue ?s1))\<rparr>"
  let ?s3 = "?s2\<lparr>next_of := (next_of ?s2)(1 := Some 3), pc := (pc ?s2)(1 := Stored (Some 3))\<rparr>"
  have "push_step ?s0 ?s1" by (rule push_step.call) simp
  moreover have "push_step ?s1 ?s2" by (rule push_step.load) simp
  moreover have "push_step ?s2 ?s3" by (rule push_step.store) simp
  ultimately have r: "push_step\<^sup>*\<^sup>* ?s0 ?s3" by (meson rtranclp.rtrancl_into_rtrancl rtranclp.rtrancl_refl)
  obtain s4 where s4: "push_step\<^sup>*\<^sup>* ?s3 s4" "pc s4 2 = Done" "pc s4 1 \<noteq> Done"
    using push_finishes [of ?s3 2] by auto
  obtain s5 where s5: "push_step\<^sup>*\<^sup>* s4 s5" "pc s5 1 = Done" "pc s5 2 = Done"
    using push_finishes [OF s4(3)] s4(2) by auto
  have run: "push_step\<^sup>*\<^sup>* ?s0 s5" using r s4(1) s5(1) by (meson rtranclp_trans)
  have "chain (next_of ?s0) (queue ?s0) [3]" by (auto intro: chain.intros)
  moreover have "set [3] = {p. pc ?s0 p = Done}" "\<forall>p. pc ?s0 p = Done \<or> pc ?s0 p = Idle" by auto
  ultimately have "\<exists>new. chain (next_of s5) (queue s5) (new @ [3]) \<and> distinct (new @ [3]) \<and> set (new @ [3]) = {p. pc s5 p = Done}"
    using queue_push_safe [OF run, of "[3]"] by (simp only: distinct_singleton simp_thms)
  with run s5(2,3) show ?thesis by blast
qed

text \<open>
  C27. Pushing is free of locks: from every state a thread that is left alone completes its push,
  wherever the other threads have stopped.
\<close>

theorem queue_push_finishes:
  assumes "pc s p \<noteq> Done"
  shows "\<exists>s'. push_step\<^sup>*\<^sup>* s s' \<and> pc s' p = Done \<and> (\<forall>q. q \<noteq> p \<longrightarrow> pc s' q = pc s q)"
  using push_finishes [OF assms] .

theorem queue_push_finishes_witness:
  "\<exists>s'. push_step\<^sup>*\<^sup>* \<lparr>queue = Some 2, next_of = (\<lambda>_. None), pc = (\<lambda>_. Stored None)\<rparr> s' \<and> pc s' (1::nat) = Done"
  using queue_push_finishes [of "\<lparr>queue = Some 2, next_of = (\<lambda>_. None), pc = (\<lambda>_. Stored None)\<rparr>" "1::nat"] by auto

text \<open>
  C28. A turn of the backend thread whose connection stands completes exactly when the metrics of
  the queue can be sampled and their pairs sent. It then has sent the pairs of the metrics that are
  not disabled, in the order of the queue and stamped with the time of the turn, and has flushed; a
  turn without a connection samples nothing.
\<close>

theorem backend_turn_sends:
  assumes "op_connect ops c = Inr (c1, r)"
  shows "if r \<noteq> 0 then backend_thread_turn ops now self heap stats c = Inr (self, heap, stats, c1)
    else backend_thread_turn ops now self heap stats c = Inr (self', heap', stats', c') \<longleftrightarrow>
        self' = self\<lparr>be_tick_time := now\<rparr>
        \<and> (\<exists>es c2. collect (be_sample_freq self) (be_queue self) heap stats = Inr (es, heap', stats')
              \<and> send_all ops now es c1 = Inr c2
              \<and> (case op_flush ops of None \<Rightarrow> c' = c2 | Some fl \<Rightarrow> fl c2 = Inr c'))"
proof (cases "r = 0")
  case False
  with assms show ?thesis by (simp add: backend_thread_turn_def)
next
  case True
  let ?self = "self\<lparr>be_tick_time := now\<rparr>"
  have "backend_thread_turn ops now self heap stats c = rbind (sample_queue ops ?self (be_queue ?self) heap stats c1)
      (\<lambda>(heap, stats, c). case op_flush ops of None \<Rightarrow> Inr (?self, heap, stats, c)
        | Some flush \<Rightarrow> rbind (flush c) (\<lambda>c. Inr (?self, heap, stats, c)))"
    using assms True by (simp add: backend_thread_turn_def Let_def)
  then have "backend_thread_turn ops now self heap stats c = Inr (self', heap', stats', c') \<longleftrightarrow>
      (\<exists>c2. sample_queue ops ?self (be_queue ?self) heap stats c1 = Inr (heap', stats', c2)
        \<and> self' = ?self \<and> (case op_flush ops of None \<Rightarrow> c' = c2 | Some fl \<Rightarrow> fl c2 = Inr c'))"
    by (auto simp: rbind_Inr_iff split: option.splits)
  with True show ?thesis by (auto simp: sample_queue_iff)
qed

theorem backend_turn_sends_witness:
  "let m = \<lparr>m_key = ''g'', m_key_len = 1, m_type = MT_GAUGE, m_expire = 2, as_value = 5, as_previous = 0,
       as_histogram = histo_zero, as_other = False\<rparr>;
       ops = \<lparr>op_connect = (\<lambda>c. Inr (c, 0)), op_sample = (\<lambda>t k v c. Inr (c @ [(t, k, v)])), op_flush = None\<rparr>;
       st = \<lparr>stat_freq = 10, st_live = zero_stats, st_sample = zero_stats\<rparr>;
       be = \<lparr>be_type = BACKEND_CARBON, be_sample_freq = 10, be_shard_n = 0, be_tick_time = 0,
         be_queue = [(0, 0), (0, 32)]\<rparr>
   in \<exists>be' heap'. backend_thread_turn ops 7 be [(0, 0) \<mapsto> m, (0, 32) \<mapsto> m\<lparr>m_expire := 0\<rparr>] st [] =
        Inr (be', heap', st, [(7, ''g'', 5)]) \<and> be_tick_time be' = 7"
proof -
  let ?m = "\<lparr>m_key = ''g'', m_key_len = 1, m_type = MT_GAUGE, m_expire = 2, as_value = 5, as_previous = 0,
       as_histogram = histo_zero, as_other = False\<rparr>"
  let ?ops = "\<lparr>op_connect = (\<lambda>c. Inr (c, 0)), op_sample = (\<lambda>t k v c. Inr (c @ [(t, k, v)])), op_flush = None\<rparr>"
  let ?st = "\<lparr>stat_freq = 10, st_live = zero_stats, st_sample = zero_stats\<rparr>"
  let ?be = "\<lparr>be_type = BACKEND_CARBON, be_sample_freq = 10, be_shard_n = 0, be_tick_time = 0, be_queue = [(0, 0), (0, 32)]\<rparr>"
  let ?heap = "[(0, 0) \<mapsto> ?m, (0, 32) \<mapsto> ?m\<lparr>m_expire := 0\<rparr>]"
  have "collect 10 [(0, 0), (0, 32)] ?heap ?st = Inr ([(''g'', 5)], ?heap((0, 0) \<mapsto> ?m), ?st)"
    by (simp add: brubeck_metric_sample_def gauge_sample_def cstr_def)
  with backend_turn_sends [of ?ops "[]" "[]" 0 7 ?be ?heap ?st "?be\<lparr>be_tick_time := 7\<rparr>" "?heap((0, 0) \<mapsto> ?m)" ?st "[(7, ''g'', 5)]"]
  have t: "backend_thread_turn ?ops 7 ?be ?heap ?st [] =
      Inr (?be\<lparr>be_tick_time := 7\<rparr>, ?heap((0, 0) \<mapsto> ?m), ?st, [(7, ''g'', 5)])" by simp
  with t show ?thesis unfolding Let_def by (intro exI [of _ "?be\<lparr>be_tick_time := 7\<rparr>"] exI [of _ "?heap((0, 0) \<mapsto> ?m)"]) simp
qed

end
