(* ===== verification/Registry.thy ===== *)
theory Registry
  imports Backend City Hashtable
begin

text \<open>
  The registry of metrics (the second part of \<^verbatim>\<open>src/metric.c\<close> and \<^verbatim>\<open>brubeck_internal__init\<close>): creating
  a metric in slab memory, entering it in the hash table, choosing its backend, and finding it
  again. The state is the part of \<^verbatim>\<open>struct brubeck_server\<close> these functions touch, together with
  the memory that holds the metrics.
\<close>

section \<open>Model\<close>

record 'h brubeck_server =
  srv_name :: string
  srv_slab :: brubeck_slab
  srv_metrics :: 'h
  srv_heap :: metric_heap
  at_capacity :: bool
  srv_backends :: "brubeck_backend list"
  srv_stats :: brubeck_internal_stats

text \<open>\<^verbatim>\<open>sizeof(struct brubeck_metric)\<close>: two words and the union of two words, without the key.\<close>

abbreviation sizeof_metric :: nat where
  "sizeof_metric \<equiv> 32"

definition blank_metric :: "string \<Rightarrow> brubeck_metric_t \<Rightarrow> brubeck_metric" where
  "blank_metric key type =
     \<lparr>m_key = key, m_key_len = word_of_nat (length key), m_type = type,
      m_expire = BRUBECK_EXPIRE_ACTIVE, as_value = 0, as_previous = 0, as_histogram = histo_zero,
      as_other = False\<rparr>"

text \<open>
  \<^verbatim>\<open>new_metric\<close> writes the header, the key and its terminator into the block; what does not fit the
  page of the block is written past its end.
\<close>

definition new_metric :: "'h brubeck_server \<Rightarrow> string \<Rightarrow> brubeck_metric_t \<Rightarrow> (slab_ptr \<times> 'h brubeck_server) res" where
  "new_metric server key type =
     rbind (brubeck_slab_alloc (srv_slab server) (word_of_nat (sizeof_metric + length key + 1))) (\<lambda>(slab, metric).
       if snd metric + (sizeof_metric + length key + 1) \<le> heap_bytes
       then Inr (metric, server\<lparr>srv_slab := slab, srv_heap := (srv_heap server)(metric \<mapsto> blank_metric key type)\<rparr>)
       else Inl OutOfBounds)"

text \<open>
  The backend of a metric. With one backend or none the hash is not computed; with none, the
  pointer that is read is null.
\<close>

definition brubeck_metric_shard :: "'h brubeck_server \<Rightarrow> brubeck_metric \<Rightarrow> nat res" where
  "brubeck_metric_shard server metric =
     rbind (if length (srv_backends server) > 1
            then rbind (CityHash32 (m_key metric @ [NUL]) (ucast (m_key_len metric))) (\<lambda>h.
                   Inr (unat h mod length (srv_backends server)))
            else Inr 0) (\<lambda>shard.
       if shard < length (srv_backends server) then Inr shard else Inl NullPointer)"

definition register_metric :: "'h brubeck_server \<Rightarrow> nat \<Rightarrow> slab_ptr \<Rightarrow> 'h brubeck_server" where
  "register_metric server shard metric =
     server\<lparr>srv_backends := (srv_backends server)[shard :=
       brubeck_backend_register_metric (srv_backends server ! shard) metric]\<rparr>"

definition brubeck_metric_new ::
    "('h, slab_ptr) ck_ht \<Rightarrow> 'h brubeck_server \<Rightarrow> string \<Rightarrow> brubeck_metric_t \<Rightarrow> (slab_ptr option \<times> 'h brubeck_server) res" where
  "brubeck_metric_new ck server key type =
     rbind (new_metric server key type) (\<lambda>(metric, server).
       let m = blank_metric key type;
           (ht, ok) = brubeck_hashtable_insert ck (srv_metrics server) (m_key m) (m_key_len m) metric;
           server = server\<lparr>srv_metrics := ht\<rparr>
       in if \<not> ok then Inr (brubeck_hashtable_find ck ht key (word_of_nat (length key)), server)
          else rbind (brubeck_metric_shard server m) (\<lambda>shard.
                 let server = register_metric server shard metric
                 in Inr (Some metric, server\<lparr>srv_stats := brubeck_stats_inc UniqueKeys (srv_stats server)\<rparr>)))"

definition brubeck_metric_find ::
    "('h, slab_ptr) ck_ht \<Rightarrow> 'h brubeck_server \<Rightarrow> string \<Rightarrow> brubeck_metric_t \<Rightarrow> (slab_ptr option \<times> 'h brubeck_server) res" where
  "brubeck_metric_find ck server key type =
     (case brubeck_hashtable_find ck (srv_metrics server) key (word_of_nat (length key)) of
        None \<Rightarrow> if at_capacity server then Inr (None, server) else brubeck_metric_new ck server key type
      | Some metric \<Rightarrow>
          (case srv_heap server metric of
             None \<Rightarrow> Inl NullPointer
           | Some m \<Rightarrow> Inr (Some metric,
               server\<lparr>srv_heap := (srv_heap server)(metric \<mapsto> m\<lparr>m_expire := BRUBECK_EXPIRE_ACTIVE\<rparr>)\<rparr>)))"

definition brubeck_internal_init :: "('h, slab_ptr) ck_ht \<Rightarrow> 'h brubeck_server \<Rightarrow> 'h brubeck_server res" where
  "brubeck_internal_init ck server =
     rbind (brubeck_metric_new ck server (srv_name server) MT_INTERNAL_STATS) (\<lambda>(internal, server).
       case internal of
         None \<Rightarrow> Inl (Die ''Failed to initialize internal stats sampler'')
       | Some p \<Rightarrow>
           (case srv_heap server p of
              None \<Rightarrow> Inl NullPointer
            | Some m \<Rightarrow>
                let m = m\<lparr>as_other := True\<rparr>;
                    server = server\<lparr>srv_heap := (srv_heap server)(p \<mapsto> m)\<rparr>
                in rbind (brubeck_metric_shard server m) (\<lambda>shard.
                     Inr (server\<lparr>srv_stats := (srv_stats server)\<lparr>stat_freq := be_sample_freq (srv_backends server ! shard)\<rparr>\<rparr>))))"

section \<open>The invariant of the registry\<close>

definition queued :: "'h brubeck_server \<Rightarrow> slab_ptr list" where
  "queued s = concat (map be_queue (srv_backends s))"

text \<open>A well-formed metric, apart from the pointer of the internal one.\<close>

definition wf_metric :: "brubeck_metric \<Rightarrow> bool" where
  "wf_metric m \<longleftrightarrow> length (m_key m) = unat (m_key_len m) \<and> histo_ok (as_histogram m) \<and> m_expire m \<le> BRUBECK_EXPIRE_ACTIVE"

text \<open>
  Every key of the table leads to a metric with this key; the queues of the backends together hold
  each metric of the table once, each in the queue of its shard; the number of unique keys is
  the number of queued metrics; and the keys of the table fit 16 bits.
\<close>

definition registry_ok :: "('h, slab_ptr) ck_ht \<Rightarrow> ('h \<Rightarrow> bool) \<Rightarrow> 'h brubeck_server \<Rightarrow> bool" where
  "registry_ok ck tinv s \<longleftrightarrow>
     tinv (srv_metrics s) \<and> slab_inv (srv_slab s) \<and> srv_backends s \<noteq> [] \<and> dom (srv_heap s) \<subseteq> used (srv_slab s)
     \<and> (\<forall>k p. short_key k \<longrightarrow> find_str ck (srv_metrics s) k = Some p \<longrightarrow>
          (\<exists>m. srv_heap s p = Some m \<and> m_key m = k \<and> (\<exists>i. brubeck_metric_shard s m = Inr i \<and> p \<in> set (be_queue (srv_backends s ! i)))))
     \<and> (\<forall>p m. srv_heap s p = Some m \<longrightarrow> wf_metric m)
     \<and> distinct (queued s)
     \<and> (\<forall>p\<in>set (queued s). \<exists>k. short_key k \<and> find_str ck (srv_metrics s) k = Some p)
     \<and> n_unique_keys (st_live (srv_stats s)) = word_of_nat (length (queued s))
     \<and> (\<forall>kp\<in>set (ck_entries ck (srv_metrics s)). short_key (fst kp))"

section \<open>Creation and lookup\<close>

lemma blank_metric_simps [simp]:
  "m_key (blank_metric key t) = key" "m_type (blank_metric key t) = t"
  "m_expire (blank_metric key t) = BRUBECK_EXPIRE_ACTIVE" "m_key_len (blank_metric key t) = word_of_nat (length key)"
  by (simp_all add: blank_metric_def)

lemma wf_blank: "short_key key \<Longrightarrow> wf_metric (blank_metric key t)"
  by (simp add: wf_metric_def blank_metric_def short_key_def unat_of_nat histo_ok_def histo_zero_def)

lemma new_metric_fresh:
  assumes "slab_inv (srv_slab s)" "dom (srv_heap s) \<subseteq> used (srv_slab s)" "length key \<le> 4031"
  obtains p slab where
    "new_metric s key t = Inr (p, s\<lparr>srv_slab := slab, srv_heap := (srv_heap s)(p \<mapsto> blank_metric key t)\<rparr>)"
    "srv_heap s p = None" "slab_inv slab" "dom ((srv_heap s)(p \<mapsto> blank_metric key t)) \<subseteq> used slab"
proof -
  let ?n = "word_of_nat (sizeof_metric + length key + 1) :: u64"
  have n: "unat ?n = sizeof_metric + length key + 1" "unat ?n \<le> 4064"
    using assms(3) by (simp_all add: unat_of_nat del: of_nat_add of_nat_Suc)
  obtain slab p where a: "brubeck_slab_alloc (srv_slab s) ?n = Inr (slab, p)"
    using slab.alloc_total [OF assms(1) n(2)] by blast
  note u = slab_alloc_used [OF assms(1) n(2) a] and r = round_need_small [OF n(2)]
  have "p \<in> block p (unat (round_need ?n))" using r n by (cases p) (simp add: block_def)
  then have fresh: "srv_heap s p = None" "p \<in> used slab" using u assms(2) by auto
  have "snd p + (sizeof_metric + length key + 1) \<le> heap_bytes"
    using u r n by (simp add: heap_bytes_def)
  then have "new_metric s key t = Inr (p, s\<lparr>srv_slab := slab, srv_heap := (srv_heap s)(p \<mapsto> blank_metric key t)\<rparr>)"
    using a by (simp add: new_metric_def)
  moreover have "dom ((srv_heap s)(p \<mapsto> blank_metric key t)) \<subseteq> used slab" using fresh u assms(2) by auto
  ultimately show thesis using that fresh slab_alloc_inv [OF assms(1) n(2) a] by blast
qed

lemma shard_cong:
  "m_key m = m_key m' \<Longrightarrow> m_key_len m = m_key_len m' \<Longrightarrow> length (srv_backends s) = length (srv_backends s') \<Longrightarrow>
   brubeck_metric_shard s m = brubeck_metric_shard s' m'"
  by (simp add: brubeck_metric_shard_def)

lemma shard_total:
  assumes "srv_backends s \<noteq> []" "wf_metric m"
  shows "\<exists>i<length (srv_backends s). brubeck_metric_shard s m = Inr i"
proof -
  have len: "length (m_key m) < 2 ^ 64"
    using assms(2) unsigned_less [of "m_key_len m", where ?'a = nat] by (simp add: wf_metric_def)
  have "ucast (m_key_len m) = (word_of_nat (length (m_key m)) :: u64)"
    using assms(2) by (simp add: wf_metric_def)
  with CityHash32_prefix [OF len] obtain h where "CityHash32 (m_key m @ [NUL]) (ucast (m_key_len m)) = Inr h" by metis
  then show ?thesis using assms(1) by (auto simp: brubeck_metric_shard_def)
qed

lemma queued_register:
  assumes "i < length (srv_backends s)"
  shows "mset (queued (register_metric s i p)) = add_mset p (mset (queued s))"
    "set (be_queue (srv_backends (register_metric s i p) ! i)) = insert p (set (be_queue (srv_backends s ! i)))"
    "j \<noteq> i \<Longrightarrow> srv_backends (register_metric s i p) ! j = srv_backends s ! j"
    "length (srv_backends (register_metric s i p)) = length (srv_backends s)"
proof -
  let ?b = "srv_backends s" and ?v = "brubeck_backend_register_metric (srv_backends s ! i) p"
  have "queued s = concat (map be_queue (take i ?b)) @ be_queue (?b ! i) @ concat (map be_queue (drop (Suc i) ?b))"
    using arg_cong [OF id_take_nth_drop [OF assms], of "\<lambda>b. concat (map be_queue b)"] by (simp add: queued_def)
  moreover have "queued (register_metric s i p) =
      concat (map be_queue (take i ?b)) @ be_queue ?v @ concat (map be_queue (drop (Suc i) ?b))"
    using assms by (simp add: queued_def register_metric_def upd_conv_take_nth_drop)
  ultimately show "mset (queued (register_metric s i p)) = add_mset p (mset (queued s))"
    by (simp add: brubeck_backend_register_metric_def)
qed (use assms in \<open>simp_all add: register_metric_def brubeck_backend_register_metric_def\<close>)

lemma registry_okD:
  assumes "registry_ok ck tinv s"
  shows "tinv (srv_metrics s)" "slab_inv (srv_slab s)" "srv_backends s \<noteq> []" "dom (srv_heap s) \<subseteq> used (srv_slab s)"
    "\<And>p m. srv_heap s p = Some m \<Longrightarrow> wf_metric m" "distinct (queued s)"
    "\<And>p. p \<in> set (queued s) \<Longrightarrow> \<exists>k. short_key k \<and> find_str ck (srv_metrics s) k = Some p"
    "n_unique_keys (st_live (srv_stats s)) = word_of_nat (length (queued s))"
    "\<And>k p. short_key k \<Longrightarrow> find_str ck (srv_metrics s) k = Some p \<Longrightarrow>
       \<exists>m. srv_heap s p = Some m \<and> m_key m = k \<and> (\<exists>i. brubeck_metric_shard s m = Inr i \<and> p \<in> set (be_queue (srv_backends s ! i)))"
    "\<And>k p. (k, p) \<in> set (ck_entries ck (srv_metrics s)) \<Longrightarrow> short_key k"
  using assms unfolding registry_ok_def by (blast | fastforce)+

lemma metric_new_ok:
  assumes ck: "ck_table ck tinv" and ok: "registry_ok ck tinv s"
    and key: "length key \<le> 4031" "find_str ck (srv_metrics s) key = None"
  obtains p s' where "brubeck_metric_new ck s key t = Inr (Some p, s')" "registry_ok ck tinv s'"
    "srv_heap s p = None" "srv_heap s' = (srv_heap s)(p \<mapsto> blank_metric key t)"
    "\<forall>j. short_key j \<longrightarrow> find_str ck (srv_metrics s') j = (if j = key then Some p else find_str ck (srv_metrics s) j)"
    "srv_name s' = srv_name s" "length (srv_backends s') = length (srv_backends s)"
    "mset (queued s') = add_mset p (mset (queued s))" "at_capacity s' = at_capacity s"
    "srv_stats s' = brubeck_stats_inc UniqueKeys (srv_stats s)"
proof -
  note D = registry_okD [OF ok]
  have sk: "short_key key" using key(1) by (simp add: short_key_def)
  obtain p slab where p: "new_metric s key t = Inr (p, s\<lparr>srv_slab := slab, srv_heap := (srv_heap s)(p \<mapsto> blank_metric key t)\<rparr>)"
    "srv_heap s p = None" "slab_inv slab" "dom ((srv_heap s)(p \<mapsto> blank_metric key t)) \<subseteq> used slab"
    by (rule new_metric_fresh [OF D(2,4) key(1)])
  let ?m = "blank_metric key t"
  obtain ht okb where ins: "insert_str ck (srv_metrics s) key p = (ht, okb)" by force
  have okb: okb using ck_table.insert_find_str(2) [OF ck D(1) sk sk ins] key(2) by simp
  have ht: "tinv ht" using ck_table.insert_find_str(1) [OF ck D(1) sk sk ins] .
  have find: "find_str ck ht j = (if j = key then Some p else find_str ck (srv_metrics s) j)" if "short_key j" for j
    using ck_table.insert_find_str(3) [OF ck D(1) sk that ins] okb by simp
  have short: "short_key k" if "(k, v) \<in> set (ck_entries ck ht)" for k v
  proof -
    have "set (ck_entries ck ht) = insert (key, p) (set (ck_entries ck (srv_metrics s)))"
      using ck_table.put_absent [OF ck D(1), of key p] ins key(2) by (simp add: short_str [OF sk])
    with that sk D(10) [of k v] show ?thesis by (auto simp del: split_paired_All)
  qed
  let ?s1 = "s\<lparr>srv_slab := slab, srv_heap := (srv_heap s)(p \<mapsto> ?m), srv_metrics := ht\<rparr>"
  obtain i where i: "i < length (srv_backends s)" "brubeck_metric_shard ?s1 ?m = Inr i"
    using shard_total [of ?s1 ?m] wf_blank [OF sk] D(3) by auto
  let ?s2 = "register_metric ?s1 i p"
  define s' where "s' = ?s2\<lparr>srv_stats := brubeck_stats_inc UniqueKeys (srv_stats ?s2)\<rparr>"
  have q: "mset (queued s') = add_mset p (mset (queued s))"
    "set (be_queue (srv_backends s' ! i)) = insert p (set (be_queue (srv_backends s ! i)))"
    "\<And>j. j \<noteq> i \<Longrightarrow> srv_backends s' ! j = srv_backends s ! j"
    "length (srv_backends s') = length (srv_backends s)"
    using queued_register [of i ?s1] i(1) by (simp_all add: s'_def queued_def)
  have f: "srv_slab s' = slab" "srv_heap s' = (srv_heap s)(p \<mapsto> ?m)" "srv_metrics s' = ht" "srv_name s' = srv_name s"
    "at_capacity s' = at_capacity s" "srv_stats s' = brubeck_stats_inc UniqueKeys (srv_stats s)"
    by (simp_all add: s'_def register_metric_def)
  have new: "brubeck_metric_new ck s key t = Inr (Some p, s')"
    using p(1) ins okb i(2) by (simp add: brubeck_metric_new_def insert_str_def Let_def s'_def)
  have pq: "p \<notin> set (queued s)" using D(7) D(9) p(2) by fastforce
  have sh: "brubeck_metric_shard s' m = brubeck_metric_shard s m" for m
    using q(4) by (intro shard_cong) simp_all
  have reg: "\<exists>m. srv_heap s' r = Some m \<and> m_key m = k \<and> (\<exists>i. brubeck_metric_shard s' m = Inr i \<and> r \<in> set (be_queue (srv_backends s' ! i)))"
    if "short_key k" "find_str ck (srv_metrics s') k = Some r" for k r
  proof (cases "k = key")
    case True
    have "brubeck_metric_shard s' ?m = Inr i" using i(2) shard_cong [of ?m ?m ?s1 s'] q(4) by simp
    moreover have "r = p" using that find f(3) True by simp
    ultimately show ?thesis using True f(2) q(2) by simp
  next
    case False
    with that find f obtain m j where m: "srv_heap s r = Some m" "m_key m = k" "brubeck_metric_shard s m = Inr j"
      "r \<in> set (be_queue (srv_backends s ! j))" using D(9) by fastforce
    moreover have "r \<noteq> p" using m(1) p(2) by auto
    moreover have "r \<in> set (be_queue (srv_backends s' ! j))" using m(4) q(2,3) by (cases "j = i") auto
    ultimately show ?thesis using f sh by auto
  qed
  have "registry_ok ck tinv s'"
    unfolding registry_ok_def
  proof (intro conjI allI impI ballI)
    show "distinct (queued s')" using q(1) D(6) pq by (metis distinct_count_atmost_1 mset_eq_imp_distinct_iff distinct.simps(2) mset.simps(2) set_mset_mset)
    show "\<exists>k. short_key k \<and> find_str ck (srv_metrics s') k = Some r" if "r \<in> set (queued s')" for r
    proof -
      have "r = p \<or> r \<in> set (queued s)" using that q(1) by (metis insert_iff set_mset_add_mset_insert set_mset_mset)
      then show ?thesis using D(7) find f(3) sk key(2) by (metis option.distinct(1))
    qed
    show "n_unique_keys (st_live (srv_stats s')) = word_of_nat (length (queued s'))"
    proof -
      have "length (queued s') = Suc (length (queued s))" using q(1) by (metis size_add_mset size_mset)
      moreover have "n_unique_keys (st_live (srv_stats s')) = n_unique_keys (st_live (srv_stats s)) + 1"
        using live_inc [of UniqueKeys UniqueKeys "srv_stats s"] by (simp add: s'_def get_stat.simps register_metric_def)
      ultimately show ?thesis using D(8) by simp
    qed
  qed (use ht p D(3,5) f q(4) reg wf_blank [OF sk] short in \<open>auto split: if_splits\<close>)
  with that [OF new _ p(2) f(2)] f find q(1,4) show thesis by simp
qed

text \<open>What a lookup that returns \<open>p\<close> does to the server.\<close>

definition find_spec :: "('h, slab_ptr) ck_ht \<Rightarrow> ('h \<Rightarrow> bool) \<Rightarrow> 'h brubeck_server \<Rightarrow> string \<Rightarrow> brubeck_metric_t \<Rightarrow>
    slab_ptr \<Rightarrow> 'h brubeck_server \<Rightarrow> bool" where
  "find_spec ck tinv s key t p s' \<longleftrightarrow> registry_ok ck tinv s' \<and> at_capacity s' = at_capacity s
     \<and> (\<forall>j. short_key j \<longrightarrow> find_str ck (srv_metrics s') j = (if j = key then Some p else find_str ck (srv_metrics s) j))
     \<and> (\<forall>q. q \<noteq> p \<longrightarrow> srv_heap s' q = srv_heap s q)
     \<and> (case find_str ck (srv_metrics s) key of
          Some q \<Rightarrow> p = q \<and> queued s' = queued s \<and> srv_stats s' = srv_stats s
            \<and> (\<exists>m. srv_heap s q = Some m \<and> srv_heap s' q = Some (m\<lparr>m_expire := BRUBECK_EXPIRE_ACTIVE\<rparr>))
        | None \<Rightarrow> srv_heap s p = None \<and> srv_heap s' p = Some (blank_metric key t)
            \<and> mset (queued s') = add_mset p (mset (queued s)) \<and> srv_stats s' = brubeck_stats_inc UniqueKeys (srv_stats s))"

text \<open>Marking a metric as active.\<close>

definition touch :: "'h brubeck_server \<Rightarrow> slab_ptr \<Rightarrow> brubeck_metric \<Rightarrow> 'h brubeck_server" where
  "touch s p m = s\<lparr>srv_heap := (srv_heap s)(p \<mapsto> m\<lparr>m_expire := BRUBECK_EXPIRE_ACTIVE\<rparr>)\<rparr>"

text \<open>Replacing a metric by one with the same key keeps the registry consistent.\<close>

definition put_metric :: "'h brubeck_server \<Rightarrow> slab_ptr \<Rightarrow> brubeck_metric \<Rightarrow> 'h brubeck_server" where
  "put_metric s p m = s\<lparr>srv_heap := (srv_heap s)(p \<mapsto> m)\<rparr>"

lemma put_metric_simps [simp]:
  "srv_metrics (put_metric s p m) = srv_metrics s" "srv_backends (put_metric s p m) = srv_backends s"
  "srv_slab (put_metric s p m) = srv_slab s" "srv_stats (put_metric s p m) = srv_stats s"
  "at_capacity (put_metric s p m) = at_capacity s" "srv_name (put_metric s p m) = srv_name s"
  "srv_heap (put_metric s p m) = (srv_heap s)(p \<mapsto> m)"
  by (simp_all add: put_metric_def)

text \<open>A change of the metrics that keeps their keys and well-formedness keeps the registry consistent.\<close>

definition keeps :: "brubeck_metric \<Rightarrow> brubeck_metric \<Rightarrow> bool" where
  "keeps m m' \<longleftrightarrow> m_key m' = m_key m \<and> m_key_len m' = m_key_len m \<and> (wf_metric m \<longrightarrow> wf_metric m')"

definition same_keys :: "metric_heap \<Rightarrow> metric_heap \<Rightarrow> bool" where
  "same_keys h h' \<longleftrightarrow> (\<forall>p. rel_option keeps (h p) (h' p))"

lemma keeps_refl [simp]: "keeps m m"
  by (simp add: keeps_def)

lemma same_keys_refl [simp]: "same_keys h h"
  by (simp add: same_keys_def option.rel_refl)

lemma same_keys_trans: "same_keys h h' \<Longrightarrow> same_keys h' h'' \<Longrightarrow> same_keys h h''"
  unfolding same_keys_def
proof
  fix p assume "\<forall>p. rel_option keeps (h p) (h' p)" "\<forall>p. rel_option keeps (h' p) (h'' p)"
  then have "rel_option keeps (h p) (h' p)" "rel_option keeps (h' p) (h'' p)" by blast+
  then show "rel_option keeps (h p) (h'' p)" by (cases "h p"; cases "h' p"; cases "h'' p") (auto simp: keeps_def)
qed

lemma same_keys_upd: "h p = Some m \<Longrightarrow> keeps m m1 \<Longrightarrow> same_keys h (h(p \<mapsto> m1))"
  by (simp add: same_keys_def option.rel_refl)

lemma same_keysD: "same_keys h h' \<Longrightarrow> h p = Some m \<Longrightarrow> \<exists>m'. h' p = Some m' \<and> keeps m m'"
  "same_keys h h' \<Longrightarrow> h' p = Some m' \<Longrightarrow> \<exists>m. h p = Some m \<and> keeps m m'"
  unfolding same_keys_def by (metis option_rel_Some1, metis option_rel_Some2)

lemma heap_ok:
  assumes ok: "registry_ok ck tinv s" and h: "same_keys (srv_heap s) heap"
  shows "registry_ok ck tinv (s\<lparr>srv_heap := heap\<rparr>)"
proof -
  note D = registry_okD [OF ok]
  let ?s = "s\<lparr>srv_heap := heap\<rparr>"
  have sh: "m_key m' = m_key m'' \<Longrightarrow> m_key_len m' = m_key_len m'' \<Longrightarrow>
      brubeck_metric_shard ?s m' = brubeck_metric_shard s m''" for m' m''
    by (rule shard_cong) simp_all
  have reg: "\<exists>m'. heap q = Some m' \<and> m_key m' = k
      \<and> (\<exists>i. brubeck_metric_shard ?s m' = Inr i \<and> q \<in> set (be_queue (srv_backends s ! i)))"
    if "short_key k" "find_str ck (srv_metrics s) k = Some q" for k q
  proof -
    from D(9) [OF that] obtain m i where q: "srv_heap s q = Some m" "m_key m = k" "brubeck_metric_shard s m = Inr i"
      "q \<in> set (be_queue (srv_backends s ! i))" by blast
    from same_keysD(1) [OF h q(1)] obtain m' where "heap q = Some m'" "keeps m m'" by blast
    with q sh [of m' m] show ?thesis by (auto simp: keeps_def)
  qed
  have wf: "wf_metric m'" if "heap q = Some m'" for q m'
    using same_keysD(2) [OF h that] D(5) [of q] unfolding keeps_def by blast
  have f: "queued ?s = queued s" "srv_heap ?s = heap" "srv_metrics ?s = srv_metrics s" "srv_slab ?s = srv_slab s"
    "srv_backends ?s = srv_backends s" "srv_stats ?s = srv_stats s" by (simp_all add: queued_def)
  have "dom heap = dom (srv_heap s)"
  proof (rule set_eqI)
    fix p show "p \<in> dom heap \<longleftrightarrow> p \<in> dom (srv_heap s)"
      using same_keysD(1) [OF h, of p] same_keysD(2) [OF h, of p] by (auto simp: dom_def simp del: split_paired_Ex)
  qed
  then show ?thesis
    using ok reg wf unfolding registry_ok_def f by (elim conjE) (intro conjI allI impI; blast)
qed

lemma put_ok:
  assumes "registry_ok ck tinv s" "srv_heap s p = Some m" "m_key m1 = m_key m" "m_key_len m1 = m_key_len m" "wf_metric m1"
  shows "registry_ok ck tinv (put_metric s p m1)"
  unfolding put_metric_def
  by (rule heap_ok [OF assms(1)], rule same_keys_upd [where m = m]) (use assms(2-5) in \<open>simp_all add: keeps_def\<close>)

lemma touch_ok:
  assumes "registry_ok ck tinv s" "srv_heap s p = Some m"
  shows "registry_ok ck tinv (touch s p m)"
  using put_ok [OF assms, of "m\<lparr>m_expire := BRUBECK_EXPIRE_ACTIVE\<rparr>"] registry_okD(5) [OF assms]
  by (simp add: put_metric_def touch_def wf_metric_def)

text \<open>Counting an event other than a new key leaves the registry alone.\<close>

lemma inc_ok:
  assumes "registry_ok ck tinv s" "st \<noteq> UniqueKeys"
  shows "registry_ok ck tinv (s\<lparr>srv_stats := brubeck_stats_inc st (srv_stats s)\<rparr>)"
proof -
  have "get_stat UniqueKeys (st_live (brubeck_stats_inc st (srv_stats s))) = get_stat UniqueKeys (st_live (srv_stats s))"
    using assms(2) by simp
  moreover have "brubeck_metric_shard (s\<lparr>srv_stats := x\<rparr>) = brubeck_metric_shard s" for x
    by (rule ext) (simp add: brubeck_metric_shard_def)
  ultimately show ?thesis using assms(1) by (simp add: registry_ok_def queued_def get_stat.simps)
qed

lemma freq_ok:
  assumes "registry_ok ck tinv s"
  shows "registry_ok ck tinv (s\<lparr>srv_stats := (srv_stats s)\<lparr>stat_freq := f\<rparr>\<rparr>)"
proof -
  have "brubeck_metric_shard (s\<lparr>srv_stats := x\<rparr>) = brubeck_metric_shard s" for x
    by (rule ext) (simp add: brubeck_metric_shard_def)
  with assms show ?thesis by (simp add: registry_ok_def queued_def)
qed

lemma metric_find_ok:
  assumes ck: "ck_table ck tinv" and ok: "registry_ok ck tinv s" and cap: "\<not> at_capacity s"
    and key: "length key \<le> 4031"
  shows "\<exists>p s'. brubeck_metric_find ck s key t = Inr (Some p, s') \<and> find_spec ck tinv s key t p s'"
proof (cases "find_str ck (srv_metrics s) key")
  case None
  obtain p s' where n: "brubeck_metric_new ck s key t = Inr (Some p, s')" "registry_ok ck tinv s'"
    "srv_heap s p = None" "srv_heap s' = (srv_heap s)(p \<mapsto> blank_metric key t)"
    "\<forall>j. short_key j \<longrightarrow> find_str ck (srv_metrics s') j = (if j = key then Some p else find_str ck (srv_metrics s) j)"
    "srv_name s' = srv_name s" "length (srv_backends s') = length (srv_backends s)"
    "mset (queued s') = add_mset p (mset (queued s))" "at_capacity s' = at_capacity s"
    "srv_stats s' = brubeck_stats_inc UniqueKeys (srv_stats s)"
    by (rule metric_new_ok [OF ck ok key None, of t])
  have "find_spec ck tinv s key t p s'"
    unfolding find_spec_def None option.case n(4) using n(2,3,5,8-10) by simp
  moreover have "brubeck_metric_find ck s key t = brubeck_metric_new ck s key t"
    using None cap by (simp add: brubeck_metric_find_def find_str_def)
  ultimately show ?thesis using n(1) by auto
next
  case (Some p)
  have "short_key key" using key by (simp add: short_key_def)
  from registry_okD(9) [OF ok this Some] obtain m where m: "srv_heap s p = Some m" by blast
  let ?s = "touch s p m"
  have "find_spec ck tinv s key t p ?s"
    unfolding find_spec_def Some option.case using Some m touch_ok [OF ok m] by (simp add: touch_def queued_def)
  moreover have "brubeck_metric_find ck s key t = Inr (Some p, ?s)"
    using Some m by (simp add: brubeck_metric_find_def find_str_def touch_def)
  ultimately show ?thesis by blast
qed

text \<open>The registered keys, and their number.\<close>

definition keys_of :: "('h, slab_ptr) ck_ht \<Rightarrow> 'h brubeck_server \<Rightarrow> string set" where
  "keys_of ck s = {k. short_key k \<and> find_str ck (srv_metrics s) k \<noteq> None}"

lemma in_keys: "k \<in> keys_of ck s \<longleftrightarrow> short_key k \<and> find_str ck (srv_metrics s) k \<noteq> None"
  by (simp add: keys_of_def)

lemma registry_count:
  assumes "registry_ok ck tinv s"
  shows "length (queued s) = card (keys_of ck s)"
proof -
  note D = registry_okD [OF assms]
  have "bij_betw (\<lambda>k. the (find_str ck (srv_metrics s) k)) (keys_of ck s) (set (queued s))"
    unfolding bij_betw_def
  proof
    show "inj_on (\<lambda>k. the (find_str ck (srv_metrics s) k)) (keys_of ck s)"
    proof (rule inj_onI)
      fix k j assume kj: "k \<in> keys_of ck s" "j \<in> keys_of ck s"
        "the (find_str ck (srv_metrics s) k) = the (find_str ck (srv_metrics s) j)"
      then obtain p where p: "find_str ck (srv_metrics s) k = Some p" "find_str ck (srv_metrics s) j = Some p"
        "short_key k" "short_key j" by (auto simp: keys_of_def)
      from D(9) [OF p(3,1)] D(9) [OF p(4,2)] show "k = j" by auto
    qed
    have "p \<in> set (queued s)" if "short_key k" "find_str ck (srv_metrics s) k = Some p" for k p
    proof -
      from D(9) [OF that] obtain m i where "brubeck_metric_shard s m = Inr i" "p \<in> set (be_queue (srv_backends s ! i))" by blast
      moreover from this have "i < length (srv_backends s)"
        by (auto simp: brubeck_metric_shard_def rbind_Inr_iff split: if_splits)
      ultimately show ?thesis by (force simp: queued_def)
    qed
    then show "(\<lambda>k. the (find_str ck (srv_metrics s) k)) ` keys_of ck s = set (queued s)"
      using D(7) by (force simp: keys_of_def)
  qed
  then have "card (keys_of ck s) = card (set (queued s))" by (rule bij_betw_same_card)
  with D(6) show ?thesis by (simp add: distinct_card)
qed

text \<open>A run of lookups, as the samplers make them.\<close>

fun find_all :: "('h, slab_ptr) ck_ht \<Rightarrow> 'h brubeck_server \<Rightarrow> (string \<times> brubeck_metric_t) list \<Rightarrow> 'h brubeck_server res" where
  "find_all ck s [] = Inr s"
| "find_all ck s ((key, t) # rest) = rbind (brubeck_metric_find ck s key t) (\<lambda>(p, s). find_all ck s rest)"

lemma find_all_ok:
  assumes "ck_table ck tinv" "registry_ok ck tinv s" "\<not> at_capacity s" "\<forall>(k, t)\<in>set xs. length k \<le> 4031"
  shows "\<exists>s'. find_all ck s xs = Inr s' \<and> registry_ok ck tinv s' \<and> keys_of ck s' = keys_of ck s \<union> fst ` set xs
    \<and> (\<forall>k\<in>keys_of ck s'. \<exists>p m. find_str ck (srv_metrics s') k = Some p \<and> srv_heap s' p = Some m
          \<and> (case find_str ck (srv_metrics s) k of
               Some q \<Rightarrow> q = p \<and> map_option m_type (srv_heap s p) = Some (m_type m)
             | None \<Rightarrow> map_of xs k = Some (m_type m)))"
  using assms(2-4)
proof (induction xs arbitrary: s)
  case Nil
  have "\<exists>p m. find_str ck (srv_metrics s) k = Some p \<and> srv_heap s p = Some m" if "k \<in> keys_of ck s" for k
    using registry_okD(9) [OF Nil(1)] that by (fastforce simp: keys_of_def)
  with Nil show ?case by fastforce
next
  case (Cons x xs)
  obtain key t where x: "x = (key, t)" by force
  have key: "length key \<le> 4031" "short_key key" using Cons.prems by (auto simp: x short_key_def)
  obtain p s1 where f: "brubeck_metric_find ck s key t = Inr (Some p, s1)" "find_spec ck tinv s key t p s1"
    using metric_find_ok [OF assms(1) Cons.prems(1,2) key(1)] by blast
  have p: "brubeck_metric_find ck s key t = Inr (Some p, s1)" "registry_ok ck tinv s1"
    "\<And>j. short_key j \<Longrightarrow> find_str ck (srv_metrics s1) j = (if j = key then Some p else find_str ck (srv_metrics s) j)"
    "\<And>q. q \<noteq> p \<Longrightarrow> srv_heap s1 q = srv_heap s q" "at_capacity s1 = at_capacity s"
    "case find_str ck (srv_metrics s) key of
       Some q \<Rightarrow> p = q \<and> queued s1 = queued s \<and> srv_stats s1 = srv_stats s
         \<and> (\<exists>m. srv_heap s q = Some m \<and> srv_heap s1 q = Some (m\<lparr>m_expire := BRUBECK_EXPIRE_ACTIVE\<rparr>))
     | None \<Rightarrow> srv_heap s p = None \<and> srv_heap s1 p = Some (blank_metric key t)
         \<and> mset (queued s1) = add_mset p (mset (queued s)) \<and> srv_stats s1 = brubeck_stats_inc UniqueKeys (srv_stats s)"
    using f unfolding find_spec_def by blast+
  have keys: "keys_of ck s1 = insert key (keys_of ck s)"
    using p(3) key(2) by (auto simp: keys_of_def split: if_splits)
  from Cons.IH [of s1] p(2,5) Cons.prems obtain s' where
    s': "find_all ck s1 xs = Inr s'" "registry_ok ck tinv s'" "keys_of ck s' = keys_of ck s1 \<union> fst ` set xs"
    "\<forall>k\<in>keys_of ck s'. \<exists>p m. find_str ck (srv_metrics s') k = Some p \<and> srv_heap s' p = Some m
          \<and> (case find_str ck (srv_metrics s1) k of
               Some q \<Rightarrow> q = p \<and> map_option m_type (srv_heap s1 p) = Some (m_type m)
             | None \<Rightarrow> map_of xs k = Some (m_type m))" by auto
  have "\<exists>r m. find_str ck (srv_metrics s') k = Some r \<and> srv_heap s' r = Some m
      \<and> (case find_str ck (srv_metrics s) k of
           Some q \<Rightarrow> q = r \<and> map_option m_type (srv_heap s r) = Some (m_type m)
         | None \<Rightarrow> map_of (x # xs) k = Some (m_type m))" if "k \<in> keys_of ck s'" for k
  proof -
    have k: "short_key k" using that by (simp add: keys_of_def)
    from s'(4) that obtain r m where r: "find_str ck (srv_metrics s') k = Some r" "srv_heap s' r = Some m"
      "case find_str ck (srv_metrics s1) k of Some q \<Rightarrow> q = r \<and> map_option m_type (srv_heap s1 r) = Some (m_type m)
       | None \<Rightarrow> map_of xs k = Some (m_type m)" by blast
    show ?thesis
    proof (cases "k = key")
      case True
      with r(3) p(3) [OF k] have "r = p" "map_option m_type (srv_heap s1 p) = Some (m_type m)" by auto
      with True r p(6) show ?thesis by (auto simp: x split: option.splits)
    next
      case False
      have "q \<noteq> p" if "find_str ck (srv_metrics s) k = Some q" for q
        using registry_okD(9) [OF p(2) k, of q] registry_okD(9) [OF p(2) key(2), of p] p(3) [OF k] p(3) [OF key(2)] that False by force
      with False r p(3) [OF k] p(4) show ?thesis by (auto simp: x split: option.splits)
    qed
  qed
  with s' p(1) keys x show ?case by auto
qed

text \<open>The internal metric is registered and marked, and the period of its backend copied.\<close>

lemma internal_init_total:
  assumes "ck_table ck tinv" "registry_ok ck tinv s" "find_str ck (srv_metrics s) (srv_name s) = None" "length (srv_name s) \<le> 4031"
  obtains s' p m be where "brubeck_internal_init ck s = Inr s'" "registry_ok ck tinv s'"
    "\<forall>j. short_key j \<longrightarrow> find_str ck (srv_metrics s') j = (if j = srv_name s then Some p else find_str ck (srv_metrics s) j)"
    "srv_heap s' p = Some m" "metric_ok m" "m_type m = MT_INTERNAL_STATS" "m_expire m = BRUBECK_EXPIRE_ACTIVE"
    "be \<in> set (srv_backends s')" "stat_freq (srv_stats s') = be_sample_freq be"
    "srv_name s' = srv_name s" "length (srv_backends s') = length (srv_backends s)" "at_capacity s' = at_capacity s"
    "srv_heap s' = (srv_heap s)(p \<mapsto> m)"
proof -
  have sk: "short_key (srv_name s)" using assms(4) by (simp add: short_key_def)
  obtain p s1 where p: "brubeck_metric_new ck s (srv_name s) MT_INTERNAL_STATS = Inr (Some p, s1)" "registry_ok ck tinv s1"
    "srv_heap s1 = (srv_heap s)(p \<mapsto> blank_metric (srv_name s) MT_INTERNAL_STATS)"
    "\<forall>j. short_key j \<longrightarrow> find_str ck (srv_metrics s1) j = (if j = srv_name s then Some p else find_str ck (srv_metrics s) j)"
    "srv_name s1 = srv_name s" "length (srv_backends s1) = length (srv_backends s)" "at_capacity s1 = at_capacity s"
    by (rule metric_new_ok [OF assms(1,2,4,3), of MT_INTERNAL_STATS]) blast
  let ?b = "blank_metric (srv_name s) MT_INTERNAL_STATS" and ?m = "(blank_metric (srv_name s) MT_INTERNAL_STATS)\<lparr>as_other := True\<rparr>"
  let ?s2 = "put_metric s1 p ?m"
  have wf: "wf_metric ?m" using wf_blank [OF sk] by (simp add: wf_metric_def)
  have r2: "registry_ok ck tinv ?s2" by (rule put_ok [OF p(2), of p ?b]) (use p(3) wf in simp_all)
  obtain i where i: "i < length (srv_backends s1)" "brubeck_metric_shard ?s2 ?m = Inr i"
    using shard_total [of ?s2 ?m] wf registry_okD(3) [OF p(2)] by auto
  let ?s' = "?s2\<lparr>srv_stats := (srv_stats ?s2)\<lparr>stat_freq := be_sample_freq (srv_backends ?s2 ! i)\<rparr>\<rparr>"
  have run: "brubeck_internal_init ck s = Inr ?s'"
    using p(1,3) i by (simp add: brubeck_internal_init_def Let_def put_metric_def)
  have "registry_ok ck tinv ?s'" using freq_ok [OF r2] by simp
  moreover have "metric_ok ?m" using wf by (simp add: metric_ok_def wf_metric_def)
  ultimately show thesis using that [OF run, of p ?m "srv_backends s1 ! i"] p(3-7) i(1) by simp
qed

lemma metric_new_name:
  assumes "brubeck_metric_new ck s k t = Inr (r, s')"
  shows "srv_name s' = srv_name s"
proof -
  from assms obtain p s1 where p: "new_metric s k t = Inr (p, s1)" unfolding brubeck_metric_new_def rbind_Inr_iff by auto
  then have "srv_name s1 = srv_name s" unfolding new_metric_def rbind_Inr_iff by (auto split: if_splits)
  moreover obtain ht okb where "brubeck_hashtable_insert ck (srv_metrics s1) k (word_of_nat (length k)) p = (ht, okb)" by force
  ultimately show ?thesis
    using assms p unfolding brubeck_metric_new_def by (auto simp: Let_def rbind_Inr_iff register_metric_def split: if_splits)
qed

lemma internal_init_name:
  assumes "brubeck_internal_init ck s = Inr s'"
  shows "srv_name s' = srv_name s"
proof -
  from assms obtain r s1 where r: "brubeck_metric_new ck s (srv_name s) MT_INTERNAL_STATS = Inr (r, s1)"
    unfolding brubeck_internal_init_def rbind_Inr_iff by auto
  from assms obtain p m where "r = Some p" "srv_heap s1 p = Some m"
    unfolding brubeck_internal_init_def r by (auto split: option.splits)
  with assms metric_new_name [OF r] show ?thesis
    unfolding brubeck_internal_init_def r by (auto simp: Let_def rbind_Inr_iff)
qed

text \<open>Without a backend the internal metric has none, and a null pointer is read.\<close>

lemma internal_init_no_backend:
  assumes "ck_table ck tinv" "tinv (srv_metrics s)" "slab_inv (srv_slab s)" "dom (srv_heap s) \<subseteq> used (srv_slab s)"
    "srv_backends s = []" "find_str ck (srv_metrics s) (srv_name s) = None" "length (srv_name s) \<le> 4031"
  shows "brubeck_internal_init ck s = Inl NullPointer"
proof -
  have sk: "short_key (srv_name s)" using assms(7) by (simp add: short_key_def)
  obtain q slab where q: "new_metric s (srv_name s) MT_INTERNAL_STATS
      = Inr (q, s\<lparr>srv_slab := slab, srv_heap := (srv_heap s)(q \<mapsto> blank_metric (srv_name s) MT_INTERNAL_STATS)\<rparr>)"
    by (rule new_metric_fresh [OF assms(3,4,7)])
  obtain ht okb where ins: "insert_str ck (srv_metrics s) (srv_name s) q = (ht, okb)" by force
  have okb using ck_table.insert_find_str(2) [OF assms(1,2) sk sk ins] assms(6) by simp
  with q ins assms(5) show ?thesis
    by (simp add: brubeck_internal_init_def brubeck_metric_new_def insert_str_def Let_def brubeck_metric_shard_def)
qed

section \<open>Properties\<close>

text \<open>
  C24. Looking a key up creates its metric exactly once. An existing metric is returned as it is,
  whatever kind is asked for, and becomes active again; a new one is of the kind asked for,
  zeroed, queued at the backend of its shard and counted. The registry stays consistent and no
  other metric is touched.
\<close>

theorem metric_find_registers:
  assumes "ck_table ck tinv" "registry_ok ck tinv s" "\<not> at_capacity s" "length key \<le> 4031"
  shows "\<exists>p s'. brubeck_metric_find ck s key t = Inr (Some p, s') \<and> registry_ok ck tinv s'
    \<and> find_str ck (srv_metrics s') key = Some p \<and> (\<forall>q. q \<noteq> p \<longrightarrow> srv_heap s' q = srv_heap s q)
    \<and> (case find_str ck (srv_metrics s) key of
         Some q \<Rightarrow> p = q \<and> queued s' = queued s \<and> srv_stats s' = srv_stats s
           \<and> (\<exists>m. srv_heap s q = Some m \<and> srv_heap s' q = Some (m\<lparr>m_expire := BRUBECK_EXPIRE_ACTIVE\<rparr>))
       | None \<Rightarrow> srv_heap s p = None \<and> srv_heap s' p = Some (blank_metric key t)
           \<and> mset (queued s') = add_mset p (mset (queued s)) \<and> srv_stats s' = brubeck_stats_inc UniqueKeys (srv_stats s))"
proof -
  have "short_key key" using assms(4) by (simp add: short_key_def)
  moreover obtain p s' where f: "brubeck_metric_find ck s key t = Inr (Some p, s')" "find_spec ck tinv s key t p s'"
    using metric_find_ok [OF assms] by blast
  ultimately have "find_str ck (srv_metrics s') key = Some p" by (simp add: find_spec_def)
  with f show ?thesis unfolding find_spec_def by blast
qed

definition one_backend :: "string \<Rightarrow> (string \<times> slab_ptr) list brubeck_server" where
  "one_backend name = \<lparr>srv_name = name, srv_slab = brubeck_slab_init \<lparr>current = [], total_alloc = 0\<rparr>, srv_metrics = [],
     srv_heap = Map.empty, at_capacity = False,
     srv_backends = [\<lparr>be_type = BACKEND_CARBON, be_sample_freq = 10, be_shard_n = 0, be_tick_time = 0, be_queue = []\<rparr>],
     srv_stats = \<lparr>stat_freq = 0, st_live = zero_stats, st_sample = zero_stats\<rparr>\<rparr>"

lemma one_backend_ok: "registry_ok list_ck list_inv (one_backend name)"
  by (auto simp: registry_ok_def one_backend_def list_inv_def slab_init_inv queued_def zero_stats_def
      find_str_def brubeck_hashtable_find_def list_ck_def)

theorem metric_find_registers_witness:
  "\<exists>p s'. brubeck_metric_find list_ck (one_backend ''brubeck'') ''gorets'' MT_METER = Inr (Some p, s')
     \<and> srv_heap s' p = Some (blank_metric ''gorets'' MT_METER)"
proof -
  have "find_str list_ck (srv_metrics (one_backend ''brubeck'')) ''gorets'' = None"
    by (simp add: one_backend_def find_str_def brubeck_hashtable_find_def list_ck_def)
  with metric_find_registers [OF list_table.ck_table_axioms one_backend_ok, of "''brubeck''" "''gorets''" MT_METER]
  show ?thesis by (auto simp: one_backend_def)
qed

text \<open>
  C25. After any run of lookups on a fresh registry the unique-key counter is the number of
  different keys (modulo \<open>2^32\<close>), every key has its metric, and the kind of a metric is the one its
  key was first looked up with.
\<close>

theorem registry_run:
  assumes "ck_table ck tinv" "registry_ok ck tinv s" "\<not> at_capacity s" "keys_of ck s = {}"
    "\<forall>(k, t)\<in>set xs. length k \<le> 4031"
  shows "\<exists>s'. find_all ck s xs = Inr s' \<and> registry_ok ck tinv s'
    \<and> n_unique_keys (st_live (srv_stats s')) = word_of_nat (card (fst ` set xs))
    \<and> (\<forall>k\<in>fst ` set xs. \<exists>p m. find_str ck (srv_metrics s') k = Some p \<and> srv_heap s' p = Some m
          \<and> map_of xs k = Some (m_type m))"
proof -
  obtain s' where s': "find_all ck s xs = Inr s'" "registry_ok ck tinv s'" "keys_of ck s' = fst ` set xs"
    "\<forall>k\<in>fst ` set xs. \<exists>p m. find_str ck (srv_metrics s') k = Some p \<and> srv_heap s' p = Some m
          \<and> (case find_str ck (srv_metrics s) k of
               Some q \<Rightarrow> q = p \<and> map_option m_type (srv_heap s p) = Some (m_type m)
             | None \<Rightarrow> map_of xs k = Some (m_type m))"
    using find_all_ok [OF assms(1-3,5)] assms(4) by auto
  have "find_str ck (srv_metrics s) k = None" if "k \<in> fst ` set xs" for k
    using assms(4) s'(3) that by (metis empty_iff in_keys)
  moreover have "n_unique_keys (st_live (srv_stats s')) = word_of_nat (card (fst ` set xs))"
    using registry_okD(8) [OF s'(2)] registry_count [OF s'(2)] s'(3) by simp
  ultimately show ?thesis using s' by fastforce
qed

theorem registry_run_witness:
  "\<exists>s'. find_all list_ck (one_backend ''b'') [(''x'', MT_GAUGE), (''y'', MT_METER), (''x'', MT_TIMER)] = Inr s'
     \<and> n_unique_keys (st_live (srv_stats s')) = 2"
proof -
  have "keys_of list_ck (one_backend ''b'') = {}"
    by (simp add: keys_of_def one_backend_def find_str_def brubeck_hashtable_find_def list_ck_def)
  from registry_run [OF list_table.ck_table_axioms one_backend_ok _ this, of "[(''x'', MT_GAUGE), (''y'', MT_METER), (''x'', MT_TIMER)]"]
  show ?thesis by (auto simp: one_backend_def card_insert_if)
qed

text \<open>
  A new key of 4048 bytes or more makes \<^verbatim>\<open>new_metric\<close> write past the page that the slab
  allocator gave it.
\<close>

theorem long_key_overflows:
  assumes "slab_inv (srv_slab s)" "4048 \<le> length key" "length key < 2 ^ 16"
    "find_str ck (srv_metrics s) key = None" "\<not> at_capacity s"
  shows "brubeck_metric_find ck s key t = Inl OutOfBounds"
proof -
  let ?n = "word_of_nat (sizeof_metric + length key + 1) :: u64"
  have n: "unat ?n = sizeof_metric + length key + 1"
    using assms(3) by (simp add: unat_of_nat del: of_nat_add of_nat_Suc)
  obtain nd nds where "current (srv_slab s) = nd # nds" using assms(1) by (cases "current (srv_slab s)") (auto simp: slab_inv_def)
  then obtain slab p where a: "brubeck_slab_alloc (srv_slab s) ?n = Inr (slab, p)"
    by (simp add: brubeck_slab_alloc_def Let_def)
  have "snd p = 0" using slab_alloc_large [OF assms(1) _ _ a] n assms(2,3) by simp
  with a assms(2) have "new_metric s key t = Inl OutOfBounds" by (simp add: new_metric_def heap_bytes_def)
  with assms(4,5) show ?thesis by (simp add: brubeck_metric_find_def brubeck_metric_new_def find_str_def)
qed

theorem long_key_overflows_witness:
  "brubeck_metric_find list_ck (one_backend ''b'') (replicate 4048 (CHR ''k'')) MT_METER = Inl OutOfBounds"
proof -
  have "find_str list_ck (srv_metrics (one_backend ''b'')) (replicate 4048 (CHR ''k'')) = None"
    by (simp add: one_backend_def find_str_def brubeck_hashtable_find_def list_ck_def)
  from long_key_overflows [OF registry_okD(2) [OF one_backend_ok] _ _ this, of MT_METER] show ?thesis
    by (simp add: one_backend_def)
qed

text \<open>
  Initialising the internal sampler on a fresh registry succeeds, leaves the registry
  consistent with the server's own metric in it, marked active and with its pointer set, and
  copies the sampling period of its backend; with no backend configured it dereferences a null
  pointer.
\<close>

theorem internal_init_ok:
  assumes "ck_table ck tinv" "registry_ok ck tinv s" "keys_of ck s = {}" "length (srv_name s) \<le> 4031"
  shows "\<exists>s' p m. brubeck_internal_init ck s = Inr s' \<and> find_str ck (srv_metrics s') (srv_name s) = Some p
      \<and> srv_heap s' p = Some m \<and> metric_ok m \<and> m_type m = MT_INTERNAL_STATS \<and> m_expire m = BRUBECK_EXPIRE_ACTIVE
      \<and> (\<exists>be\<in>set (srv_backends s'). stat_freq (srv_stats s') = be_sample_freq be)
    \<and> brubeck_internal_init ck (s\<lparr>srv_backends := []\<rparr>) = Inl NullPointer"
proof -
  have sk: "short_key (srv_name s)" using assms(4) by (simp add: short_key_def)
  have none: "find_str ck (srv_metrics s) (srv_name s) = None" using assms(3) sk by (metis empty_iff in_keys)
  obtain s' p m be where "brubeck_internal_init ck s = Inr s'" "find_str ck (srv_metrics s') (srv_name s) = Some p"
    "srv_heap s' p = Some m" "metric_ok m" "m_type m = MT_INTERNAL_STATS" "m_expire m = BRUBECK_EXPIRE_ACTIVE"
    "be \<in> set (srv_backends s')" "stat_freq (srv_stats s') = be_sample_freq be"
    by (rule internal_init_total [OF assms(1,2) none assms(4)]) (use sk in auto)
  moreover have "brubeck_internal_init ck (s\<lparr>srv_backends := []\<rparr>) = Inl NullPointer"
    using registry_okD [OF assms(2)] none assms(4) by (intro internal_init_no_backend [OF assms(1)]) simp_all
  ultimately show ?thesis by blast
qed

theorem internal_init_ok_witness:
  "\<exists>s'. brubeck_internal_init list_ck (one_backend ''brubeck'') = Inr s' \<and> stat_freq (srv_stats s') \<in> be_sample_freq ` set (srv_backends s')
     \<and> brubeck_internal_init list_ck ((one_backend ''brubeck'')\<lparr>srv_backends := []\<rparr>) = Inl NullPointer"
proof -
  have "keys_of list_ck (one_backend ''brubeck'') = {}"
    by (simp add: keys_of_def one_backend_def find_str_def brubeck_hashtable_find_def list_ck_def)
  moreover have "length (srv_name (one_backend ''brubeck'')) \<le> 4031" by (simp add: one_backend_def)
  ultimately show ?thesis
    using internal_init_ok [OF list_table.ck_table_axioms one_backend_ok, of "''brubeck''"] by auto
qed

end
