(* ===== verification/Statsd.thy ===== *)
theory Statsd
  imports Registry Utils
begin

text \<open>
  The parsers of the statsd sampler (\<^verbatim>\<open>src/samplers/statsd.c\<close>): of one message, and of a packet with
  one message per line, whose values go to the metrics of the registry. A pointer into a packet is
  the list of the bytes behind it, up to the end of the buffer; reading behind the buffer is an
  error of the model.
\<close>

section \<open>Numbers\<close>

definition is_digit :: "char \<Rightarrow> bool" where
  "is_digit c \<longleftrightarrow> (48::nat) \<le> of_char c \<and> (of_char c :: nat) \<le> 57"

definition digit_val :: "char \<Rightarrow> nat" where
  "digit_val c = of_char c - 48"

text \<open>\<^verbatim>\<open>while (*buffer >= '0' && *buffer <= '9')\<close>: the number, the count of digits, and the rest.\<close>

fun float_digits :: "string \<Rightarrow> double \<Rightarrow> nat \<Rightarrow> (double \<times> nat \<times> string) res" where
  "float_digits [] v n = Inl OutOfBounds"
| "float_digits (c # s) v n =
     (if is_digit c then float_digits s (dadd (dmul v (d_of_nat 10)) (d_of_nat (digit_val c))) (Suc n)
      else Inr (v, n, c # s))"

text \<open>
  The C library's \<^verbatim>\<open>strtod\<close> on a decimal number: the digits are read exactly, then rounded once. An
  exponent without digits is not part of the number, and a text without digits is no number; the
  second component is the text behind the number.
\<close>

fun take_digits :: "string \<Rightarrow> nat \<Rightarrow> nat \<Rightarrow> nat \<times> nat \<times> string" where
  "take_digits [] v n = (v, n, [])"
| "take_digits (c # s) v n = (if is_digit c then take_digits s (v * 10 + digit_val c) (Suc n) else (v, n, c # s))"

definition strtod_exp :: "string \<Rightarrow> int \<times> string" where
  "strtod_exp s =
     (case s of
        [] \<Rightarrow> (0, s)
      | c # s1 \<Rightarrow>
          if c = CHR ''e'' \<or> c = CHR ''E'' then
            let (neg, s2) = (case s1 of [] \<Rightarrow> (False, s1)
                             | d # s2 \<Rightarrow> if d = CHR ''-'' then (True, s2) else if d = CHR ''+'' then (False, s2) else (False, s1));
                (x, n, s3) = take_digits s2 0 0
            in if n = 0 then (0, s) else (if neg then - int x else int x, s3)
          else (0, s))"

definition strtod_round :: "bool \<Rightarrow> nat \<Rightarrow> int \<Rightarrow> double" where
  "strtod_round neg m x = encode64 (fp_round binary64 neg (m * 10 ^ nat x) (10 ^ nat (- x)))"

definition strtod :: "string \<Rightarrow> double \<times> string" where
  "strtod start =
     (let (neg, s) = (case start of [] \<Rightarrow> (False, start)
                      | c # s \<Rightarrow> if c = CHR ''-'' then (True, s) else if c = CHR ''+'' then (False, s) else (False, start));
          (i, ni, s1) = take_digits s 0 0;
          (m, nf, s2) = (case s1 of [] \<Rightarrow> (i, 0, s1)
                         | c # s2 \<Rightarrow> if c = CHR ''.'' then take_digits s2 i 0 else (i, 0, s1))
      in if ni + nf = 0 then (0, start)
         else let (x, s3) = strtod_exp s2 in (strtod_round neg m (x - int nf), s3))"

text \<open>
  \<^verbatim>\<open>parse_float\<close>. The power function of the mathematics library is the parameter \<open>libm_pow\<close>. The
  result is the value, the modifiers and the pointer behind the number.
\<close>

definition parse_fraction :: "(double \<Rightarrow> double \<Rightarrow> double) \<Rightarrow> double \<Rightarrow> string \<Rightarrow> (double \<times> string) res" where
  "parse_fraction libm_pow v buffer =
     (case buffer of
        [] \<Rightarrow> Inl OutOfBounds
      | c # rest \<Rightarrow>
          if c = CHR ''.'' then
            rbind (float_digits rest 0 0) (\<lambda>(f, n, buffer).
              Inr (dadd v (ddiv f (libm_pow (d_of_nat 10) (d_of_nat n))), buffer))
          else Inr (v, buffer))"

definition parse_float :: "(double \<Rightarrow> double \<Rightarrow> double) \<Rightarrow> string \<Rightarrow> u8 \<Rightarrow> (double \<times> u8 \<times> string) res" where
  "parse_float libm_pow start mods =
     (case start of
        [] \<Rightarrow> Inl OutOfBounds
      | c # rest \<Rightarrow>
          let (negative, mods, buffer) =
            (if c = CHR ''-'' then (True, mods OR BRUBECK_MOD_RELATIVE_VALUE, rest)
             else if c = CHR ''+'' then (False, mods OR BRUBECK_MOD_RELATIVE_VALUE, rest)
             else (False, mods, start))
          in rbind (float_digits buffer 0 0) (\<lambda>(v, _, buffer).
             rbind (parse_fraction libm_pow v buffer) (\<lambda>(v, buffer).
               let v = (if negative then dneg v else v) in
               case buffer of
                 [] \<Rightarrow> Inl OutOfBounds
               | e # _ \<Rightarrow>
                   if e = CHR ''e'' \<or> e = CHR ''E''
                   then (let (v, buffer) = strtod start in Inr (v, mods, buffer))
                   else Inr (v, mods, buffer))))"

section \<open>Messages\<close>

record brubeck_statsd_msg =
  msg_key :: string
  msg_key_len :: u16
  msg_type :: brubeck_metric_t
  msg_value :: double
  msg_sample_freq :: double
  msg_modifiers :: u8

text \<open>The scan for the end of the key; \<open>None\<close> is the return value \<^verbatim>\<open>-1\<close>.\<close>

fun scan_key :: "string \<Rightarrow> nat \<Rightarrow> nat option res" where
  "scan_key [] n = Inl OutOfBounds"
| "scan_key (c # buffer) n =
     (if c = CHR '':'' then Inr (Some n)
      else if c = NUL then Inr None
      else if c = CHR '' '' then Inr None
      else scan_key buffer (Suc n))"

text \<open>The type, one or two characters.\<close>

fun parse_type :: "string \<Rightarrow> (brubeck_metric_t \<times> string) option res" where
  "parse_type [] = Inl OutOfBounds"
| "parse_type (c # rest) =
     (if c = CHR ''g'' then Inr (Some (MT_GAUGE, rest))
      else if c = CHR ''c'' then Inr (Some (MT_METER, rest))
      else if c = CHR ''C'' then Inr (Some (MT_COUNTER, rest))
      else if c = CHR ''h'' then Inr (Some (MT_HISTO, rest))
      else if c = CHR ''m'' then
        (case rest of
           [] \<Rightarrow> Inl OutOfBounds
         | d # rest' \<Rightarrow> if d = CHR ''s'' then Inr (Some (MT_TIMER, rest')) else Inr None)
      else Inr None)"

text \<open>The sampling rate and the end of the message.\<close>

definition at_end :: "string \<Rightarrow> bool res" where
  "at_end buffer =
     rbind (rd buffer 0) (\<lambda>c.
       if c = NUL then Inr True
       else if c = LF then rbind (rd buffer 1) (\<lambda>d. Inr (d = NUL))
       else Inr False)"

definition parse_rate :: "(double \<Rightarrow> double \<Rightarrow> double) \<Rightarrow> string \<Rightarrow> double option res" where
  "parse_rate libm_pow buffer =
     rbind (rd buffer 0) (\<lambda>c.
     rbind (if c = CHR ''|'' then rbind (rd buffer 1) (\<lambda>d. Inr (d = CHR ''@'')) else Inr False) (\<lambda>rate.
     rbind (if rate then
              rbind (parse_float libm_pow (drop 2 buffer) 0) (\<lambda>(sample_rate, _, buffer).
                if dle sample_rate 0 \<or> dlt (d_of_nat 1) sample_rate then Inr None
                else Inr (Some (ddiv (d_of_nat 1) sample_rate, buffer)))
            else Inr (Some (d_of_nat 1, buffer))) (\<lambda>r.
       case r of
         None \<Rightarrow> Inr None
       | Some (sample_freq, buffer) \<Rightarrow>
           rbind (at_end buffer) (\<lambda>e. Inr (if e then Some sample_freq else None)))))"

text \<open>What follows the key: the value, the modifiers, the type and the sampling frequency.\<close>

definition parse_body :: "(double \<Rightarrow> double \<Rightarrow> double) \<Rightarrow> string \<Rightarrow>
    (double \<times> u8 \<times> brubeck_metric_t \<times> double) option res" where
  "parse_body libm_pow buffer =
     rbind (parse_float libm_pow buffer 0) (\<lambda>(v, modifiers, p).
     rbind (rd p 0) (\<lambda>c.
       if c \<noteq> CHR ''|'' then Inr None
       else
         rbind (parse_type (drop 1 p)) (\<lambda>t.
           case t of
             None \<Rightarrow> Inr None
           | Some (type, p) \<Rightarrow>
               rbind (parse_rate libm_pow p) (\<lambda>r.
                 Inr (map_option (\<lambda>sample_freq. (v, modifiers, type, sample_freq)) r)))))"

definition make_msg :: "string \<Rightarrow> u16 \<Rightarrow> double \<times> u8 \<times> brubeck_metric_t \<times> double \<Rightarrow> brubeck_statsd_msg" where
  "make_msg key key_len = (\<lambda>(v, modifiers, type, sample_freq).
     \<lparr>msg_key = key, msg_key_len = key_len, msg_type = type, msg_value = v, msg_sample_freq = sample_freq,
      msg_modifiers = modifiers\<rparr>)"

text \<open>
  \<^verbatim>\<open>brubeck_statsd_msg_parse\<close> on the message that starts at index \<open>buffer\<close> of the packet buffer and
  ends before index \<open>fin\<close>: the buffer with its terminators written, and the message or \<^verbatim>\<open>-1\<close>. The
  key of the message is the part of the buffer that its pointer and length denote.
\<close>

definition brubeck_statsd_msg_parse ::
    "(double \<Rightarrow> double \<Rightarrow> double) \<Rightarrow> string \<Rightarrow> nat \<Rightarrow> nat \<Rightarrow> (string \<times> brubeck_statsd_msg option) res" where
  "brubeck_statsd_msg_parse libm_pow buf buffer fin =
     rbind (wr buf (int fin) NUL) (\<lambda>buf.
     rbind (scan_key (drop buffer buf) 0) (\<lambda>k.
       case k of
         None \<Rightarrow> Inr (buf, None)
       | Some n \<Rightarrow>
           let key_len = (word_of_nat n :: u16) in
           rbind (wr buf (int buffer + int n) NUL) (\<lambda>buf.
           rbind (rd buf (int buffer + uint key_len - 1)) (\<lambda>c.
             if c = CHR ''.'' then Inr (buf, None)
             else
               rbind (parse_body libm_pow (drop (buffer + n + 1) buf)) (\<lambda>b.
                 Inr (buf, map_option (make_msg (take (unat key_len) (drop buffer buf)) key_len) b))))))"

section \<open>Reading up to the terminator\<close>

text \<open>
  On a text that ends with a NUL the scanners never read behind it, whatever follows: they return
  a position inside the text, and the result does not depend on what follows.
\<close>

named_theorems scans \<open>scanners stop at the terminator\<close>

lemma not_digit_NUL [simp]: "\<not> is_digit NUL"
  by (simp add: is_digit_def)

lemma float_digits_term [scans]:
  "NUL \<notin> set a \<Longrightarrow> \<exists>v' n' b. set b \<subseteq> set a \<and> (\<forall>r. float_digits (a @ NUL # r) v n = Inr (v', n', b @ NUL # r))"
proof (induction a arbitrary: v n)
  case (Cons c a)
  show ?case
  proof (cases "is_digit c")
    case True
    from Cons.IH [of "dadd (dmul v (d_of_nat 10)) (d_of_nat (digit_val c))" "Suc n"] Cons.prems True show ?thesis
      by auto
  next
    case False
    then show ?thesis by (intro exI [of _ v] exI [of _ n] exI [of _ "c # a"]) simp
  qed
qed auto

lemma take_digits_term [scans]:
  "NUL \<notin> set a \<Longrightarrow> \<exists>v' n' b. set b \<subseteq> set a \<and> (\<forall>r. take_digits (a @ NUL # r) v n = (v', n', b @ NUL # r))"
proof (induction a arbitrary: v n)
  case (Cons c a)
  show ?case
  proof (cases "is_digit c")
    case True
    from Cons.IH [of "v * 10 + digit_val c" "Suc n"] Cons.prems True show ?thesis by auto
  next
    case False
    then show ?thesis by (intro exI [of _ v] exI [of _ n] exI [of _ "c # a"]) simp
  qed
qed auto

lemma sign_term:
  assumes "NUL \<notin> set a"
  obtains neg sgn a0 where "set a0 \<subseteq> set a"
    "\<And>r. (case a @ NUL # r of [] \<Rightarrow> (False, a @ NUL # r)
          | c # s \<Rightarrow> if c = CHR ''-'' then (True, s) else if c = CHR ''+'' then (False, s) else (False, a @ NUL # r)) =
          (neg, a0 @ NUL # r)"
    "\<And>r c s. a @ NUL # r = c # s \<Longrightarrow>
       (if c = CHR ''-'' then (True, x, s) else if c = CHR ''+'' then (False, x, s) else (False, y, c # s)) =
          (neg, if sgn then x else y, a0 @ NUL # r)"
proof (cases "a \<noteq> [] \<and> (hd a = CHR ''-'' \<or> hd a = CHR ''+'')")
  case True
  then show ?thesis using that [of "tl a" "hd a = CHR ''-''" True] by (cases a) (auto simp: subset_insertI)
next
  case False
  then show ?thesis using that [of a False False] by (cases a) auto
qed

lemma strtod_exp_term [scans]:
  assumes "NUL \<notin> set a"
  shows "\<exists>x b. set b \<subseteq> set a \<and> (\<forall>r. strtod_exp (a @ NUL # r) = (x, b @ NUL # r))"
proof (cases "a \<noteq> [] \<and> (hd a = CHR ''e'' \<or> hd a = CHR ''E'')")
  case True
  then obtain c a1 where a: "a = c # a1" and c: "c = CHR ''e'' \<or> c = CHR ''E''" by (cases a) auto
  have "NUL \<notin> set a1" using a assms by simp
  then obtain neg a2 where a2: "set a2 \<subseteq> set a1"
    "\<And>r. (case a1 @ NUL # r of [] \<Rightarrow> (False, a1 @ NUL # r)
          | c # s \<Rightarrow> if c = CHR ''-'' then (True, s) else if c = CHR ''+'' then (False, s) else (False, a1 @ NUL # r)) =
          (neg, a2 @ NUL # r)"
    by (rule sign_term) blast
  have "NUL \<notin> set a2" using a2(1) a assms by auto
  then obtain x n b where b: "set b \<subseteq> set a2" "\<And>r. take_digits (a2 @ NUL # r) 0 0 = (x, n, b @ NUL # r)"
    using take_digits_term by blast
  have "strtod_exp (a @ NUL # r) = (if n = 0 then 0 else if neg then - int x else int x, (if n = 0 then a else b) @ NUL # r)" for r
    by (simp add: strtod_exp_def a c a2(2) b(2))
  moreover have "set (if n = 0 then a else b) \<subseteq> set a" using a a2(1) b(1) by auto
  ultimately show ?thesis by blast
next
  case False
  then have "strtod_exp (a @ NUL # r) = (0, a @ NUL # r)" for r by (cases a) (simp_all add: strtod_exp_def)
  then show ?thesis by blast
qed

lemma strtod_term [scans]:
  assumes "NUL \<notin> set a"
  shows "\<exists>v b. set b \<subseteq> set a \<and> (\<forall>r. strtod (a @ NUL # r) = (v, b @ NUL # r))"
proof -
  from assms obtain neg a0 where a0: "set a0 \<subseteq> set a"
    "\<And>r. (case a @ NUL # r of [] \<Rightarrow> (False, a @ NUL # r)
          | c # s \<Rightarrow> if c = CHR ''-'' then (True, s) else if c = CHR ''+'' then (False, s) else (False, a @ NUL # r)) =
          (neg, a0 @ NUL # r)"
    by (rule sign_term) blast
  have "NUL \<notin> set a0" using a0(1) assms by auto
  then obtain i ni a1 where a1: "set a1 \<subseteq> set a0" "\<And>r. take_digits (a0 @ NUL # r) 0 0 = (i, ni, a1 @ NUL # r)"
    using take_digits_term by blast
  have n1: "NUL \<notin> set a1" using a1(1) a0(1) assms by auto
  obtain m nf a2 where a2: "set a2 \<subseteq> set a1"
    "\<And>r. (case a1 @ NUL # r of [] \<Rightarrow> (i, 0, a1 @ NUL # r)
          | c # s2 \<Rightarrow> if c = CHR ''.'' then take_digits s2 i 0 else (i, 0, a1 @ NUL # r)) = (m, nf, a2 @ NUL # r)"
  proof (cases "a1 \<noteq> [] \<and> hd a1 = CHR ''.''")
    case True
    then obtain a1' where a1': "a1 = CHR ''.'' # a1'" by (cases a1) auto
    with n1 have "NUL \<notin> set a1'" by simp
    then obtain m nf b where "set b \<subseteq> set a1'" "\<And>r. take_digits (a1' @ NUL # r) i 0 = (m, nf, b @ NUL # r)"
      using take_digits_term by blast
    with that [of b m nf] a1' show thesis by auto
  next
    case False
    then show thesis using that [of a1 i 0] by (cases a1) auto
  qed
  have "NUL \<notin> set a2" using a2(1) n1 by auto
  then obtain x a3 where a3: "set a3 \<subseteq> set a2" "\<And>r. strtod_exp (a2 @ NUL # r) = (x, a3 @ NUL # r)"
    using strtod_exp_term by blast
  have "strtod (a @ NUL # r) =
      (if ni + nf = 0 then 0 else strtod_round neg m (x - int nf), (if ni + nf = 0 then a else a3) @ NUL # r)" for r
    by (simp add: strtod_def a0(2) a1(2) a2(2) a3(2))
  moreover have "set (if ni + nf = 0 then a else a3) \<subseteq> set a" using a0(1) a1(1) a2(1) a3(1) by auto
  ultimately show ?thesis by blast
qed

lemma parse_fraction_term [scans]:
  assumes "NUL \<notin> set a"
  shows "\<exists>v' b. set b \<subseteq> set a \<and> (\<forall>r. parse_fraction pw v (a @ NUL # r) = Inr (v', b @ NUL # r))"
proof (cases "a \<noteq> [] \<and> hd a = CHR ''.''")
  case True
  then obtain a' where a': "a = CHR ''.'' # a'" by (cases a) auto
  then have "NUL \<notin> set a'" using assms by auto
  from float_digits_term [OF this, of 0 0] obtain f n b where
    "set b \<subseteq> set a'" "\<forall>r. float_digits (a' @ NUL # r) 0 0 = Inr (f, n, b @ NUL # r)" by blast
  with a' show ?thesis by (auto simp: parse_fraction_def)
next
  case False
  then show ?thesis by (cases a) (auto simp: parse_fraction_def)
qed

lemma parse_float_term [scans]:
  assumes "NUL \<notin> set a"
  shows "\<exists>v m b. set b \<subseteq> set a \<and> (\<forall>r. parse_float pw (a @ NUL # r) mods = Inr (v, m, b @ NUL # r))"
proof -
  from assms obtain neg sgn a0 where a0: "set a0 \<subseteq> set a"
    "\<And>r c s. a @ NUL # r = c # s \<Longrightarrow>
       (if c = CHR ''-'' then (True, mods OR BRUBECK_MOD_RELATIVE_VALUE, s)
        else if c = CHR ''+'' then (False, mods OR BRUBECK_MOD_RELATIVE_VALUE, s) else (False, mods, c # s)) =
          (neg, if sgn then mods OR BRUBECK_MOD_RELATIVE_VALUE else mods, a0 @ NUL # r)"
    by (rule sign_term) blast
  have "NUL \<notin> set a0" using a0(1) assms by auto
  from float_digits_term [OF this, of 0 0] obtain v n a1 where
    a1: "set a1 \<subseteq> set a0" "\<And>r. float_digits (a0 @ NUL # r) 0 0 = Inr (v, n, a1 @ NUL # r)" by blast
  have "NUL \<notin> set a1" using a1(1) a0(1) assms by auto
  from parse_fraction_term [OF this, of pw v] obtain v' a2 where
    a2: "set a2 \<subseteq> set a1" "\<And>r. parse_fraction pw v (a1 @ NUL # r) = Inr (v', a2 @ NUL # r)" by blast
  from strtod_term [OF assms] obtain w a3 where a3: "set a3 \<subseteq> set a" "\<And>r. strtod (a @ NUL # r) = (w, a3 @ NUL # r)" by blast
  let ?e = "a2 \<noteq> [] \<and> (hd a2 = CHR ''e'' \<or> hd a2 = CHR ''E'')"
  let ?m = "if sgn then mods OR BRUBECK_MOD_RELATIVE_VALUE else mods"
  have "parse_float pw (a @ NUL # r) mods =
      Inr (if ?e then w else if neg then dneg v' else v', ?m, (if ?e then a3 else a2) @ NUL # r)" for r
  proof -
    obtain c s where st: "a @ NUL # r = c # s" by (cases a) auto
    have "parse_float pw (a @ NUL # r) mods = (case a2 @ NUL # r of [] \<Rightarrow> Inl OutOfBounds
        | e # _ \<Rightarrow> if e = CHR ''e'' \<or> e = CHR ''E'' then Inr (w, ?m, a3 @ NUL # r)
                  else Inr (if neg then dneg v' else v', ?m, a2 @ NUL # r))"
      using a3(2) [of r]
      by (simp only: parse_float_def st list.case a0(2) [OF st] Let_def prod.case a1(2) rbind_simps a2(2))
    then show ?thesis by (cases a2) auto
  qed
  moreover have "set (if ?e then a3 else a2) \<subseteq> set a" using a0(1) a1(1) a2(1) a3(1) by auto
  ultimately show ?thesis by blast
qed

lemma parse_type_term [scans]:
  assumes "NUL \<notin> set a"
  shows "(\<forall>r. parse_type (a @ NUL # r) = Inr None)
    \<or> (\<exists>t b. set b \<subseteq> set a \<and> (\<forall>r. parse_type (a @ NUL # r) = Inr (Some (t, b @ NUL # r))))"
proof (cases a)
  case (Cons c a')
  show ?thesis
  proof (cases "c = CHR ''m''")
    case True
    with Cons show ?thesis by (cases a') (auto simp: subset_insertI)
  next
    case False
    with Cons show ?thesis by (auto simp: subset_insertI)
  qed
qed simp

lemma at_end_term [scans]: "\<exists>b. \<forall>r. at_end (a @ NUL # r) = Inr b"
proof (cases a)
  case (Cons c a')
  then show ?thesis by (cases a') (auto simp: at_end_def rd_def nth_append)
qed (auto simp: at_end_def rd_def)

lemma parse_rate_term [scans]:
  assumes "NUL \<notin> set a"
  shows "\<exists>x. \<forall>r. parse_rate pw (a @ NUL # r) = Inr x"
proof (cases "\<exists>a'. a = CHR ''|'' # CHR ''@'' # a'")
  case True
  then obtain a' where a': "a = CHR ''|'' # CHR ''@'' # a'" by blast
  then have "NUL \<notin> set a'" using assms by simp
  from parse_float_term [OF this, of pw 0] obtain v m b where
    v: "\<And>r. parse_float pw (a' @ NUL # r) 0 = Inr (v, m, b @ NUL # r)" by blast
  from at_end_term [of b] obtain e where "\<And>r. at_end (b @ NUL # r) = Inr e" by blast
  with v show ?thesis
    by (cases "dle v 0 \<or> dlt (d_of_nat 1) v"; cases e) (auto simp: parse_rate_def a' rd_def)
next
  case False
  from at_end_term [of a] obtain e where e: "\<And>r. at_end (a @ NUL # r) = Inr e" by blast
  have "parse_rate pw (a @ NUL # r) = Inr (if e then Some (d_of_nat 1) else None)" for r
  proof (cases a)
    case (Cons c a')
    with False e [of r] show ?thesis by (cases a') (auto simp: parse_rate_def rd_def)
  qed (use e [of r] in \<open>simp add: parse_rate_def rd_def\<close>)
  then show ?thesis by blast
qed

lemma parse_body_term [scans]:
  assumes "NUL \<notin> set a"
  shows "\<exists>x. \<forall>r. parse_body pw (a @ NUL # r) = Inr x"
proof -
  from parse_float_term [OF assms, of pw 0] obtain v m b where
    b: "set b \<subseteq> set a" "\<And>r. parse_float pw (a @ NUL # r) 0 = Inr (v, m, b @ NUL # r)" by blast
  show ?thesis
  proof (cases "\<exists>b'. b = CHR ''|'' # b'")
    case True
    then obtain b' where b': "b = CHR ''|'' # b'" by blast
    with b(1) assms have "NUL \<notin> set b'" by auto
    from parse_type_term [OF this] show ?thesis
    proof (elim disjE exE conjE)
      assume "\<forall>r. parse_type (b' @ NUL # r) = Inr None"
      then show ?thesis using b(2) by (simp add: parse_body_def b' rd_def)
    next
      fix t d assume d: "set d \<subseteq> set b'" "\<forall>r. parse_type (b' @ NUL # r) = Inr (Some (t, d @ NUL # r))"
      with \<open>NUL \<notin> set b'\<close> have "NUL \<notin> set d" by auto
      from parse_rate_term [OF this, of pw] obtain x where "\<And>r. parse_rate pw (d @ NUL # r) = Inr x" by blast
      with d(2) b(2) show ?thesis by (simp add: parse_body_def b' rd_def)
    qed
  next
    case False
    then have "parse_body pw (a @ NUL # r) = Inr None" for r
      using b(2) by (cases b) (auto simp: parse_body_def rd_def)
    then show ?thesis by blast
  qed
qed

text \<open>
  What a line means: its text up to a NUL, cut at the first colon, unless a space comes first or
  the key ends in a dot.
\<close>

definition line_key :: "string \<Rightarrow> string option" where
  "line_key line =
     (let t = cstr line; key = takeWhile (\<lambda>c. c \<noteq> CHR '':'' \<and> c \<noteq> CHR '' '') t; rest = drop (length key) t
      in if rest \<noteq> [] \<and> hd rest = CHR '':'' then Some key else None)"

definition line_msg :: "(double \<Rightarrow> double \<Rightarrow> double) \<Rightarrow> string \<Rightarrow> brubeck_statsd_msg option" where
  "line_msg libm_pow line =
     (case line_key line of
        None \<Rightarrow> None
      | Some key \<Rightarrow>
          if key \<noteq> [] \<and> last key = CHR ''.'' then None
          else (case parse_body libm_pow (drop (Suc (length key)) line @ [NUL]) of
                  Inr (Some b) \<Rightarrow> Some (make_msg key (word_of_nat (length key)) b)
                | _ \<Rightarrow> None))"

text \<open>The terminator that the parser leaves behind the key.\<close>

definition cut_line :: "string \<Rightarrow> string" where
  "cut_line line = (case line_key line of None \<Rightarrow> line | Some key \<Rightarrow> line[length key := NUL])"

lemma length_cut_line [simp]: "length (cut_line line) = length line"
  by (simp add: cut_line_def split: option.splits)

lemma cstr_Cons: "cstr (c # s) = (if c = NUL then [] else c # cstr s)"
  by (simp add: cstr_def)

lemma line_key_Cons:
  "line_key (c # s) = (if c = CHR '':'' then Some [] else if c = NUL \<or> c = CHR '' '' then None
     else map_option (Cons c) (line_key s))"
  by (auto simp: line_key_def cstr_Cons Let_def)

lemma line_key_Nil [simp]: "line_key [] = None"
  by (simp add: line_key_def cstr_def)

lemma line_keyD:
  "line_key line = Some key \<Longrightarrow> NUL \<notin> set key \<and> (\<exists>rest. line = key @ CHR '':'' # rest)"
  by (induction line arbitrary: key) (auto simp: line_key_Cons split: if_splits)

lemma scan_key_line: "scan_key (line @ NUL # r) n = Inr (map_option (\<lambda>key. n + length key) (line_key line))"
  by (induction line arbitrary: n) (auto simp: line_key_Cons option.map_comp o_def)

lemma parse_body_line: "\<exists>x. \<forall>r. parse_body pw (s @ NUL # r) = Inr x"
proof (cases "NUL \<in> set s")
  case True
  then obtain a b where "s = a @ NUL # b" "NUL \<notin> set a" by (meson split_list_first)
  with parse_body_term [of a pw] show ?thesis by auto
next
  case False
  then show ?thesis by (rule parse_body_term)
qed

text \<open>
  An empty key makes the parser look at the byte in front of the line; \<open>starts_ok\<close> says that there is
  one and that it does not look like the end of a key.
\<close>

definition starts_ok :: "string \<Rightarrow> string \<Rightarrow> bool" where
  "starts_ok pre p \<longleftrightarrow> (p \<noteq> [] \<and> hd p = CHR '':'' \<longrightarrow> pre \<noteq> [] \<and> last pre \<noteq> CHR ''.'')"

lemma msg_parse_line:
  assumes "starts_ok pre line" "length line < 2 ^ 16"
  shows "brubeck_statsd_msg_parse pw (pre @ line @ e # post) (length pre) (length pre + length line) =
    Inr (pre @ cut_line line @ NUL # post, line_msg pw line)"
proof (cases "line_key line")
  case None
  then show ?thesis
    using scan_key_line [of line post 0]
    by (simp add: brubeck_statsd_msg_parse_def wr_def nat_add_distrib list_update_append cut_line_def line_msg_def)
next
  case (Some key)
  then obtain rest where line: "line = key @ CHR '':'' # rest" using line_keyD by blast
  have kl: "uint (word_of_nat (length key) :: u16) = int (length key)" "unat (word_of_nat (length key) :: u16) = length key"
    using assms(2) by (simp_all add: line uint_nat unat_of_nat)
  have cut: "cut_line line = key @ NUL # rest" by (simp add: cut_line_def Some) (simp add: line list_update_append)
  obtain x where x: "\<And>r. parse_body pw (rest @ NUL # r) = Inr x" using parse_body_line by blast
  have msg: "line_msg pw line = (if key \<noteq> [] \<and> last key = CHR ''.'' then None
      else map_option (make_msg key (word_of_nat (length key))) x)"
    using x [of "[]"] Some by (auto simp: line_msg_def) (auto simp: line split: option.splits)
  have last: "rd (pre @ key @ NUL # rest @ NUL # post) (int (length pre) + int (length key) - 1) =
      Inr (if key = [] then last pre else last key)"
  proof (cases "key = []")
    case True
    with assms(1) line have "pre \<noteq> []" by (simp add: starts_ok_def)
    moreover from this have "nat (int (length pre) - 1) = length pre - 1" "length pre - 1 < length pre" by (cases pre; simp)+
    ultimately show ?thesis using True by (auto simp: rd_def nth_append last_conv_nth)
  next
    case False
    then obtain k c where "key = k @ [c]" by (cases key rule: rev_cases) auto
    then show ?thesis using rd_in [of "length pre + length k" "pre @ key @ NUL # rest @ NUL # post"] by (simp add: nth_append)
  qed
  have "pre \<noteq> [] \<and> last pre \<noteq> CHR ''.''" if "key = []" using that assms(1) line by (simp add: starts_ok_def)
  then have "brubeck_statsd_msg_parse pw (pre @ line @ e # post) (length pre) (length pre + length line) =
      Inr (pre @ cut_line line @ NUL # post, if key \<noteq> [] \<and> last key = CHR ''.'' then None
        else map_option (make_msg key (word_of_nat (length key))) x)"
    using scan_key_line [of line post 0] Some last x [of post]
    by (auto simp: brubeck_statsd_msg_parse_def wr_def nat_add_distrib list_update_append cut kl)
      (auto simp: line list_update_append x Let_def kl)
  with msg show ?thesis by simp
qed

section \<open>Packets\<close>

text \<open>\<^verbatim>\<open>memchr\<close> over the next \<open>n\<close> bytes behind a pointer to index \<open>i\<close>.\<close>

fun memchr :: "string \<Rightarrow> char \<Rightarrow> nat \<Rightarrow> nat \<Rightarrow> nat option res" where
  "memchr s c 0 i = Inr None"
| "memchr [] c (Suc n) i = Inl OutOfBounds"
| "memchr (x # s) c (Suc n) i = (if x = c then Inr (Some i) else memchr s c n (Suc i))"

text \<open>What is done with a message that was parsed: count it, find its metric, record it there.\<close>

definition record_msg :: "('h, slab_ptr) ck_ht \<Rightarrow> brubeck_statsd_msg \<Rightarrow> 'h brubeck_server \<Rightarrow> 'h brubeck_server res" where
  "record_msg ck msg server =
     (let server = server\<lparr>srv_stats := brubeck_stats_inc Metrics (srv_stats server)\<rparr> in
      rbind (brubeck_metric_find ck server (msg_key msg) (msg_type msg)) (\<lambda>(metric, server).
        case metric of
          None \<Rightarrow> Inr server
        | Some p \<Rightarrow>
            (case srv_heap server p of
               None \<Rightarrow> Inl NullPointer
             | Some m \<Rightarrow>
                 rbind (brubeck_metric_record m (msg_value msg) (msg_sample_freq msg) (msg_modifiers msg)) (\<lambda>m.
                   Inr (server\<lparr>srv_heap := (srv_heap server)(p \<mapsto> m)\<rparr>)))))"

definition handle_msg :: "('h, slab_ptr) ck_ht \<Rightarrow> brubeck_statsd_msg option \<Rightarrow> 'h brubeck_server \<Rightarrow> 'h brubeck_server res" where
  "handle_msg ck r server =
     (case r of
        None \<Rightarrow> Inr (server\<lparr>srv_stats := brubeck_stats_inc Errors (srv_stats server)\<rparr>)
      | Some msg \<Rightarrow> record_msg ck msg server)"

lemma memchr_ge: "memchr s c n i = Inr (Some j) \<Longrightarrow> i \<le> j"
  by (induction s c n i rule: memchr.induct) (auto split: if_splits)

text \<open>The loop over the lines of a packet from index \<open>buffer\<close> to index \<open>fin\<close>.\<close>

function packet_loop :: "(double \<Rightarrow> double \<Rightarrow> double) \<Rightarrow> ('h, slab_ptr) ck_ht \<Rightarrow> string \<Rightarrow> nat \<Rightarrow> nat \<Rightarrow>
    'h brubeck_server \<Rightarrow> (string \<times> 'h brubeck_server) res" where
  "packet_loop libm_pow ck buf buffer fin server =
     (if buffer < fin then
        rbind (memchr (drop buffer buf) LF (fin - buffer) buffer) (\<lambda>r.
        let stat_end = (case r of None \<Rightarrow> fin | Some i \<Rightarrow> i) in
        rbind (brubeck_statsd_msg_parse libm_pow buf buffer stat_end) (\<lambda>(buf, msg).
        rbind (handle_msg ck msg server) (\<lambda>server.
          packet_loop libm_pow ck buf (stat_end + 1) fin server)))
      else Inr (buf, server))"
  by pat_completeness auto
termination
  by (relation "measure (\<lambda>(pw, ck, buf, buffer, fin, server). fin - buffer)") (auto dest: memchr_ge split: option.splits)

declare packet_loop.simps [simp del]

definition brubeck_statsd_packet_parse :: "(double \<Rightarrow> double \<Rightarrow> double) \<Rightarrow> ('h, slab_ptr) ck_ht \<Rightarrow> string \<Rightarrow> nat \<Rightarrow>
    'h brubeck_server \<Rightarrow> (string \<times> 'h brubeck_server) res" where
  "brubeck_statsd_packet_parse libm_pow ck buf len server = packet_loop libm_pow ck buf 0 len server"

text \<open>The lines of a packet, and the bytes that the parser leaves of it.\<close>

function split_lines :: "string \<Rightarrow> string list" where
  "split_lines p =
     (if p = [] then []
      else takeWhile (\<lambda>c. c \<noteq> LF) p # split_lines (tl (dropWhile (\<lambda>c. c \<noteq> LF) p)))"
  by pat_completeness auto

lemma length_tl_dropWhile: "p \<noteq> [] \<Longrightarrow> length (tl (dropWhile P p)) < length p"
  using length_dropWhile_le [of P p] by (cases p) (auto simp: less_Suc_eq_le)

termination split_lines
  by (relation "measure length") (auto simp: length_tl_dropWhile simp del: length_tl)

function packet_after :: "string \<Rightarrow> char \<Rightarrow> string" where
  "packet_after p e =
     (if p = [] then [e]
      else cut_line (takeWhile (\<lambda>c. c \<noteq> LF) p) @
        (if dropWhile (\<lambda>c. c \<noteq> LF) p = [] then [NUL] else NUL # packet_after (tl (dropWhile (\<lambda>c. c \<noteq> LF) p)) e))"
  by pat_completeness auto

termination packet_after
  by (relation "measure (length \<circ> fst)") (auto simp: length_tl_dropWhile simp del: length_tl)

declare split_lines.simps [simp del] packet_after.simps [simp del]

fun handle_lines :: "(double \<Rightarrow> double \<Rightarrow> double) \<Rightarrow> ('h, slab_ptr) ck_ht \<Rightarrow> string list \<Rightarrow> 'h brubeck_server \<Rightarrow>
    'h brubeck_server res" where
  "handle_lines libm_pow ck [] s = Inr s"
| "handle_lines libm_pow ck (l # ls) s = rbind (handle_msg ck (line_msg libm_pow l) s) (handle_lines libm_pow ck ls)"

lemma memchr_line:
  "memchr (p @ e # post) c (length p) i =
    Inr (if c \<in> set p then Some (i + length (takeWhile (\<lambda>x. x \<noteq> c) p)) else None)"
  by (induction p arbitrary: i) auto

lemma packet_loop_done: "fin \<le> buffer \<Longrightarrow> packet_loop pw ck buf buffer fin = (\<lambda>s. Inr (buf, s))"
  by (rule ext) (simp add: packet_loop.simps)

text \<open>The parsers write inside the buffer and keep its length.\<close>

lemma msg_parse_length: "brubeck_statsd_msg_parse pw buf i fin = Inr (buf', r) \<Longrightarrow> length buf' = length buf"
  by (auto simp: brubeck_statsd_msg_parse_def Let_def rbind_Inr_iff dest!: wr_length split: option.splits if_splits)

lemma packet_loop_length: "packet_loop pw ck buf i fin s = Inr (buf', s') \<Longrightarrow> length buf' = length buf"
proof (induction pw ck buf i fin s rule: packet_loop.induct)
  case (1 pw ck buf i fin s)
  show ?case
  proof (cases "i < fin")
    case True
    with 1(2) obtain r buf1 msg s1 where "memchr (drop i buf) LF (fin - i) i = Inr r"
      "brubeck_statsd_msg_parse pw buf i (case r of None \<Rightarrow> fin | Some i \<Rightarrow> i) = Inr (buf1, msg)" "handle_msg ck msg s = Inr s1"
      "packet_loop pw ck buf1 ((case r of None \<Rightarrow> fin | Some i \<Rightarrow> i) + 1) fin s1 = Inr (buf', s')"
      by (subst (asm) packet_loop.simps) (auto simp: Let_def rbind_Inr_iff)
    with 1(1) [OF True] msg_parse_length show ?thesis by metis
  qed (use 1(2) in \<open>simp add: packet_loop.simps\<close>)
qed

lemma line_split:
  "LF \<notin> set p \<Longrightarrow> takeWhile (\<lambda>c. c \<noteq> LF) p = p" "LF \<notin> set p \<Longrightarrow> dropWhile (\<lambda>c. c \<noteq> LF) p = []"
  "LF \<notin> set p \<Longrightarrow> takeWhile (\<lambda>c. c \<noteq> LF) (p @ LF # d) = p" "LF \<notin> set p \<Longrightarrow> dropWhile (\<lambda>c. c \<noteq> LF) (p @ LF # d) = LF # d"
  by (induction p) auto

lemma split_lines_simps:
  shows "split_lines [] = []" "p \<noteq> [] \<Longrightarrow> LF \<notin> set p \<Longrightarrow> split_lines p = [p]"
    and "LF \<notin> set l \<Longrightarrow> split_lines (l @ LF # d) = l # split_lines d"
proof -
  show n: "split_lines [] = []" by (simp add: split_lines.simps)
  show "split_lines p = [p]" if "p \<noteq> []" "LF \<notin> set p"
    using that by (subst split_lines.simps) (simp only: line_split n list.sel if_False simp_thms)
  show "split_lines (l @ LF # d) = l # split_lines d" if "LF \<notin> set l"
    using that by (subst split_lines.simps) (simp only: line_split list.sel append_is_Nil_conv list.distinct simp_thms if_False)
qed

lemma packet_after_simps:
  shows "packet_after [] e = [e]" "p \<noteq> [] \<Longrightarrow> LF \<notin> set p \<Longrightarrow> packet_after p e = cut_line p @ [NUL]"
    and "LF \<notin> set l \<Longrightarrow> packet_after (l @ LF # d) e = cut_line l @ NUL # packet_after d e"
proof -
  show "packet_after [] e = [e]" by (simp add: packet_after.simps)
  show "packet_after p e = cut_line p @ [NUL]" if "p \<noteq> []" "LF \<notin> set p"
    using that by (subst packet_after.simps) (simp only: line_split simp_thms if_False if_True)
  show "packet_after (l @ LF # d) e = cut_line l @ NUL # packet_after d e" if "LF \<notin> set l"
    using that by (subst packet_after.simps)
      (simp only: line_split list.sel append_is_Nil_conv list.distinct simp_thms if_False)
qed

text \<open>Every text is its first line with what follows, or one line.\<close>

lemma line_induct [case_names Nil Last Next]:
  assumes "P []" "\<And>p. p \<noteq> [] \<Longrightarrow> LF \<notin> set p \<Longrightarrow> P p" "\<And>l d. LF \<notin> set l \<Longrightarrow> P d \<Longrightarrow> P (l @ LF # d)"
  shows "P p"
proof (induction p rule: length_induct)
  case (1 p)
  show ?case
  proof (cases "LF \<in> set p")
    case True
    then obtain l d where "p = l @ LF # d" "LF \<notin> set l" by (meson split_list_first)
    with 1 assms(3) show ?thesis by simp
  next
    case False
    with assms(1,2) show ?thesis by (cases "p = []") auto
  qed
qed

lemma packet_loop_last:
  assumes "p \<noteq> []" "LF \<notin> set p" "starts_ok pre p" "length p < 2 ^ 16"
  shows "packet_loop pw ck (pre @ p @ e # post) (length pre) (length pre + length p) s =
    rbind (handle_msg ck (line_msg pw p) s) (\<lambda>s. Inr (pre @ cut_line p @ NUL # post, s))"
  using msg_parse_line [OF assms(3,4), of pw e post] assms(1,2) memchr_line [of p e post LF "length pre"]
  by (subst packet_loop.simps) (simp add: packet_loop_done Let_def)

lemma packet_loop_next:
  assumes "LF \<notin> set l" "starts_ok pre l" "length l < 2 ^ 16"
  shows "packet_loop pw ck (pre @ (l @ LF # d) @ e # post) (length pre) (length pre + length (l @ LF # d)) s =
    rbind (handle_msg ck (line_msg pw l) s) (\<lambda>s'. packet_loop pw ck ((pre @ cut_line l @ [NUL]) @ d @ e # post)
      (length (pre @ cut_line l @ [NUL])) (length (pre @ cut_line l @ [NUL]) + length d) s')"
proof -
  have "memchr ((l @ LF # d) @ e # post) LF (length (l @ LF # d)) (length pre) = Inr (Some (length pre + length l))"
    unfolding memchr_line using assms(1) by (simp add: takeWhile_append)
  then show ?thesis
    using msg_parse_line [OF assms(2,3), of pw LF "d @ e # post"]
    by (subst packet_loop.simps) (simp add: Let_def add.assoc)
qed

lemma packet_loop_lines:
  assumes "starts_ok pre p" "length p < 2 ^ 16"
  shows "packet_loop pw ck (pre @ p @ e # post) (length pre) (length pre + length p) s =
    rbind (handle_lines pw ck (split_lines p) s) (\<lambda>s'. Inr (pre @ packet_after p e @ post, s'))"
  using assms
proof (induction p arbitrary: pre s rule: line_induct)
  case Nil
  then show ?case by (simp add: packet_loop.simps split_lines_simps packet_after_simps)
next
  case (Last p)
  from Last(1,2) show ?case unfolding packet_loop_last [OF Last]
    by (simp add: split_lines_simps packet_after_simps rbind_def split: sum.splits)
next
  case (Next l d)
  let ?pre = "pre @ cut_line l @ [NUL]"
  have l: "starts_ok pre l" "length l < 2 ^ 16" using Next.prems by (auto simp: starts_ok_def hd_append split: if_splits)
  have "packet_loop pw ck (?pre @ d @ e # post) (length ?pre) (length ?pre + length d) s' =
      rbind (handle_lines pw ck (split_lines d) s') (\<lambda>s''. Inr (?pre @ packet_after d e @ post, s''))" for s'
    by (rule Next.IH) (use Next.prems in \<open>simp_all add: starts_ok_def\<close>)
  with Next.hyps show ?case unfolding packet_loop_next [OF Next.hyps l]
    by (simp add: split_lines_simps packet_after_simps rbind_def split: sum.splits)
qed

section \<open>The registry as a map from keys to metrics\<close>

definition view :: "('h, slab_ptr) ck_ht \<Rightarrow> 'h brubeck_server \<Rightarrow> string \<Rightarrow> brubeck_metric option" where
  "view ck s k = (if short_key k then Option.bind (find_str ck (srv_metrics s) k) (srv_heap s) else None)"

text \<open>A message on this map: the metric of its key, made if it is new, with the value recorded.\<close>

definition spec_msg :: "brubeck_statsd_msg \<Rightarrow> (string \<Rightarrow> brubeck_metric option) \<Rightarrow> (string \<Rightarrow> brubeck_metric option) res" where
  "spec_msg msg V =
     (let m = (case V (msg_key msg) of
                 None \<Rightarrow> blank_metric (msg_key msg) (msg_type msg)
               | Some m \<Rightarrow> m\<lparr>m_expire := BRUBECK_EXPIRE_ACTIVE\<rparr>)
      in rbind (brubeck_metric_record m (msg_value msg) (msg_sample_freq msg) (msg_modifiers msg)) (\<lambda>m.
           Inr (V(msg_key msg \<mapsto> m))))"

fun spec_lines :: "(double \<Rightarrow> double \<Rightarrow> double) \<Rightarrow> string list \<Rightarrow> (string \<Rightarrow> brubeck_metric option) \<Rightarrow>
    (string \<Rightarrow> brubeck_metric option) res" where
  "spec_lines libm_pow [] V = Inr V"
| "spec_lines libm_pow (l # ls) V =
     (case line_msg libm_pow l of
        None \<Rightarrow> spec_lines libm_pow ls V
      | Some msg \<Rightarrow> rbind (spec_msg msg V) (spec_lines libm_pow ls))"

text \<open>The counters of metrics and errors advance by \<open>a\<close> and \<open>b\<close>, the other events do not occur.\<close>

definition counted :: "nat \<Rightarrow> nat \<Rightarrow> 'h brubeck_server \<Rightarrow> 'h brubeck_server \<Rightarrow> bool" where
  "counted a b s s' \<longleftrightarrow> (\<forall>st. st \<noteq> UniqueKeys \<longrightarrow>
     get_stat st (st_live (srv_stats s')) = get_stat st (st_live (srv_stats s)) +
       (if st = Metrics then word_of_nat a else if st = Errors then word_of_nat b else 0))"

definition refines :: "('h, slab_ptr) ck_ht \<Rightarrow> ('h \<Rightarrow> bool) \<Rightarrow> nat \<Rightarrow> nat \<Rightarrow> 'h brubeck_server \<Rightarrow> 'h brubeck_server res \<Rightarrow>
    (string \<Rightarrow> brubeck_metric option) res \<Rightarrow> bool" where
  "refines ck tinv a b s r R \<longleftrightarrow>
     (case R of
        Inl e \<Rightarrow> r = Inl e
      | Inr V \<Rightarrow> \<exists>s'. r = Inr s' \<and> registry_ok ck tinv s' \<and> \<not> at_capacity s' \<and> view ck s' = V \<and> counted a b s s')"

lemma view_find:
  assumes "find_spec ck tinv s key t p s'" "registry_ok ck tinv s" "short_key key"
  shows "\<exists>m. srv_heap s' p = Some m \<and> view ck s' = (view ck s)(key \<mapsto> m)
    \<and> m = (case view ck s key of None \<Rightarrow> blank_metric key t | Some m \<Rightarrow> m\<lparr>m_expire := BRUBECK_EXPIRE_ACTIVE\<rparr>)
    \<and> (\<forall>j. short_key j \<longrightarrow> j \<noteq> key \<longrightarrow> find_str ck (srv_metrics s') j \<noteq> Some p)"
proof -
  have F: "registry_ok ck tinv s'" "\<And>q. q \<noteq> p \<Longrightarrow> srv_heap s' q = srv_heap s q"
    "\<And>j. short_key j \<Longrightarrow> find_str ck (srv_metrics s') j = (if j = key then Some p else find_str ck (srv_metrics s) j)"
    "case find_str ck (srv_metrics s) key of
       Some q \<Rightarrow> p = q \<and> queued s' = queued s \<and> srv_stats s' = srv_stats s
         \<and> (\<exists>m. srv_heap s q = Some m \<and> srv_heap s' q = Some (m\<lparr>m_expire := BRUBECK_EXPIRE_ACTIVE\<rparr>))
     | None \<Rightarrow> srv_heap s p = None \<and> srv_heap s' p = Some (blank_metric key t)
         \<and> mset (queued s') = add_mset p (mset (queued s)) \<and> srv_stats s' = brubeck_stats_inc UniqueKeys (srv_stats s)"
    using assms(1) unfolding find_spec_def by blast+
  have other: "find_str ck (srv_metrics s') j \<noteq> Some p" if "short_key j" "j \<noteq> key" for j
  proof
    assume "find_str ck (srv_metrics s') j = Some p"
    from registry_okD(9) [OF F(1) that(1) this] registry_okD(9) [OF F(1) assms(3), of p] F(3) [OF assms(3)] that(2)
    show False by auto
  qed
  obtain m where m: "srv_heap s' p = Some m"
    "m = (case view ck s key of None \<Rightarrow> blank_metric key t | Some m \<Rightarrow> m\<lparr>m_expire := BRUBECK_EXPIRE_ACTIVE\<rparr>)"
    using F(4) assms(3) by (auto simp: view_def split: option.splits)
  moreover have "view ck s' = (view ck s)(key \<mapsto> m)"
  proof
    fix j
    show "view ck s' j = ((view ck s)(key \<mapsto> m)) j"
      using F(2,3) other [of j] m(1) assms(3)
      by (cases "find_str ck (srv_metrics s) j") (auto simp: view_def)
  qed
  ultimately show ?thesis using other by blast
qed

lemma view_put:
  assumes "short_key key" "find_str ck (srv_metrics s) key = Some p"
    "\<And>j. short_key j \<Longrightarrow> j \<noteq> key \<Longrightarrow> find_str ck (srv_metrics s) j \<noteq> Some p"
  shows "view ck (put_metric s p m) = (view ck s)(key \<mapsto> m)"
proof
  fix j
  show "view ck (put_metric s p m) j = ((view ck s)(key \<mapsto> m)) j"
    using assms(1,2) assms(3) [of j] by (cases "find_str ck (srv_metrics s) j") (auto simp: view_def)
qed

lemma record_msg_refines:
  assumes ck: "ck_table ck tinv" and ok: "registry_ok ck tinv s" "\<not> at_capacity s" and key: "length (msg_key msg) \<le> 4031"
  shows "refines ck tinv 1 0 s (record_msg ck msg s) (spec_msg msg (view ck s))"
proof -
  let ?s = "s\<lparr>srv_stats := brubeck_stats_inc Metrics (srv_stats s)\<rparr>" and ?k = "msg_key msg"
  have sk: "short_key ?k" using key by (simp add: short_key_def)
  have ok': "registry_ok ck tinv ?s" using ok by (simp add: inc_ok)
  obtain p s1 where f: "brubeck_metric_find ck ?s ?k (msg_type msg) = Inr (Some p, s1)"
    "find_spec ck tinv ?s ?k (msg_type msg) p s1"
    using metric_find_ok [OF ck ok' _ key, of "msg_type msg"] ok(2) by auto
  have v0: "view ck ?s = view ck s" by (rule ext) (simp add: view_def)
  from view_find [OF f(2) ok' sk] obtain m where m: "srv_heap s1 p = Some m" "view ck s1 = (view ck s)(?k \<mapsto> m)"
    "m = (case view ck s ?k of None \<Rightarrow> blank_metric ?k (msg_type msg) | Some m \<Rightarrow> m\<lparr>m_expire := BRUBECK_EXPIRE_ACTIVE\<rparr>)"
    "\<And>j. short_key j \<Longrightarrow> j \<noteq> ?k \<Longrightarrow> find_str ck (srv_metrics s1) j \<noteq> Some p"
    unfolding v0 by blast
  have s1: "registry_ok ck tinv s1" "\<not> at_capacity s1" "find_str ck (srv_metrics s1) ?k = Some p"
    using f(2) ok(2) sk by (simp_all add: find_spec_def)
  have cnt: "counted 1 0 s (put_metric s1 p m')" for m'
    using f(2) by (auto simp: counted_def find_spec_def split: option.splits)
  let ?r = "brubeck_metric_record m (msg_value msg) (msg_sample_freq msg) (msg_modifiers msg)"
  have rm: "record_msg ck msg s = rbind ?r (\<lambda>m'. Inr (put_metric s1 p m'))"
    by (simp add: record_msg_def Let_def f(1) m(1) put_metric_def)
  have sm: "spec_msg msg (view ck s) = rbind ?r (\<lambda>m'. Inr ((view ck s)(?k \<mapsto> m')))"
    by (simp add: spec_msg_def Let_def m(3) del: fun_upd_apply)
  show ?thesis
  proof (cases ?r)
    case (Inl e)
    then show ?thesis by (simp add: refines_def rm sm)
  next
    case (Inr m')
    have "wf_metric m" using registry_okD(5) [OF s1(1) m(1)] .
    then have "wf_metric m'"
      using record_kept [OF Inr] record_histo_ok [OF _ Inr] by (simp add: wf_metric_def)
    then have "registry_ok ck tinv (put_metric s1 p m')" using put_ok [OF s1(1) m(1)] record_kept [OF Inr] by simp
    moreover have "view ck (put_metric s1 p m') = (view ck s)(?k \<mapsto> m')"
      using view_put [OF sk s1(3) m(4)] m(2) by simp
    ultimately show ?thesis using s1(2) cnt Inr by (simp add: refines_def rm sm)
  qed
qed

lemma counted_trans: "counted a b s s' \<Longrightarrow> counted a' b' s' s'' \<Longrightarrow> counted (a + a') (b + b') s s''"
  by (auto simp: counted_def)

lemma handle_msg_refines:
  assumes "ck_table ck tinv" "registry_ok ck tinv s" "\<not> at_capacity s" "\<And>msg. r = Some msg \<Longrightarrow> length (msg_key msg) \<le> 4031"
  shows "refines ck tinv (if r = None then 0 else 1) (if r = None then 1 else 0) s (handle_msg ck r s)
    (case r of None \<Rightarrow> Inr (view ck s) | Some msg \<Rightarrow> spec_msg msg (view ck s))"
proof (cases r)
  case None
  have "view ck (s\<lparr>srv_stats := x\<rparr>) = view ck s" for x by (rule ext) (simp add: view_def)
  then show ?thesis using assms(2,3) by (simp add: None handle_msg_def refines_def inc_ok counted_def)
next
  case (Some msg)
  with record_msg_refines [OF assms(1-3), of msg] assms(4) show ?thesis by (simp add: handle_msg_def)
qed

lemma handle_lines_refines:
  assumes "ck_table ck tinv" "registry_ok ck tinv s" "\<not> at_capacity s"
    "\<forall>l\<in>set ls. \<forall>msg. line_msg pw l = Some msg \<longrightarrow> length (msg_key msg) \<le> 4031"
  shows "refines ck tinv (length (filter (\<lambda>l. line_msg pw l \<noteq> None) ls)) (length (filter (\<lambda>l. line_msg pw l = None) ls)) s
    (handle_lines pw ck ls s) (spec_lines pw ls (view ck s))"
  using assms(2-4)
proof (induction ls arbitrary: s)
  case Nil
  then show ?case by (simp add: refines_def counted_def)
next
  case (Cons l ls)
  let ?r = "line_msg pw l" and ?a = "\<lambda>ls. length (filter (\<lambda>l. line_msg pw l \<noteq> None) ls)"
    and ?b = "\<lambda>ls. length (filter (\<lambda>l. line_msg pw l = None) ls)"
  let ?V = "case ?r of None \<Rightarrow> Inr (view ck s) | Some msg \<Rightarrow> spec_msg msg (view ck s)"
  have h: "refines ck tinv (if ?r = None then 0 else 1) (if ?r = None then 1 else 0) s (handle_msg ck ?r s) ?V"
    by (rule handle_msg_refines) (use Cons.prems assms(1) in auto)
  have sp: "spec_lines pw (l # ls) (view ck s) = rbind ?V (spec_lines pw ls)" by (cases ?r) simp_all
  show ?case
  proof (cases ?V)
    case (Inl e)
    with h show ?thesis unfolding sp by (simp add: refines_def)
  next
    case (Inr V)
    with h obtain s1 where s1: "handle_msg ck ?r s = Inr s1" "registry_ok ck tinv s1" "\<not> at_capacity s1" "view ck s1 = V"
      "counted (if ?r = None then 0 else 1) (if ?r = None then 1 else 0) s s1"
      by (auto simp: refines_def)
    have IH: "refines ck tinv (?a ls) (?b ls) s1 (handle_lines pw ck ls s1) (spec_lines pw ls V)"
      using Cons.IH [OF s1(2,3)] Cons.prems(3) s1(4) by simp
    have "counted (?a (l # ls)) (?b (l # ls)) s s2" if "counted (?a ls) (?b ls) s1 s2" for s2
      using counted_trans [OF s1(5) that] by (cases ?r) simp_all
    with IH s1(1) show ?thesis unfolding sp Inr by (auto simp: refines_def split: sum.splits)
  qed
qed

section \<open>Well-formed messages\<close>

fun type_text :: "brubeck_metric_t \<Rightarrow> string" where
  "type_text MT_GAUGE = ''g''"
| "type_text MT_METER = ''c''"
| "type_text MT_COUNTER = ''C''"
| "type_text MT_HISTO = ''h''"
| "type_text MT_TIMER = ''ms''"
| "type_text MT_INTERNAL_STATS = []"

text \<open>A message with a signed whole number and, optionally, the decimals of a sampling rate.\<close>

definition statsd_text :: "string \<Rightarrow> string \<Rightarrow> nat \<Rightarrow> brubeck_metric_t \<Rightarrow> string option \<Rightarrow> string" where
  "statsd_text key sg n t rate =
     key @ '':'' @ sg @ dec n @ ''|'' @ type_text t @ (case rate of None \<Rightarrow> [] | Some ds \<Rightarrow> ''|@0.'' @ ds)"

definition num :: "nat \<Rightarrow> string \<Rightarrow> nat" where
  "num = foldl (\<lambda>v c. v * 10 + digit_val c)"

definition rate_of :: "(double \<Rightarrow> double \<Rightarrow> double) \<Rightarrow> string \<Rightarrow> double" where
  "rate_of libm_pow ds = dadd 0 (ddiv (d_of_nat (num 0 ds)) (libm_pow (d_of_nat 10) (d_of_nat (length ds))))"

lemma num_simps [simp]: "num v [] = v" "num v (c # s) = num (v * 10 + digit_val c) s" "num v (s @ s') = num (num v s) s'"
  by (simp_all add: num_def)

lemma num_ge: "v \<le> num v s"
proof (induction s arbitrary: v)
  case (Cons c s)
  show ?case using Cons [of "v * 10 + digit_val c"] by simp
qed simp

lemma digit_is_digit: "d < 10 \<Longrightarrow> is_digit (digit d) \<and> digit_val (digit d) = d"
  by (simp add: digit_def is_digit_def digit_val_def of_char_of)

lemma dec_digits: "(\<forall>c\<in>set (dec n). is_digit c) \<and> num 0 (dec n) = n \<and> dec n \<noteq> []"
proof (induction n rule: dec.induct)
  case (1 n)
  then show ?case by (cases "n < 10") (simp_all add: dec.simps [of n] digit_is_digit ball_Un)
qed

lemma float_digits_num:
  assumes "\<forall>c\<in>set ds. is_digit c" "\<not> is_digit e" "num v ds < 2 ^ 53"
  shows "float_digits (ds @ e # r) (d_of_nat v) k = Inr (d_of_nat (num v ds), k + length ds, e # r)"
  using assms
proof (induction ds arbitrary: v k)
  case (Cons c ds)
  have b: "v * 10 + digit_val c < 2 ^ 53" using num_ge [of "v * 10 + digit_val c" ds] Cons.prems(3) by simp
  have "dmul (d_of_nat v) (d_of_nat 10) = d_of_nat (v * 10)" by (rule dmul_of_nat) (use b in simp_all)
  with b have "dadd (dmul (d_of_nat v) (d_of_nat 10)) (d_of_nat (digit_val c)) = d_of_nat (v * 10 + digit_val c)"
    by (simp add: dadd_of_nat)
  with Cons show ?case by simp
qed simp

lemma not_digit_simps [simp]: "\<not> is_digit (CHR ''|'')" "\<not> is_digit (CHR ''.'')" "\<not> is_digit (CHR ''-'')" "\<not> is_digit (CHR ''+'')"
  by (simp_all add: is_digit_def)

lemma parse_float_dec:
  assumes "n < 2 ^ 53" "sg \<in> {[], ''+'', ''-''}"
  shows "parse_float pw (sg @ dec n @ CHR ''|'' # r) mods =
    Inr (if sg = ''-'' then dneg (d_of_nat n) else d_of_nat n, if sg = [] then mods else mods OR BRUBECK_MOD_RELATIVE_VALUE,
      CHR ''|'' # r)"
proof -
  obtain c ds where d: "dec n = c # ds" "is_digit c" using dec_digits [of n] by (cases "dec n") auto
  then have c: "c \<noteq> CHR ''-''" "c \<noteq> CHR ''+''" by auto
  have "float_digits (dec n @ CHR ''|'' # r) 0 0 = Inr (d_of_nat n, length (dec n), CHR ''|'' # r)"
    using float_digits_num [of "dec n" "CHR ''|''" 0 r 0] dec_digits [of n] assms(1) by (simp add: d_of_nat_0)
  then show ?thesis using assms(2) c by (auto simp: parse_float_def d(1) parse_fraction_def)
qed

lemma parse_float_rate:
  assumes "\<forall>c\<in>set ds. is_digit c" "num 0 ds < 2 ^ 53"
  shows "parse_float pw (''0.'' @ ds @ NUL # r) mods = Inr (rate_of pw ds, mods, NUL # r)"
proof -
  have "float_digits (ds @ NUL # r) 0 0 = Inr (d_of_nat (num 0 ds), length ds, NUL # r)"
    using float_digits_num [of ds NUL 0 r 0] assms by (simp add: d_of_nat_0)
  moreover have "float_digits (''0.'' @ ds @ NUL # r) 0 0 = Inr (0, 1, CHR ''.'' # ds @ NUL # r)"
    using float_digits_num [of "''0''" "CHR ''.''" 0 "ds @ NUL # r" 0] by (simp add: d_of_nat_0 is_digit_def digit_val_def)
  ultimately show ?thesis by (simp add: parse_float_def parse_fraction_def rate_of_def)
qed

definition text_msg :: "(double \<Rightarrow> double \<Rightarrow> double) \<Rightarrow> string \<Rightarrow> string \<Rightarrow> nat \<Rightarrow> brubeck_metric_t \<Rightarrow> string option \<Rightarrow>
    brubeck_statsd_msg option" where
  "text_msg libm_pow key sg n t rate =
     (if (\<exists>ds. rate = Some ds \<and> (dle (rate_of libm_pow ds) 0 \<or> dlt (d_of_nat 1) (rate_of libm_pow ds))) then None
      else Some \<lparr>msg_key = key, msg_key_len = word_of_nat (length key), msg_type = t,
        msg_value = (if sg = ''-'' then dneg (d_of_nat n) else d_of_nat n),
        msg_sample_freq = (case rate of None \<Rightarrow> d_of_nat 1 | Some ds \<Rightarrow> ddiv (d_of_nat 1) (rate_of libm_pow ds)),
        msg_modifiers = (if sg = [] then 0 else BRUBECK_MOD_RELATIVE_VALUE)\<rparr>)"

definition plain_key :: "string \<Rightarrow> bool" where
  "plain_key key \<longleftrightarrow> NUL \<notin> set key \<and> CHR '':'' \<notin> set key \<and> CHR '' '' \<notin> set key \<and> (key = [] \<or> last key \<noteq> CHR ''.'')"

lemma line_key_plain: "plain_key key \<Longrightarrow> line_key (key @ CHR '':'' # rest) = Some key"
proof -
  have "NUL \<notin> set key \<Longrightarrow> CHR '':'' \<notin> set key \<Longrightarrow> CHR '' '' \<notin> set key \<Longrightarrow> line_key (key @ CHR '':'' # rest) = Some key"
    by (induction key) (auto simp: line_key_Cons)
  then show "plain_key key \<Longrightarrow> line_key (key @ CHR '':'' # rest) = Some key" by (simp add: plain_key_def)
qed

lemma parse_type_text: "t \<noteq> MT_INTERNAL_STATS \<Longrightarrow> parse_type (type_text t @ r) = Inr (Some (t, r))"
  by (cases t) simp_all

lemma parse_rate_text:
  assumes "\<forall>ds. rate = Some ds \<longrightarrow> (\<forall>c\<in>set ds. is_digit c) \<and> num 0 ds < 2 ^ 53"
  shows "parse_rate pw ((case rate of None \<Rightarrow> [] | Some ds \<Rightarrow> ''|@0.'' @ ds) @ NUL # r) =
    Inr (if (\<exists>ds. rate = Some ds \<and> (dle (rate_of pw ds) 0 \<or> dlt (d_of_nat 1) (rate_of pw ds))) then None
         else Some (case rate of None \<Rightarrow> d_of_nat 1 | Some ds \<Rightarrow> ddiv (d_of_nat 1) (rate_of pw ds)))"
proof (cases rate)
  case None
  then show ?thesis by (simp add: parse_rate_def at_end_def rd_def)
next
  case (Some ds)
  then show ?thesis using assms parse_float_rate [of ds pw r 0]
    by (auto simp: parse_rate_def at_end_def rd_def)
qed

lemma line_msg_text:
  assumes "plain_key key" "sg \<in> {[], ''+'', ''-''}" "n < 2 ^ 53" "t \<noteq> MT_INTERNAL_STATS"
    "\<forall>ds. rate = Some ds \<longrightarrow> (\<forall>c\<in>set ds. is_digit c) \<and> num 0 ds < 2 ^ 53"
  shows "line_msg pw (statsd_text key sg n t rate) = text_msg pw key sg n t rate"
proof -
  let ?rt = "case rate of None \<Rightarrow> [] | Some ds \<Rightarrow> ''|@0.'' @ ds"
  have k: "line_key (statsd_text key sg n t rate) = Some key"
    using line_key_plain [OF assms(1)] by (simp add: statsd_text_def)
  have "drop (Suc (length key)) (statsd_text key sg n t rate) @ [NUL] = sg @ dec n @ CHR ''|'' # type_text t @ ?rt @ [NUL]"
    by (simp add: statsd_text_def)
  moreover have "parse_body pw (sg @ dec n @ CHR ''|'' # type_text t @ ?rt @ [NUL]) =
      Inr (if (\<exists>ds. rate = Some ds \<and> (dle (rate_of pw ds) 0 \<or> dlt (d_of_nat 1) (rate_of pw ds))) then None
           else Some (if sg = ''-'' then dneg (d_of_nat n) else d_of_nat n,
                      if sg = [] then 0 else BRUBECK_MOD_RELATIVE_VALUE, t,
                      case rate of None \<Rightarrow> d_of_nat 1 | Some ds \<Rightarrow> ddiv (d_of_nat 1) (rate_of pw ds)))"
    using parse_rate_text [OF assms(5), of pw "[]"]
    by (simp add: parse_body_def parse_float_dec [OF assms(3,2)] rd_def parse_type_text [OF assms(4)])
  ultimately show ?thesis using assms(1)
    unfolding line_msg_def k option.case by (auto simp: text_msg_def make_msg_def plain_key_def)
qed

section \<open>Properties\<close>

text \<open>
  C1. On the registry seen as a map from keys to metrics, a packet does what its lines say: each
  valid line records its value in the metric of its key, which is made when it is new, each
  invalid line only counts as an error, and the registry stays consistent. The model fails exactly
  when recording one of the values does.
\<close>

theorem statsd_packet_refines:
  assumes "ck_table ck tinv" "registry_ok ck tinv s" "\<not> at_capacity s"
    "p = [] \<or> hd p \<noteq> CHR '':''" "length p < 2 ^ 16"
    "\<forall>l\<in>set (split_lines p). \<forall>msg. line_msg pw l = Some msg \<longrightarrow> length (msg_key msg) \<le> 4031"
  shows "case spec_lines pw (split_lines p) (view ck s) of
      Inl err \<Rightarrow> brubeck_statsd_packet_parse pw ck (p @ e # post) (length p) s = Inl err
    | Inr V \<Rightarrow> \<exists>buf s'. brubeck_statsd_packet_parse pw ck (p @ e # post) (length p) s = Inr (buf, s')
        \<and> registry_ok ck tinv s' \<and> view ck s' = V
        \<and> get_stat Metrics (st_live (srv_stats s')) = get_stat Metrics (st_live (srv_stats s))
            + word_of_nat (length (filter (\<lambda>l. line_msg pw l \<noteq> None) (split_lines p)))
        \<and> get_stat Errors (st_live (srv_stats s')) = get_stat Errors (st_live (srv_stats s))
            + word_of_nat (length (filter (\<lambda>l. line_msg pw l = None) (split_lines p)))"
  using handle_lines_refines [OF assms(1-3,6)] packet_loop_lines [of "[]" p pw ck e post s] assms(4,5)
  by (auto simp: refines_def counted_def brubeck_statsd_packet_parse_def starts_ok_def split: sum.splits)

theorem statsd_packet_refines_witness:
  "\<exists>buf s'. brubeck_statsd_packet_parse dadd list_ck (''a:2|c'' @ [NUL]) (length ''a:2|c'') (one_backend ''b'') = Inr (buf, s')
     \<and> view list_ck s' ''a'' = Some ((blank_metric ''a'' MT_METER)\<lparr>as_value := d_of_nat 2\<rparr>)
     \<and> get_stat Metrics (st_live (srv_stats s')) = 1"
proof -
  let ?p = "''a:2|c''" and ?s = "one_backend ''b''"
  have ls: "split_lines ?p = [?p]" by (simp add: split_lines.simps)
  have "statsd_text ''a'' [] 2 MT_METER None = ?p" by code_simp
  with line_msg_text [of "''a''" "[]" 2 MT_METER None dadd] have msg: "line_msg dadd ?p = text_msg dadd ''a'' [] 2 MT_METER None"
    by (simp add: plain_key_def)
  have v: "view list_ck ?s = Map.empty"
    by (rule ext) (simp add: view_def one_backend_def find_str_def brubeck_hashtable_find_def list_ck_def)
  have "dmul (d_of_nat 2) (d_of_nat 1) = d_of_nat (2 * 1)" "dadd (d_of_nat 0) (d_of_nat 2) = d_of_nat (0 + 2)"
    by (rule dmul_of_nat dadd_of_nat; simp)+
  then have "dadd 0 (dmul (d_of_nat 2) (d_of_nat 1)) = d_of_nat 2" by (simp only: d_of_nat_0 mult_1_right add_0)
  then have sp: "spec_lines dadd (split_lines ?p) (view list_ck ?s) = Inr [''a'' \<mapsto> (blank_metric ''a'' MT_METER)\<lparr>as_value := d_of_nat 2\<rparr>]"
    unfolding ls v by (simp add: msg text_msg_def spec_msg_def Let_def brubeck_metric_record_def meter_record_def)
      (simp add: blank_metric_def)
  have len: "\<forall>l\<in>set (split_lines ?p). \<forall>msg. line_msg dadd l = Some msg \<longrightarrow> length (msg_key msg) \<le> 4031"
    unfolding ls by (simp add: msg text_msg_def)
  show ?thesis
    using statsd_packet_refines [OF list_table.ck_table_axioms one_backend_ok _ _ _ len, of "''b''" NUL "[]"]
    unfolding sp by (auto simp: one_backend_def zero_stats_def get_stat.simps ls msg text_msg_def)
qed

text \<open>
  C8. Round trip of the message format: a message that a client builds from a key, a whole number
  with an optional sign, a kind and optional decimals of a sampling rate is parsed back to exactly
  these, and is refused exactly when its rate is not above 0 and at most 1.
\<close>

theorem statsd_text_roundtrip:
  assumes "plain_key key" "key \<noteq> []" "sg \<in> {[], ''+'', ''-''}" "n < 2 ^ 53" "t \<noteq> MT_INTERNAL_STATS"
    "\<forall>ds. rate = Some ds \<longrightarrow> (\<forall>c\<in>set ds. is_digit c) \<and> num 0 ds < 2 ^ 53"
    "length (statsd_text key sg n t rate) < 2 ^ 16"
  shows "\<exists>buf. brubeck_statsd_msg_parse pw (statsd_text key sg n t rate @ e # post) 0 (length (statsd_text key sg n t rate)) =
    Inr (buf, text_msg pw key sg n t rate)"
  using msg_parse_line [of "[]" "statsd_text key sg n t rate" pw e post] line_key_plain [OF assms(1)]
    line_msg_text [OF assms(1,3-6)] assms(1,2,7)
  by (cases key) (auto simp: statsd_text_def starts_ok_def plain_key_def)

theorem statsd_text_roundtrip_witness:
  "\<exists>buf. brubeck_statsd_msg_parse dadd (''gorets:12|ms'' @ [NUL]) 0 (length ''gorets:12|ms'') =
     Inr (buf, Some \<lparr>msg_key = ''gorets'', msg_key_len = 6, msg_type = MT_TIMER, msg_value = d_of_nat 12,
       msg_sample_freq = d_of_nat 1, msg_modifiers = 0\<rparr>)"
proof -
  have "statsd_text ''gorets'' [] 12 MT_TIMER None = ''gorets:12|ms''"
    by code_simp
  then show ?thesis
    using statsd_text_roundtrip [of "''gorets''" "[]" 12 MT_TIMER None dadd NUL "[]"]
    by (simp add: plain_key_def text_msg_def)
qed

text \<open>
  A packet that starts with a colon has an empty key, and the parser then reads the byte in
  front of the packet buffer.
\<close>

theorem empty_key_underflow:
  "brubeck_statsd_packet_parse pw ck (CHR '':'' # rest @ [e]) (Suc (length rest)) s = Inl OutOfBounds"
proof -
  have "\<exists>i. memchr ((CHR '':'' # rest) @ [e]) LF (length (CHR '':'' # rest)) 0 = Inr i \<and> (\<forall>j. i = Some j \<longrightarrow> 0 < j \<and> j \<le> Suc (length rest))"
    using memchr_line [of "CHR '':'' # rest" e "[]" LF 0] length_takeWhile_le [of "\<lambda>c. c \<noteq> LF" rest] by auto
  then obtain i where i: "memchr (CHR '':'' # rest @ [e]) LF (Suc (length rest)) 0 = Inr i" "\<forall>j. i = Some j \<longrightarrow> 0 < j \<and> j \<le> Suc (length rest)"
    by auto
  let ?f = "case i of None \<Rightarrow> Suc (length rest) | Some j \<Rightarrow> j"
  have f: "0 < ?f" "?f < Suc (Suc (length rest))" using i(2) by (auto split: option.splits)
  have "brubeck_statsd_msg_parse pw (CHR '':'' # rest @ [e]) 0 ?f = Inl OutOfBounds"
  proof -
    obtain n where n: "?f = Suc n" "n < Suc (length rest)" using f by (cases ?f) auto
    then have "wr (CHR '':'' # rest @ [e]) (int (Suc n)) NUL = Inr (CHR '':'' # (rest @ [e])[n := NUL])"
      using wr_in [of "Suc n" "CHR '':'' # rest @ [e]" NUL] by simp
    then show ?thesis unfolding brubeck_statsd_msg_parse_def n(1) by (simp add: wr_def rd_def)
  qed
  with i(1) show ?thesis unfolding brubeck_statsd_packet_parse_def by (subst packet_loop.simps) simp
qed

text \<open>
  A message whose key is that of the internal metric, the name of the server, finds this metric and
  calls its record function, a null pointer in \<^verbatim>\<open>_prototypes\<close>.
\<close>

lemma own_name_crashes:
  assumes "ck_table ck tinv" "registry_ok ck tinv s" "\<not> at_capacity s" "length (msg_key msg) \<le> 4031"
    "view ck s (msg_key msg) = Some m" "m_type m = MT_INTERNAL_STATS"
  shows "record_msg ck msg s = Inl NullPointer"
proof -
  have "spec_msg msg (view ck s) = Inl NullPointer" using assms(5,6) by (simp add: spec_msg_def Let_def brubeck_metric_record_def)
  with record_msg_refines [OF assms(1-4)] show ?thesis by (simp add: refines_def split: sum.splits)
qed

end
