(* ===== verification/Config.thy ===== *)
theory Config
  imports Prelude
begin

text \<open>
  Reading the configuration. The JSON library (jansson) is a parameter: a record of what it
  answers about a value of its type \<open>'j\<close>. \<^verbatim>\<open>json_unpack_or_die\<close> with the format \<^verbatim>\<open>s:s\<close> asks for a field
  that must be there and be a string, with \<^verbatim>\<open>s?:i\<close> for a field that may be missing, in which case the
  variable keeps its value; a field of another type is an error.
\<close>

record 'j jansson =
  j_get :: "'j \<Rightarrow> string \<Rightarrow> 'j option"
  j_string :: "'j \<Rightarrow> string option"
  j_int :: "'j \<Rightarrow> int option"
  j_bool :: "'j \<Rightarrow> bool option"
  j_iter :: "'j \<Rightarrow> (string \<times> 'j) list"
  j_elems :: "'j \<Rightarrow> 'j list"

abbreviation config_error :: "'a res" where
  "config_error \<equiv> Inl (Die ''config error'')"

definition unpack :: "('j \<Rightarrow> 'a option) \<Rightarrow> 'j jansson \<Rightarrow> 'j \<Rightarrow> string \<Rightarrow> 'a res" where
  "unpack conv J settings key =
     (case j_get J settings key of
        None \<Rightarrow> config_error
      | Some v \<Rightarrow> (case conv v of None \<Rightarrow> config_error | Some x \<Rightarrow> Inr x))"

definition unpack_opt :: "('j \<Rightarrow> 'a option) \<Rightarrow> 'j jansson \<Rightarrow> 'j \<Rightarrow> string \<Rightarrow> 'a \<Rightarrow> 'a res" where
  "unpack_opt conv J settings key dflt =
     (case j_get J settings key of
        None \<Rightarrow> Inr dflt
      | Some v \<Rightarrow> (case conv v of None \<Rightarrow> config_error | Some x \<Rightarrow> Inr x))"

end
