(* ===== verification/Sampler.thy ===== *)
theory Sampler
  imports Net
begin

text \<open>
  What the samplers share (\<^verbatim>\<open>src/sampler.c\<close>, \<^verbatim>\<open>src/sampler.h\<close>): the common record, the socket, and the
  receipt of a datagram. The callback \<^verbatim>\<open>shutdown\<close> only cancels threads and has no field here.
\<close>

datatype brubeck_sampler_t = SAMPLER_STATSD | SAMPLER_STATSD_SECURE

record brubeck_sampler =
  smp_type :: brubeck_sampler_t
  smp_in_sock :: int
  smp_addr :: sockaddr_in
  smp_inflow :: u64
  smp_current_flow :: u64

fun brubeck_sampler_name :: "brubeck_sampler_t \<Rightarrow> string" where
  "brubeck_sampler_name SAMPLER_STATSD = ''statsd''"
| "brubeck_sampler_name SAMPLER_STATSD_SECURE = ''statsd-secure''"

definition brubeck_sampler_init_inet ::
    "(string \<Rightarrow> addrinfo list option) \<Rightarrow> brubeck_sampler \<Rightarrow> string option \<Rightarrow> int \<Rightarrow> brubeck_sampler res" where
  "brubeck_sampler_init_inet getaddrinfo sampler url port =
     rbind (url_to_inaddr2 getaddrinfo url port) (\<lambda>a. Inr (sampler\<lparr>smp_addr := a\<rparr>))"

definition brubeck_sampler_socket :: "sock_kernel \<Rightarrow> brubeck_sampler \<Rightarrow> bool \<Rightarrow> int res" where
  "brubeck_sampler_socket k sampler multisock =
     (let sock = k_socket k in
      rbind (sock_enlarge_in k sock) (\<lambda>_.
      rbind (sock_setreuse k sock 1) (\<lambda>_.
      rbind (if multisock then sock_setreuse_port k sock 1 else Inr ()) (\<lambda>_.
        if k_bind k sock (smp_addr sampler) then Inr sock else Inl (Die ''failed to bind socket'')))))"

text \<open>
  The answers of \<^verbatim>\<open>recvfrom(2)\<close>: a datagram, a call to be repeated, or another error. A datagram that
  is longer than the room offered is cut.
\<close>

datatype recv_event = RecvData string | RecvAgain | RecvFailed

definition receive :: "nat \<Rightarrow> string \<Rightarrow> string \<Rightarrow> string \<times> nat" where
  "receive room buffer datagram =
     (let d = take room datagram in (d @ drop (length d) buffer, length d))"

lemma receive_split:
  assumes "room < length buffer"
  obtains e post where "receive room buffer d = (take room d @ e # post, length (take room d))"
    "length (take room d @ e # post) = length buffer"
proof -
  have l: "length (take room d) < length buffer" using assms by simp
  then have "drop (length (take room d)) buffer \<noteq> []" by (simp only: drop_eq_Nil not_le)
  then obtain e post where "drop (length (take room d)) buffer = e # post" by (cases "drop (length (take room d)) buffer") auto
  moreover from this have "length (e # post) = length buffer - length (take room d)" by (metis length_drop)
  ultimately show thesis using that [of e post] l unfolding receive_def Let_def by (simp del: length_take)
qed

end
