(* ===== verification/Statsd_Worker.thy ===== *)
theory Statsd_Worker
  imports Statsd Sampler Config
begin

text \<open>
  The worker threads of the statsd sampler (second half of \<^verbatim>\<open>src/samplers/statsd.c\<close>): a turn of the
  loop around \<^verbatim>\<open>recvfrom\<close>, a turn of the loop around \<^verbatim>\<open>recvmmsg\<close>, and the construction of the sampler
  from its settings. The kernel's answers are the events of a turn.
\<close>

section \<open>Model\<close>

abbreviation MAX_PACKET_SIZE :: nat where
  "MAX_PACKET_SIZE \<equiv> 8192"

record brubeck_statsd =
  st_sampler :: brubeck_sampler
  worker_count :: u32
  mmsg_count :: u32

definition count_error :: "'h brubeck_server \<Rightarrow> 'h brubeck_server" where
  "count_error server = server\<lparr>srv_stats := brubeck_stats_inc Errors (srv_stats server)\<rparr>"

text \<open>One turn of \<^verbatim>\<open>statsd_run_recvmsg\<close>: the packet buffer, the sampler and the server.\<close>

definition recvmsg_turn :: "(double \<Rightarrow> double \<Rightarrow> double) \<Rightarrow> ('h, slab_ptr) ck_ht \<Rightarrow> recv_event \<Rightarrow>
    string \<times> brubeck_sampler \<times> 'h brubeck_server \<Rightarrow> (string \<times> brubeck_sampler \<times> 'h brubeck_server) res" where
  "recvmsg_turn libm_pow ck ev = (\<lambda>(buffer, sampler, server).
     case ev of
       RecvAgain \<Rightarrow> Inr (buffer, sampler, server)
     | RecvFailed \<Rightarrow> Inr (buffer, sampler, count_error server)
     | RecvData d \<Rightarrow>
         let (buffer, res) = receive (MAX_PACKET_SIZE - 1) buffer d;
             sampler = sampler\<lparr>smp_inflow := smp_inflow sampler + 1\<rparr>
         in rbind (brubeck_statsd_packet_parse libm_pow ck buffer res server) (\<lambda>(buffer, server).
              Inr (buffer, sampler, server)))"

fun recvmsg_run :: "(double \<Rightarrow> double \<Rightarrow> double) \<Rightarrow> ('h, slab_ptr) ck_ht \<Rightarrow> recv_event list \<Rightarrow>
    string \<times> brubeck_sampler \<times> 'h brubeck_server \<Rightarrow> (string \<times> brubeck_sampler \<times> 'h brubeck_server) res" where
  "recvmsg_run libm_pow ck [] st = Inr st"
| "recvmsg_run libm_pow ck (ev # evs) st = rbind (recvmsg_turn libm_pow ck ev st) (recvmsg_run libm_pow ck evs)"

text \<open>
  \<^verbatim>\<open>statsd_run_recvmmsg\<close> keeps \<^verbatim>\<open>mmsg_count\<close> slots, each a buffer with the length of the datagram that
  was last received into it. The kernel fills the first slots and returns their number, which the
  loop does not use: every slot is parsed in every turn.
\<close>

type_synonym slot = "string \<times> nat"

datatype mmsg_event = MmsgData "string list" | MmsgAgain | MmsgFailed

fun fill_slots :: "string list \<Rightarrow> slot list \<Rightarrow> slot list" where
  "fill_slots (d # ds) ((buffer, len) # slots) = receive (MAX_PACKET_SIZE - 1) buffer d # fill_slots ds slots"
| "fill_slots _ slots = slots"

fun parse_slots :: "(double \<Rightarrow> double \<Rightarrow> double) \<Rightarrow> ('h, slab_ptr) ck_ht \<Rightarrow> slot list \<Rightarrow> 'h brubeck_server \<Rightarrow>
    (slot list \<times> 'h brubeck_server) res" where
  "parse_slots libm_pow ck [] server = Inr ([], server)"
| "parse_slots libm_pow ck ((buf, len) # slots) server =
     rbind (brubeck_statsd_packet_parse libm_pow ck buf len server) (\<lambda>(buf, server).
     rbind (parse_slots libm_pow ck slots server) (\<lambda>(slots, server).
       Inr ((buf, len) # slots, server)))"

definition recvmmsg_turn :: "(double \<Rightarrow> double \<Rightarrow> double) \<Rightarrow> ('h, slab_ptr) ck_ht \<Rightarrow> mmsg_event \<Rightarrow>
    slot list \<times> brubeck_sampler \<times> 'h brubeck_server \<Rightarrow> (slot list \<times> brubeck_sampler \<times> 'h brubeck_server) res" where
  "recvmmsg_turn libm_pow ck ev = (\<lambda>(slots, sampler, server).
     case ev of
       MmsgAgain \<Rightarrow> Inr (slots, sampler, server)
     | MmsgFailed \<Rightarrow> Inr (slots, sampler, count_error server)
     | MmsgData ds \<Rightarrow>
         let slots = fill_slots ds slots;
             sampler = sampler\<lparr>smp_inflow := smp_inflow sampler + word_of_nat (length slots)\<rparr>
         in rbind (parse_slots libm_pow ck slots server) (\<lambda>(slots, server).
              Inr (slots, sampler, server)))"

text \<open>
  The slots at the start of this loop: a block of fresh memory each, with contents \<open>mem\<close>, and no
  datagram.
\<close>

definition recvmmsg_slots :: "(nat \<Rightarrow> string) \<Rightarrow> brubeck_statsd \<Rightarrow> slot list" where
  "recvmmsg_slots mem statsd = map (\<lambda>i. (mem i, 0)) [0..<unat (mmsg_count statsd)]"

text \<open>The start of a worker: its socket, and whether it uses \<^verbatim>\<open>recvmmsg\<close>.\<close>

definition statsd_thread_start :: "sock_kernel \<Rightarrow> brubeck_statsd \<Rightarrow> (int \<times> bool) res" where
  "statsd_thread_start k statsd =
     (let sock = smp_in_sock (st_sampler statsd) in
      rbind (if sock < 0 then brubeck_sampler_socket k (st_sampler statsd) True else Inr sock) (\<lambda>sock.
        Inr (sock, mmsg_count statsd > 1)))"

text \<open>
  \<^verbatim>\<open>brubeck_statsd_new\<close> on memory from \<^verbatim>\<open>xmalloc\<close>, whose contents \<open>mem\<close> are arbitrary: fields that are
  not assigned keep them.
\<close>

definition brubeck_statsd_new :: "'j jansson \<Rightarrow> (string \<Rightarrow> addrinfo list option) \<Rightarrow> sock_kernel \<Rightarrow> brubeck_sampler \<Rightarrow> 'j \<Rightarrow>
    brubeck_statsd res" where
  "brubeck_statsd_new J getaddrinfo k mem settings =
     (let sampler = mem\<lparr>smp_type := SAMPLER_STATSD, smp_in_sock := - 1\<rparr> in
      rbind (unpack (j_string J) J settings ''address'') (\<lambda>address.
      rbind (unpack (j_int J) J settings ''port'') (\<lambda>port.
      rbind (unpack_opt (j_int J) J settings ''workers'' 4) (\<lambda>workers.
      rbind (unpack_opt (j_int J) J settings ''multimsg'' 1) (\<lambda>multimsg.
      rbind (unpack_opt (j_bool J) J settings ''multisock'' False) (\<lambda>multisock.
      rbind (brubeck_sampler_init_inet getaddrinfo sampler (Some address) port) (\<lambda>sampler.
      rbind (if multisock then Inr sampler
             else rbind (brubeck_sampler_socket k sampler False) (\<lambda>sock. Inr (sampler\<lparr>smp_in_sock := sock\<rparr>))) (\<lambda>sampler.
        Inr \<lparr>st_sampler = sampler, worker_count = word_of_int workers, mmsg_count = word_of_int multimsg\<rparr>))))))))"

section \<open>Single packets\<close>

lemma packet_parse_lines:
  assumes "p = [] \<or> hd p \<noteq> CHR '':''" "length p < 2 ^ 16"
  shows "brubeck_statsd_packet_parse pw ck (p @ e # post) (length p) s =
    rbind (handle_lines pw ck (split_lines p) s) (\<lambda>s'. Inr (packet_after p e @ post, s'))"
  using packet_loop_lines [of "[]" p pw ck e post s] assms by (simp add: brubeck_statsd_packet_parse_def starts_ok_def)

lemma length_packet_after [simp]: "length (packet_after p e) = Suc (length p)"
  by (induction p rule: line_induct) (simp_all add: packet_after_simps)

text \<open>The lines of a datagram as it arrives in a packet buffer.\<close>

definition datagram_lines :: "string \<Rightarrow> string list" where
  "datagram_lines d = split_lines (take (MAX_PACKET_SIZE - 1) d)"

text \<open>What is done for one event of the kernel.\<close>

definition handle_event :: "(double \<Rightarrow> double \<Rightarrow> double) \<Rightarrow> ('h, slab_ptr) ck_ht \<Rightarrow> recv_event \<Rightarrow> 'h brubeck_server \<Rightarrow>
    'h brubeck_server res" where
  "handle_event libm_pow ck ev server =
     (case ev of
        RecvData d \<Rightarrow> handle_lines libm_pow ck (datagram_lines d) server
      | RecvAgain \<Rightarrow> Inr server
      | RecvFailed \<Rightarrow> Inr (count_error server))"

definition handle_events :: "(double \<Rightarrow> double \<Rightarrow> double) \<Rightarrow> ('h, slab_ptr) ck_ht \<Rightarrow> recv_event list \<Rightarrow> 'h brubeck_server \<Rightarrow>
    'h brubeck_server res" where
  "handle_events libm_pow ck evs server =
     foldl (\<lambda>r ev. rbind r (handle_event libm_pow ck ev)) (Inr server) evs"

definition no_colon :: "string \<Rightarrow> bool" where
  "no_colon d \<longleftrightarrow> d = [] \<or> hd d \<noteq> CHR '':''"

definition packets :: "recv_event list \<Rightarrow> string list" where
  "packets evs = List.map_filter (\<lambda>ev. case ev of RecvData d \<Rightarrow> Some d | _ \<Rightarrow> None) evs"

lemma recvmsg_turn_event:
  assumes "length buffer = MAX_PACKET_SIZE" "\<forall>d\<in>set (packets [ev]). no_colon d"
  shows "\<exists>buffer'. length buffer' = MAX_PACKET_SIZE \<and> recvmsg_turn pw ck ev (buffer, sampler, s) =
    rbind (handle_event pw ck ev s) (\<lambda>s'. Inr (buffer',
      sampler\<lparr>smp_inflow := smp_inflow sampler + word_of_nat (length (packets [ev]))\<rparr>, s'))"
proof (cases ev)
  case (RecvData d)
  let ?p = "take (MAX_PACKET_SIZE - 1) d"
  obtain e post where r: "receive (MAX_PACKET_SIZE - 1) buffer d = (?p @ e # post, length ?p)"
    "length (?p @ e # post) = length buffer"
    by (rule receive_split [of "MAX_PACKET_SIZE - 1" buffer d]) (use assms(1) in auto)
  have "no_colon ?p" using assms(2) by (cases d) (auto simp: RecvData packets_def map_filter_simps no_colon_def)
  then have pl: "brubeck_statsd_packet_parse pw ck (?p @ e # post) (length ?p) s =
      rbind (handle_lines pw ck (split_lines ?p) s) (\<lambda>s'. Inr (packet_after ?p e @ post, s'))"
    by (intro packet_parse_lines) (auto simp: no_colon_def)
  have len: "length (packet_after ?p e @ post) = MAX_PACKET_SIZE" using r(2) assms(1) by simp
  have one: "packets [ev] = [d]" by (simp add: RecvData packets_def map_filter_simps)
  have "recvmsg_turn pw ck ev (buffer, sampler, s) =
    rbind (handle_event pw ck ev s) (\<lambda>s'. Inr (packet_after ?p e @ post,
      sampler\<lparr>smp_inflow := smp_inflow sampler + word_of_nat (length (packets [ev]))\<rparr>, s'))"
    unfolding one unfolding recvmsg_turn_def RecvData handle_event_def recv_event.case prod.case r(1) Let_def pl datagram_lines_def
    by (simp add: rbind_def split: sum.splits)
  with len show ?thesis by blast
qed (use assms in \<open>auto simp: recvmsg_turn_def handle_event_def packets_def map_filter_simps\<close>)

lemma handle_events_Cons:
  "handle_events pw ck (ev # evs) s = rbind (handle_event pw ck ev s) (handle_events pw ck evs)"
proof -
  have "foldl (\<lambda>r ev. rbind r (handle_event pw ck ev)) r evs = rbind r (handle_events pw ck evs)" for r
    by (induction evs rule: rev_induct; cases r) (auto simp: handle_events_def rbind_def split: sum.splits)
  then show ?thesis by (simp add: handle_events_def)
qed

lemma recvmsg_run_events:
  assumes "length buffer = MAX_PACKET_SIZE" "\<forall>d\<in>set (packets evs). no_colon d"
  shows "\<exists>buffer'. recvmsg_run pw ck evs (buffer, sampler, s) =
    rbind (handle_events pw ck evs s) (\<lambda>s'. Inr (buffer',
      sampler\<lparr>smp_inflow := smp_inflow sampler + word_of_nat (length (packets evs))\<rparr>, s'))"
  using assms
proof (induction evs arbitrary: buffer sampler s)
  case Nil
  then show ?case by (simp add: handle_events_def packets_def map_filter_simps)
next
  case (Cons ev evs)
  have pk: "packets (ev # evs) = packets [ev] @ packets evs"
    by (simp add: packets_def map_filter_simps split: option.splits)
  obtain b1 where b1: "length b1 = MAX_PACKET_SIZE" "recvmsg_turn pw ck ev (buffer, sampler, s) =
    rbind (handle_event pw ck ev s) (\<lambda>s'. Inr (b1,
      sampler\<lparr>smp_inflow := smp_inflow sampler + word_of_nat (length (packets [ev]))\<rparr>, s'))"
    using recvmsg_turn_event [OF Cons.prems(1), of ev pw ck sampler s] Cons.prems(2) pk by auto
  show ?case
  proof (cases "handle_event pw ck ev s")
    case (Inl err)
    then show ?thesis using b1(2) by (simp add: handle_events_Cons)
  next
    case (Inr s1)
    let ?sm = "sampler\<lparr>smp_inflow := smp_inflow sampler + word_of_nat (length (packets [ev]))\<rparr>"
    obtain b2 where "recvmsg_run pw ck evs (b1, ?sm, s1) =
      rbind (handle_events pw ck evs s1) (\<lambda>s'. Inr (b2,
        ?sm\<lparr>smp_inflow := smp_inflow ?sm + word_of_nat (length (packets evs))\<rparr>, s'))"
      using Cons.IH [OF b1(1), of ?sm s1] Cons.prems(2) pk by auto
    then show ?thesis using b1(2) Inr by (auto simp: handle_events_Cons pk add.assoc)
  qed
qed

section \<open>Slots that are parsed again\<close>

text \<open>A slot whose datagram has been parsed: its terminators hide every key.\<close>

definition slot_ok :: "slot \<Rightarrow> bool" where
  "slot_ok = (\<lambda>(buf, len). length buf = MAX_PACKET_SIZE \<and> len < MAX_PACKET_SIZE
     \<and> LF \<notin> set (take len buf) \<and> line_key (take len buf) = None)"

lemma line_key_stop: "line_key l = Some key \<Longrightarrow> line_key (key @ NUL # x) = None"
  by (induction l arbitrary: key) (auto simp: line_key_Cons split: if_splits)

lemma line_key_None: "line_key l = None \<Longrightarrow> line_key (l @ NUL # x) = None"
  by (induction l) (auto simp: line_key_Cons split: if_splits)

lemma line_key_cut: "line_key (cut_line l) = None" "line_key (cut_line l @ NUL # x) = None"
proof -
  have "line_key (cut_line l) = None \<and> line_key (cut_line l @ NUL # x) = None"
  proof (cases "line_key l")
    case None
    then show ?thesis by (simp add: cut_line_def line_key_None)
  next
    case (Some key)
    then obtain rest where "l = key @ CHR '':'' # rest" using line_keyD by blast
    then have "l[length key := NUL] = key @ NUL # rest" by (simp add: list_update_append)
    then have "cut_line l = key @ NUL # rest" by (simp add: cut_line_def Some)
    then show ?thesis using line_key_stop [OF Some] by simp
  qed
  then show "line_key (cut_line l) = None" "line_key (cut_line l @ NUL # x) = None" by blast+
qed

lemma set_cut_line: "set (cut_line l) \<subseteq> insert NUL (set l)"
  using set_update_subset_insert [of l] by (auto simp: cut_line_def split: option.splits)

lemma packet_after_done:
  "LF \<notin> set (take (length p) (packet_after p e)) \<and> line_key (take (length p) (packet_after p e)) = None"
proof (induction p rule: line_induct)
  case (Last p)
  then show ?case using set_cut_line [of p] by (auto simp: packet_after_simps line_key_cut)
next
  case (Next l d)
  then show ?case using set_cut_line [of l] by (auto simp: packet_after_simps line_key_cut)
qed (simp add: packet_after_simps)

lemma parse_stale:
  assumes "slot_ok (buf, len)"
  shows "\<exists>buf'. slot_ok (buf', len) \<and> (\<forall>s. brubeck_statsd_packet_parse pw ck buf len s =
    Inr (buf', if len = 0 then s else count_error s))"
proof -
  let ?p = "take len buf"
  have a: "length buf = MAX_PACKET_SIZE" "len < MAX_PACKET_SIZE" "LF \<notin> set ?p" "line_key ?p = None" "length ?p = len"
    using assms by (auto simp: slot_ok_def)
  obtain e post where "drop len buf = e # post" using a(1,2) by (cases "drop len buf") auto
  then have buf: "buf = ?p @ e # post" by (metis append_take_drop_id)
  have nc: "?p = [] \<or> hd ?p \<noteq> CHR '':''" using a(4) by (cases ?p) (auto simp: line_key_Cons)
  have pl: "brubeck_statsd_packet_parse pw ck (?p @ e # post) (length ?p) s =
      rbind (handle_lines pw ck (split_lines ?p) s) (\<lambda>s'. Inr (packet_after ?p e @ post, s'))" for s
    by (rule packet_parse_lines) (use nc a in auto)
  show ?thesis
  proof (cases "len = 0")
    case True
    then show ?thesis using assms by (auto simp: brubeck_statsd_packet_parse_def packet_loop.simps)
  next
    case False
    then have ne: "?p \<noteq> []" using a(5) by auto
    have "split_lines ?p = [?p]" by (rule split_lines_simps(2) [OF ne a(3)])
    moreover have "packet_after ?p e = ?p @ [NUL]" using packet_after_simps(2) [OF ne a(3)] a(4) by (simp add: cut_line_def)
    moreover have "line_msg pw ?p = None" by (simp add: line_msg_def a(4))
    ultimately have "brubeck_statsd_packet_parse pw ck (?p @ e # post) (length ?p) s = Inr (?p @ NUL # post, count_error s)" for s
      unfolding pl by (simp add: handle_msg_def count_error_def)
    moreover have "length (?p @ NUL # post) = length buf" using arg_cong [OF buf, of length] by simp
    then have "slot_ok (?p @ NUL # post, len)" using a by (simp add: slot_ok_def)
    ultimately have "slot_ok (?p @ NUL # post, len)"
      "brubeck_statsd_packet_parse pw ck buf len s = Inr (?p @ NUL # post, count_error s)" for s
      using a(5) buf by (blast, metis)
    with False show ?thesis by auto
  qed
qed

lemma recvmmsg_slots_ok: "\<forall>i. length (mem i) = MAX_PACKET_SIZE \<Longrightarrow> list_all slot_ok (recvmmsg_slots mem statsd)"
  by (simp add: recvmmsg_slots_def slot_ok_def list_all_iff)

text \<open>The stale slots of a turn: those not filled, unless nothing was ever received into them.\<close>

definition stale :: "string list \<Rightarrow> slot list \<Rightarrow> nat" where
  "stale ds slots = length (filter (\<lambda>(buf, len). len \<noteq> 0) (drop (length ds) slots))"

lemma parse_stale_slots:
  "list_all slot_ok slots \<Longrightarrow> \<exists>slots'. list_all slot_ok slots' \<and> length slots' = length slots
    \<and> (\<forall>s. parse_slots pw ck slots s = Inr (slots', (count_error ^^ stale [] slots) s))"
proof (induction slots)
  case (Cons sl slots)
  obtain buf len where sl: "sl = (buf, len)" by force
  from Cons.prems sl have "slot_ok (buf, len)" "list_all slot_ok slots" by simp_all
  with Cons.IH parse_stale obtain buf' slots' where
    "slot_ok (buf', len)" "\<And>s. brubeck_statsd_packet_parse pw ck buf len s = Inr (buf', if len = 0 then s else count_error s)"
    "list_all slot_ok slots'" "length slots' = length slots"
    "\<And>s. parse_slots pw ck slots s = Inr (slots', (count_error ^^ stale [] slots) s)" by metis
  then show ?case
    by (intro exI [of _ "(buf', len) # slots'"]) (auto simp: sl stale_def funpow_swap1)
qed (simp add: stale_def)

lemma parse_slots_lines:
  assumes "list_all slot_ok slots" "\<forall>d\<in>set ds. no_colon d" "length ds \<le> length slots"
  shows "\<exists>slots'. list_all slot_ok slots' \<and> length slots' = length slots
    \<and> (\<forall>s. parse_slots pw ck (fill_slots ds slots) s =
        rbind (handle_lines pw ck (concat (map datagram_lines ds)) s)
          (\<lambda>s. Inr (slots', (count_error ^^ stale ds slots) s)))"
  using assms
proof (induction ds slots rule: fill_slots.induct)
  case (1 d ds buffer len slots)
  let ?p = "take (MAX_PACKET_SIZE - 1) d"
  have a: "length buffer = MAX_PACKET_SIZE" using 1(2) by (simp add: slot_ok_def)
  obtain e post where r: "receive (MAX_PACKET_SIZE - 1) buffer d = (?p @ e # post, length ?p)"
    "length (?p @ e # post) = length buffer"
    by (rule receive_split [of "MAX_PACKET_SIZE - 1" buffer d]) (use a in auto)
  have "no_colon ?p" using 1(3) by (cases d) (auto simp: no_colon_def)
  then have pl: "brubeck_statsd_packet_parse pw ck (?p @ e # post) (length ?p) s =
      rbind (handle_lines pw ck (split_lines ?p) s) (\<lambda>s'. Inr (packet_after ?p e @ post, s'))" for s
    by (intro packet_parse_lines) (auto simp: no_colon_def)
  have sl: "slot_ok (packet_after ?p e @ post, length ?p)"
    using r(2) a packet_after_done [of ?p e] by (auto simp: slot_ok_def simp del: length_take)
  obtain slots' where s': "list_all slot_ok slots'" "length slots' = length slots"
    "\<And>s. parse_slots pw ck (fill_slots ds slots) s =
        rbind (handle_lines pw ck (concat (map datagram_lines ds)) s)
          (\<lambda>s. Inr (slots', (count_error ^^ stale ds slots) s))"
    using 1(1) 1(2-4) by auto
  have hl: "handle_lines pw ck (xs @ ys) s = rbind (handle_lines pw ck xs s) (handle_lines pw ck ys)" for xs ys s
    by (induction xs arbitrary: s) (auto simp: rbind_def split: sum.splits)
  have "parse_slots pw ck (fill_slots (d # ds) ((buffer, len) # slots)) s =
        rbind (handle_lines pw ck (concat (map datagram_lines (d # ds))) s)
          (\<lambda>s. Inr ((packet_after ?p e @ post, length ?p) # slots', (count_error ^^ stale ds slots) s))" for s
    by (simp only: fill_slots.simps r(1) parse_slots.simps pl)
      (simp add: s'(3) hl rbind_def datagram_lines_def split: sum.splits)
  with s' sl show ?case by (intro exI [of _ "(packet_after ?p e @ post, length ?p) # slots'"]) (simp add: stale_def)
qed (use parse_stale_slots in \<open>auto simp: stale_def\<close>)

section \<open>Properties\<close>

text \<open>
  C11. However the kernel answers, a run of the \<^verbatim>\<open>recvfrom\<close> loop does for each datagram what its lines
  say, counts a failed read as one error and an interrupted one as nothing, and its flow counter
  advances by the number of datagrams; what earlier datagrams left in the buffer plays no part.
\<close>

theorem recvmsg_run_effect:
  assumes "length buffer = MAX_PACKET_SIZE" "\<forall>d\<in>set (packets evs). no_colon d"
  shows "\<exists>buffer'. recvmsg_run pw ck evs (buffer, sampler, s) =
    rbind (handle_events pw ck evs s) (\<lambda>s'. Inr (buffer',
      sampler\<lparr>smp_inflow := smp_inflow sampler + word_of_nat (length (packets evs))\<rparr>, s'))"
  using assms by (rule recvmsg_run_events)

definition idle_sampler :: brubeck_sampler where
  "idle_sampler = \<lparr>smp_type = SAMPLER_STATSD, smp_in_sock = 3,
     smp_addr = \<lparr>sin_family = 2, sin_port = 0, sin_addr = 0\<rparr>, smp_inflow = 0, smp_current_flow = 0\<rparr>"

theorem recvmsg_run_effect_witness:
  "\<exists>buffer'. recvmsg_run dadd list_ck [RecvAgain, RecvData ''bad line'', RecvFailed]
      (replicate MAX_PACKET_SIZE NUL, idle_sampler, one_backend ''b'') =
    Inr (buffer', idle_sampler\<lparr>smp_inflow := 1\<rparr>,
         count_error (count_error (one_backend ''b'')))"
proof -
  let ?evs = "[RecvAgain, RecvData ''bad line'', RecvFailed]"
  have pk: "packets ?evs = [''bad line'']" by (simp add: packets_def map_filter_simps)
  have "datagram_lines ''bad line'' = [''bad line'']" by (simp add: datagram_lines_def split_lines.simps)
  moreover have "line_msg dadd ''bad line'' = None" by (simp add: line_msg_def line_key_Cons)
  ultimately have "handle_events dadd list_ck ?evs (one_backend ''b'') = Inr (count_error (count_error (one_backend ''b'')))"
    by (simp add: handle_events_def handle_event_def handle_msg_def count_error_def)
  then show ?thesis
    using recvmsg_run_effect [of "replicate MAX_PACKET_SIZE NUL" ?evs dadd list_ck idle_sampler "one_backend ''b''"]
    by (simp add: pk no_colon_def idle_sampler_def)
qed

text \<open>
  C34. A turn of the \<^verbatim>\<open>recvmmsg\<close> loop does for each datagram it received, none of which starts with a
  colon, what its lines say, but it also parses every other slot again: each of these that holds a
  datagram of an earlier turn counts as one error and records nothing, and the flow counter advances
  by the number of slots instead of the number of datagrams. The slots stay as such turns leave them.
\<close>

theorem recvmmsg_turn_stale:
  assumes "list_all slot_ok slots" "\<forall>d\<in>set ds. no_colon d" "length ds \<le> length slots"
  shows "\<exists>slots'. list_all slot_ok slots' \<and> length slots' = length slots
    \<and> recvmmsg_turn pw ck (MmsgData ds) (slots, sampler, s) =
        rbind (handle_lines pw ck (concat (map datagram_lines ds)) s) (\<lambda>s'.
          Inr (slots', sampler\<lparr>smp_inflow := smp_inflow sampler + word_of_nat (length slots)\<rparr>,
               (count_error ^^ stale ds slots) s'))"
proof -
  have len: "length (fill_slots ds slots) = length slots" by (induction ds slots rule: fill_slots.induct) simp_all
  obtain slots' where s': "list_all slot_ok slots'" "length slots' = length slots"
    "parse_slots pw ck (fill_slots ds slots) s =
        rbind (handle_lines pw ck (concat (map datagram_lines ds)) s) (\<lambda>s. Inr (slots', (count_error ^^ stale ds slots) s))"
    using parse_slots_lines [OF assms, of pw ck] by blast
  have "recvmmsg_turn pw ck (MmsgData ds) (slots, sampler, s) =
        rbind (handle_lines pw ck (concat (map datagram_lines ds)) s) (\<lambda>s'.
          Inr (slots', sampler\<lparr>smp_inflow := smp_inflow sampler + word_of_nat (length slots)\<rparr>,
               (count_error ^^ stale ds slots) s'))"
    by (simp add: recvmmsg_turn_def Let_def len s'(3)) (simp add: rbind_def split: sum.splits)
  with s'(1,2) show ?thesis by blast
qed

theorem recvmmsg_turn_stale_witness:
  "\<exists>slots'. recvmmsg_turn dadd list_ck (MmsgData [''bad line''])
      ([(replicate 8192 NUL, 0), (''a'' @ replicate 8191 NUL, 1)], idle_sampler, one_backend ''b'') =
    Inr (slots', idle_sampler\<lparr>smp_inflow := 2\<rparr>, count_error (count_error (one_backend ''b'')))"
proof -
  let ?slots = "[(replicate 8192 NUL, 0), (''a'' @ replicate 8191 NUL, 1)]" and ?ds = "[''bad line'']"
  have ok: "list_all slot_ok ?slots" "\<forall>d\<in>set ?ds. no_colon d" "length ?ds \<le> length ?slots"
    by (simp_all add: slot_ok_def line_key_Cons no_colon_def)
  have "datagram_lines ''bad line'' = [''bad line'']" by (simp add: datagram_lines_def split_lines.simps)
  moreover have "line_msg dadd ''bad line'' = None" by (simp add: line_msg_def line_key_Cons)
  ultimately have "handle_lines dadd list_ck (concat (map datagram_lines ?ds)) (one_backend ''b'') = Inr (count_error (one_backend ''b''))"
    by (simp add: handle_msg_def count_error_def)
  moreover have "stale ?ds ?slots = 1" by (simp add: stale_def)
  ultimately show ?thesis using recvmmsg_turn_stale [OF ok, of dadd list_ck idle_sampler "one_backend ''b''"]
    by (auto simp: idle_sampler_def)
qed

end
