(* ===== verification/Carbon.thy ===== *)
theory Carbon
  imports Backend Utils Net Config
begin

text \<open>
  The carbon backend (\<^verbatim>\<open>src/backends/carbon.c\<close>, \<^verbatim>\<open>src/backends/carbon.h\<close>): the connection, the plain
  text protocol with one line per sample, and the pickle protocol, which collects samples in a
  buffer and sends them in frames. What the program cannot know in advance is part of the state:
  the answers of the kernel to the connection attempts and writes to come, and the bytes each
  connection has carried.
\<close>

section \<open>Model\<close>

abbreviation PICKLE_BUFFER_SIZE :: nat where
  "PICKLE_BUFFER_SIZE \<equiv> 4096"

definition PICKLE1_SIZE :: "nat \<Rightarrow> nat" where
  "PICKLE1_SIZE key_len = 32 + key_len"

record pickler =
  pk_buf :: string
  pk_pos :: u16
  pk_pt :: u16

text \<open>The outcome of \<^verbatim>\<open>socket\<close> and \<^verbatim>\<open>connect\<close>; a connected socket has a descriptor.\<close>

datatype dial = NoSocket | Refused nat | Connected nat

text \<open>
  \<open>net_dial n\<close> is the outcome of the \<open>n\<close>-th attempt to connect, \<open>net_answers n\<close> the answers of the
  kernel during the \<open>n\<close>-th call of \<^verbatim>\<open>write_in_full\<close>.
\<close>

record carbon_net =
  net_dial :: "nat \<Rightarrow> dial"
  net_answers :: "nat \<Rightarrow> sys_write list"
  net_kernel :: sock_kernel

record brubeck_carbon =
  out_sock :: int
  out_sockaddr :: sockaddr_in
  c_pickler :: pickler
  c_sent :: u64
  c_net :: carbon_net
  c_dials :: nat
  c_writes :: nat
  c_wire :: "string list"

definition carbon_is_connected :: "brubeck_carbon \<Rightarrow> bool" where
  "carbon_is_connected self \<longleftrightarrow> 0 \<le> out_sock self"

definition carbon_connect :: "brubeck_carbon \<Rightarrow> (brubeck_carbon \<times> int) res" where
  "carbon_connect self =
     (if carbon_is_connected self then Inr (self, 0)
      else
        let r = net_dial (c_net self) (c_dials self);
            self = self\<lparr>c_dials := Suc (c_dials self)\<rparr>
        in case r of
             NoSocket \<Rightarrow> Inr (self\<lparr>out_sock := - 1\<rparr>, - 1)
           | Refused fd \<Rightarrow> Inr (self\<lparr>out_sock := - 1\<rparr>, - 1)
           | Connected fd \<Rightarrow>
               rbind (sock_enlarge_out (net_kernel (c_net self)) (int fd)) (\<lambda>_.
                 Inr (self\<lparr>out_sock := int fd, c_wire := [] # c_wire self\<rparr>, 0)))"

definition carbon_disconnect :: "brubeck_carbon \<Rightarrow> brubeck_carbon" where
  "carbon_disconnect self = self\<lparr>out_sock := - 1\<rparr>"

text \<open>\<^verbatim>\<open>write_in_full\<close> on the socket of the backend.\<close>

definition carbon_write :: "brubeck_carbon \<Rightarrow> string \<Rightarrow> (brubeck_carbon \<times> int) res" where
  "carbon_write self buf =
     (case write_in_full (net_answers (c_net self) (c_writes self)) buf of
        None \<Rightarrow> Inl Blocked
      | Some (r, taken, _) \<Rightarrow>
          Inr (self\<lparr>c_writes := Suc (c_writes self),
                    c_wire := (case c_wire self of [] \<Rightarrow> [taken] | w # ws \<Rightarrow> (w @ taken) # ws)\<rparr>, r))"

text \<open>The end of both senders: a failed write closes the connection, a full one is counted.\<close>

definition carbon_send :: "brubeck_carbon \<Rightarrow> string \<Rightarrow> brubeck_carbon res" where
  "carbon_send self buf =
     rbind (carbon_write self buf) (\<lambda>(self, wr).
       if wr < 0 then Inr (carbon_disconnect self)
       else Inr (self\<lparr>c_sent := c_sent self + word_of_int wr\<rparr>))"

text \<open>\<^verbatim>\<open>memcpy\<close> of the bytes \<open>s\<close> to index \<open>i\<close> of a buffer, and a run of such copies.\<close>

definition blit :: "string \<Rightarrow> nat \<Rightarrow> string \<Rightarrow> string res" where
  "blit buf i s = (if i + length s \<le> length buf then Inr (take i buf @ s @ drop (i + length s) buf) else Inl OutOfBounds)"

fun put_all :: "string \<Rightarrow> nat \<Rightarrow> string list \<Rightarrow> (string \<times> nat) res" where
  "put_all buf ptr [] = Inr (buf, ptr)"
| "put_all buf ptr (s # ss) = rbind (blit buf ptr s) (\<lambda>buf. put_all buf (ptr + length s) ss)"

definition plaintext_each :: "u32 \<Rightarrow> string \<Rightarrow> double \<Rightarrow> brubeck_carbon \<Rightarrow> brubeck_carbon res" where
  "plaintext_each tick_time key v carbon =
     (if \<not> carbon_is_connected carbon then Inr carbon
      else
        rbind (put_all (replicate 1024 NUL) 0 [key, '' '']) (\<lambda>(buffer, ptr).
        rbind (brubeck_ftoa buffer (int ptr) (float_of_double v)) (\<lambda>(buffer, n).
        let ptr = int ptr + n in
        rbind (wr buffer ptr (CHR '' '')) (\<lambda>buffer.
        rbind (brubeck_itoa buffer (ptr + 1) tick_time) (\<lambda>(buffer, n).
        let ptr = ptr + 1 + n in
        rbind (wr buffer ptr LF) (\<lambda>buffer.
          carbon_send carbon (take (nat (ptr + 1)) buffer)))))))"

definition pickle1_int32 :: "u32 \<Rightarrow> string" where
  "pickle1_int32 w = CHR ''J'' # le_bytes 4 (unat w)"

definition pickle1_double :: "double \<Rightarrow> string" where
  "pickle1_double v = CHR ''G'' # rev (le_bytes 8 (unat v))"

definition pt_byte :: "u16 \<Rightarrow> string" where
  "pt_byte pt = [char_of (unat pt mod 256)]"

definition pickle1_push :: "pickler \<Rightarrow> string \<Rightarrow> u8 \<Rightarrow> u32 \<Rightarrow> double \<Rightarrow> pickler res" where
  "pickle1_push buf key key_len timestamp v =
     (let pt = pk_pt buf in
      rbind (put_all (pk_buf buf) (unat (pk_pos buf))
        [''('', ''U'', [char_of_byte key_len], take (unat key_len) key,
         ''q'', pt_byte pt, ''('', pickle1_int32 timestamp, pickle1_double v,
         ''t'', ''q'', pt_byte (pt + 1), ''t'', ''q'', pt_byte (pt + 2)]) (\<lambda>(b, ptr).
        Inr (buf\<lparr>pk_buf := b, pk_pos := word_of_nat ptr, pk_pt := pt + 3\<rparr>)))"

definition lead :: string where
  "lead = [CHR '']'', CHR ''q'', NUL, CHR ''('']"

definition trail :: string where
  "trail = ''e.''"

definition pickle1_init :: "pickler \<Rightarrow> pickler res" where
  "pickle1_init buf =
     rbind (blit (pk_buf buf) 4 lead) (\<lambda>b. Inr (buf\<lparr>pk_buf := b, pk_pos := 4 + word_of_nat (length lead), pk_pt := 1\<rparr>))"

definition pickle1_flush :: "brubeck_carbon \<Rightarrow> brubeck_carbon res" where
  "pickle1_flush carbon =
     (let buf = c_pickler carbon in
      if pk_pt buf = 1 \<or> \<not> carbon_is_connected carbon then Inr carbon
      else
        rbind (blit (pk_buf buf) (unat (pk_pos buf)) trail) (\<lambda>b.
        let pos = pk_pos buf + word_of_nat (length trail) in
        rbind (blit b 0 (rev (le_bytes 4 (unat (ucast pos - 4 :: u32))))) (\<lambda>b.
        rbind (carbon_write (carbon\<lparr>c_pickler := buf\<lparr>pk_buf := b, pk_pos := pos\<rparr>\<rparr>) (take (unat pos) b)) (\<lambda>(carbon, wr).
        rbind (pickle1_init (c_pickler carbon)) (\<lambda>pk.
        let carbon = carbon\<lparr>c_pickler := pk\<rparr> in
          if wr < 0 then Inr (carbon_disconnect carbon)
          else Inr (carbon\<lparr>c_sent := c_sent carbon + word_of_int wr\<rparr>))))))"

definition pickle1_each :: "u32 \<Rightarrow> string \<Rightarrow> double \<Rightarrow> brubeck_carbon \<Rightarrow> brubeck_carbon res" where
  "pickle1_each tick_time key v carbon =
     (let key_len = (word_of_nat (length key) :: u8) in
      rbind (if PICKLE_BUFFER_SIZE \<le> unat (pk_pos (c_pickler carbon)) + PICKLE1_SIZE (unat key_len)
             then pickle1_flush carbon else Inr carbon) (\<lambda>carbon.
        if \<not> carbon_is_connected carbon then Inr carbon
        else rbind (pickle1_push (c_pickler carbon) key key_len tick_time v) (\<lambda>pk.
               Inr (carbon\<lparr>c_pickler := pk\<rparr>))))"

text \<open>The two sets of callbacks, and the construction from the settings.\<close>

definition plaintext_ops :: "brubeck_carbon backend_ops" where
  "plaintext_ops = \<lparr>op_connect = carbon_connect, op_sample = plaintext_each, op_flush = None\<rparr>"

definition pickle_ops :: "brubeck_carbon backend_ops" where
  "pickle_ops = \<lparr>op_connect = carbon_connect, op_sample = pickle1_each, op_flush = Some pickle1_flush\<rparr>"

definition brubeck_carbon_new :: "'j jansson \<Rightarrow> (string \<Rightarrow> addrinfo list option) \<Rightarrow> carbon_net \<Rightarrow> string \<Rightarrow> 'j \<Rightarrow> int \<Rightarrow>
    (brubeck_backend \<times> brubeck_carbon backend_ops \<times> brubeck_carbon) res" where
  "brubeck_carbon_new J getaddrinfo net mem settings shard_n =
     rbind (unpack (j_string J) J settings ''address'') (\<lambda>address.
     rbind (unpack (j_int J) J settings ''port'') (\<lambda>port.
     rbind (unpack_opt (j_bool J) J settings ''pickle'' False) (\<lambda>pickle.
     rbind (unpack (j_int J) J settings ''frequency'') (\<lambda>frequency.
     rbind (if pickle then pickle1_init \<lparr>pk_buf = mem, pk_pos = 0, pk_pt = 0\<rparr>
            else Inr \<lparr>pk_buf = [], pk_pos = 0, pk_pt = 0\<rparr>) (\<lambda>pk.
     rbind (url_to_inaddr2 getaddrinfo (Some address) port) (\<lambda>addr.
       Inr (\<lparr>be_type = BACKEND_CARBON, be_sample_freq = frequency, be_shard_n = shard_n, be_tick_time = 0, be_queue = []\<rparr>,
            if pickle then pickle_ops else plaintext_ops,
            \<lparr>out_sock = - 1, out_sockaddr = addr, c_pickler = pk, c_sent = 0, c_net = net, c_dials = 0, c_writes = 0,
             c_wire = []\<rparr>)))))))"

section \<open>Copies\<close>

lemma put_all_concat:
  "ptr + length (concat ss) \<le> length buf \<Longrightarrow>
   put_all buf ptr ss = Inr (take ptr buf @ concat ss @ drop (ptr + length (concat ss)) buf, ptr + length (concat ss))"
proof (induction ss arbitrary: buf ptr)
  case (Cons s ss)
  let ?b = "take ptr buf @ s @ drop (ptr + length s) buf"
  have l: "length ?b = length buf" using Cons.prems by simp
  have b: "blit buf ptr s = Inr ?b" using Cons.prems by (simp add: blit_def)
  have "put_all ?b (ptr + length s) ss = Inr (take (ptr + length s) ?b @ concat ss @ drop (ptr + length s + length (concat ss)) ?b,
      ptr + length s + length (concat ss))"
    using Cons.IH [of "ptr + length s" ?b] l Cons.prems by simp
  moreover have "take (ptr + length s) ?b = take ptr buf @ s" using Cons.prems by simp
  moreover have "drop (ptr + length s + length (concat ss)) ?b = drop (ptr + length s + length (concat ss)) buf"
    using Cons.prems by (simp add: add.commute)
  ultimately show ?case using b by (simp add: add.assoc)
qed simp

lemma put_all_overflow: "ptr \<le> length buf \<Longrightarrow> length buf < ptr + length (concat ss) \<Longrightarrow> put_all buf ptr ss = Inl OutOfBounds"
proof (induction ss arbitrary: buf ptr)
  case (Cons s ss)
  show ?case
  proof (cases "ptr + length s \<le> length buf")
    case True
    let ?b = "take ptr buf @ s @ drop (ptr + length s) buf"
    have "put_all ?b (ptr + length s) ss = Inl OutOfBounds" by (rule Cons.IH) (use True Cons.prems in simp_all)
    with True show ?thesis by (simp add: blit_def)
  qed (simp add: blit_def)
qed simp

section \<open>Plain text\<close>

definition plaintext_line :: "u32 \<Rightarrow> string \<Rightarrow> double \<Rightarrow> string" where
  "plaintext_line tick key v = key @ '' '' @ ftoa_text (float_of_double v) @ '' '' @ dec (unat tick) @ [LF]"

lemma plaintext_each_line:
  assumes "carbon_is_connected c" "length key \<le> 995" "ftoa_range (float_of_double v)"
  shows "plaintext_each tick key v c = carbon_send c (plaintext_line tick key v)"
proof -
  let ?x = "ftoa_text (float_of_double v)" and ?d = "dec (unat tick)"
  let ?k = "key @ '' ''" and ?rest = "replicate (1023 - length key) NUL"
  have p: "put_all (replicate 1024 NUL) 0 [key, '' ''] = Inr (?k @ ?rest, length ?k)"
    using put_all_concat [of 0 "[key, '' '']" "replicate 1024 NUL"] assms(2) by simp
  have room: "17 \<le> length ?rest" using assms(2) by simp
  obtain tl where f: "brubeck_ftoa (?k @ ?rest) (int (length ?k)) (float_of_double v) = Inr (?k @ ?x @ NUL # tl, int (length ?x))"
    and fl: "length ?x + 1 + length tl = length ?rest" "length ?x \<le> 16"
    using ftoa_writes [OF room assms(3), of ?k] by blast
  have w1: "wr (?k @ ?x @ NUL # tl) (int (length ?k) + int (length ?x)) (CHR '' '') = Inr ((?k @ ?x @ '' '') @ tl)"
    using wr_end [of "?k @ ?x" NUL tl "CHR '' ''"] by (simp add: add.assoc)
  have dl: "length ?d \<le> 10" by (rule length_dec_u32)
  have d2: "length ?d < length tl" using dl fl assms(2) by simp
  have i: "brubeck_itoa ((?k @ ?x @ '' '') @ tl) (int (length (?k @ ?x @ '' ''))) tick =
      Inr ((?k @ ?x @ '' '') @ ?d @ drop (length ?d) tl, int (length ?d))"
    by (rule itoa_dec) (use d2 in simp)
  obtain t tl2 where t: "drop (length ?d) tl = t # tl2" using d2 by (cases "drop (length ?d) tl") auto
  define L where "L = ?k @ ?x @ '' '' @ ?d"
  have w2: "wr ((?k @ ?x @ '' '') @ ?d @ t # tl2) (int (length L)) LF = Inr ((L @ [LF]) @ tl2)"
    using wr_end [of L t tl2 LF] by (simp add: L_def)
  have line: "plaintext_line tick key v = L @ [LF]" by (simp add: plaintext_line_def L_def)
  have n: "int (length ?k) + int (length ?x) + 1 = int (length (?k @ ?x @ '' ''))"
    "int (length (?k @ ?x @ '' '')) + int (length ?d) = int (length L)" by (simp_all add: L_def)
  have "nat (int (length L) + 1) = length (L @ [LF])" by simp
  then have n3: "take (nat (int (length L) + 1)) ((L @ [LF]) @ tl2) = L @ [LF]" by (metis append_eq_conv_conj)
  show ?thesis
    unfolding plaintext_each_def line
    using assms(1) by (simp only: not_not if_False p rbind_simps prod.case f Let_def w1 n(1) i t n(2) w2 n3 simp_thms)
qed

lemma plaintext_each_overflow:
  "carbon_is_connected c \<Longrightarrow> 1024 \<le> length key \<Longrightarrow> plaintext_each tick key v c = Inl OutOfBounds"
  using put_all_overflow [of 0 "replicate 1024 NUL" "[key, '' '']"] by (simp add: plaintext_each_def)

lemma plaintext_each_undefined:
  assumes "carbon_is_connected c" "length key \<le> 995" "\<not> ftoa_range (float_of_double v)"
  shows "plaintext_each tick key v c = Inl BadShift"
proof -
  let ?k = "key @ '' ''" and ?rest = "replicate (1023 - length key) NUL"
  have "put_all (replicate 1024 NUL) 0 [key, '' ''] = Inr (?k @ ?rest, length ?k)"
    using put_all_concat [of 0 "[key, '' '']" "replicate 1024 NUL"] assms(2) by simp
  moreover have "?rest \<noteq> []" using assms(2) by simp
  ultimately show ?thesis
    using ftoa_undefined [OF _ assms(3), of ?rest ?k] assms(1) by (simp add: plaintext_each_def)
qed

section \<open>Pickles\<close>

text \<open>The bytes of one sample and of one frame; \<open>i\<close> counts the samples before it in the frame.\<close>

type_synonym item = "string \<times> u32 \<times> double"

definition pickle_item :: "u16 \<Rightarrow> item \<Rightarrow> string" where
  "pickle_item pt = (\<lambda>(key, tick, v).
     ''(U'' @ [char_of (length key)] @ key @ ''q'' @ pt_byte pt @ ''('' @ pickle1_int32 tick @ pickle1_double v @
     ''tq'' @ pt_byte (pt + 1) @ ''tq'' @ pt_byte (pt + 2))"

fun pickle_items :: "u16 \<Rightarrow> item list \<Rightarrow> string" where
  "pickle_items pt [] = []"
| "pickle_items pt (x # xs) = pickle_item pt x @ pickle_items (pt + 3) xs"

definition frame :: "item list \<Rightarrow> string" where
  "frame xs = (let body = lead @ pickle_items 1 xs @ trail in rev (le_bytes 4 (length body)) @ body)"

text \<open>The reader of the receiving side: one sample, the samples up to the end, a frame, a stream.\<close>

definition read_item :: "string \<Rightarrow> (item \<times> string) option" where
  "read_item s =
     (case s of
        a # b # n # s1 \<Rightarrow>
          let k = of_char n; key = take k s1; s2 = drop k s1 in
          if a = CHR ''('' \<and> b = CHR ''U'' \<and> length s2 \<ge> 23 \<and> s2 ! 0 = CHR ''q'' \<and> s2 ! 2 = CHR ''('' \<and> s2 ! 3 = CHR ''J''
            \<and> s2 ! 8 = CHR ''G'' \<and> s2 ! 17 = CHR ''t'' \<and> s2 ! 18 = CHR ''q'' \<and> s2 ! 20 = CHR ''t'' \<and> s2 ! 21 = CHR ''q''
          then Some ((key, word_of_nat (of_le (take 4 (drop 4 s2))), word_of_nat (of_le (rev (take 8 (drop 9 s2))))), drop 23 s2)
          else None
      | _ \<Rightarrow> None)"

lemma read_item_shrinks: "read_item s = Some (x, r) \<Longrightarrow> length r < length s"
  by (auto simp: read_item_def Let_def split: list.splits if_splits)

function read_items :: "string \<Rightarrow> item list option" where
  "read_items s =
     (if s = trail then Some []
      else case read_item s of None \<Rightarrow> None | Some (x, r) \<Rightarrow> map_option (Cons x) (read_items r))"
  by pat_completeness auto
termination by (relation "measure length") (auto dest: read_item_shrinks)

function read_stream :: "string \<Rightarrow> item list option" where
  "read_stream s =
     (if s = [] then Some []
      else let n = of_le (rev (take 4 s)); body = take n (drop 4 s) in
        if length s < 4 + n \<or> take 4 body \<noteq> lead then None
        else case read_items (drop 4 body) of
               None \<Rightarrow> None
             | Some xs \<Rightarrow> map_option ((@) xs) (read_stream (drop (4 + n) s)))"
  by pat_completeness auto
termination by (relation "measure length") auto

declare read_items.simps [simp del] read_stream.simps [simp del]

lemma length_pickle_item: "length (pickle_item pt (key, tick, v)) = 26 + length key"
  by (simp add: pickle_item_def pt_byte_def pickle1_int32_def pickle1_double_def)

lemma read_pickle_item:
  assumes "length key < 256"
  shows "read_item (pickle_item pt (key, tick, v) @ r) = Some ((key, tick, v), r)"
proof -
  define a where "a = le_bytes 4 (unat tick)"
  define b where "b = rev (le_bytes 8 (unat v))"
  have l: "length a = 4" "length b = 8" by (simp_all add: a_def b_def)
  obtain a0 a1 a2 a3 where a: "a = [a0, a1, a2, a3]" using l(1) by (auto simp: length_Suc_conv numeral_eq_Suc)
  obtain b0 b1 b2 b3 b4 b5 b6 b7 where b: "b = [b0, b1, b2, b3, b4, b5, b6, b7]"
    using l(2) by (auto simp: length_Suc_conv numeral_eq_Suc)
  have "unat tick < 256 ^ 4" "unat v < 256 ^ 8"
    using unsigned_less [of tick, where ?'a = nat] unsigned_less [of v, where ?'a = nat] by simp_all
  then have "of_le a = unat tick" "of_le (rev b) = unat v" by (simp_all add: a_def b_def of_le_bytes)
  then have w: "word_of_nat (of_le a) = tick" "word_of_nat (of_le (rev b)) = v" by simp_all
  have "pickle_item pt (key, tick, v) @ r = CHR ''('' # CHR ''U'' # char_of (length key) # key @
      CHR ''q'' # char_of (unat pt mod 256) # CHR ''('' # CHR ''J'' # a @ CHR ''G'' # b @
      CHR ''t'' # CHR ''q'' # char_of (unat (pt + 1) mod 256) # CHR ''t'' # CHR ''q'' # char_of (unat (pt + 2) mod 256) # r"
    by (simp add: pickle_item_def pt_byte_def pickle1_int32_def pickle1_double_def a_def b_def)
  moreover have "of_char (char_of (length key) :: char) = length key" using assms by (simp add: of_char_of)
  ultimately show ?thesis using w by (simp add: read_item_def Let_def a b)
qed

definition short_items :: "item list \<Rightarrow> bool" where
  "short_items xs \<longleftrightarrow> (\<forall>(key, tick, v)\<in>set xs. length key < 256)"

lemma short_items_simps [simp]:
  "short_items []" "short_items ((key, tick, v) # xs) \<longleftrightarrow> length key < 256 \<and> short_items xs"
  "short_items (xs @ ys) \<longleftrightarrow> short_items xs \<and> short_items ys"
  by (auto simp: short_items_def)

lemma read_pickle_items: "short_items xs \<Longrightarrow> read_items (pickle_items pt xs @ trail) = Some xs"
proof (induction xs arbitrary: pt)
  case (Cons x xs)
  obtain key tick v where x: "x = (key, tick, v)" by (cases x)
  have "pickle_items pt (x # xs) @ trail \<noteq> trail" by (simp add: x pickle_item_def)
  moreover have "read_item (pickle_items pt (x # xs) @ trail) = Some (x, pickle_items (pt + 3) xs @ trail)"
    using read_pickle_item [of key pt tick v "pickle_items (pt + 3) xs @ trail"] Cons.prems by (simp add: x)
  ultimately show ?case using Cons by (subst read_items.simps) (simp add: x)
qed (simp add: read_items.simps)

lemma read_stream_frame:
  assumes "short_items xs" "length (frame xs) < 2 ^ 32"
  shows "read_stream (frame xs @ r) = map_option ((@) xs) (read_stream r)"
proof -
  let ?b = "lead @ pickle_items 1 xs @ trail"
  have n: "of_le (rev (take 4 (frame xs @ r))) = length ?b"
    using assms(2) by (simp add: frame_def Let_def of_le_bytes)
  have d: "take (length ?b) (drop 4 (frame xs @ r)) = ?b" "drop (4 + length ?b) (frame xs @ r) = r"
    "\<not> length (frame xs @ r) < 4 + length ?b"
    by (simp_all add: frame_def Let_def)
  have ne: "frame xs @ r \<noteq> []" by (simp add: frame_def Let_def lead_def)
  have l: "take 4 ?b = lead" "drop 4 ?b = pickle_items 1 xs @ trail" by (simp_all add: lead_def)
  show ?thesis
    by (subst read_stream.simps) (simp only: n d l ne Let_def read_pickle_items [OF assms(1)] option.case simp_thms if_False)
qed

lemma read_stream_frames:
  "\<forall>xs\<in>set fs. short_items xs \<and> length (frame xs) < 2 ^ 32 \<Longrightarrow> read_stream (concat (map frame fs)) = Some (concat fs)"
  by (induction fs) (simp_all add: read_stream_frame read_stream.simps [of "[]"])

lemma pickle_items_append: "pickle_items pt (xs @ ys) = pickle_items pt xs @ pickle_items (pt + 3 * word_of_nat (length xs)) ys"
  by (induction xs arbitrary: pt) (simp_all add: algebra_simps)

text \<open>The pickle buffer holds the samples \<open>xs\<close>.\<close>

definition holds :: "pickler \<Rightarrow> item list \<Rightarrow> bool" where
  "holds pk xs \<longleftrightarrow> (\<exists>hdr rest. pk_buf pk = hdr @ lead @ pickle_items 1 xs @ rest \<and> length hdr = 4)
     \<and> length (pk_buf pk) = PICKLE_BUFFER_SIZE \<and> short_items xs
     \<and> unat (pk_pos pk) = 8 + length (pickle_items 1 xs) \<and> unat (pk_pos pk) + 6 \<le> PICKLE_BUFFER_SIZE
     \<and> pk_pt pk = 1 + 3 * word_of_nat (length xs)"

lemma init_holds:
  assumes "length (pk_buf pk) = PICKLE_BUFFER_SIZE"
  shows "\<exists>pk'. pickle1_init pk = Inr pk' \<and> holds pk' []"
proof -
  have "blit (pk_buf pk) 4 lead = Inr (take 4 (pk_buf pk) @ lead @ drop 8 (pk_buf pk))"
    using assms by (simp add: blit_def lead_def)
  moreover have "holds (pk\<lparr>pk_buf := take 4 (pk_buf pk) @ lead @ drop 8 (pk_buf pk), pk_pos := 4 + word_of_nat (length lead), pk_pt := 1\<rparr>) []"
    using assms by (auto simp: holds_def lead_def)
  ultimately show ?thesis by (simp add: pickle1_init_def)
qed

lemma push_holds:
  assumes "holds pk xs" "unat (pk_pos pk) + PICKLE1_SIZE (length key) < PICKLE_BUFFER_SIZE" "length key < 256"
  shows "\<exists>pk'. pickle1_push pk (key @ sfx) (word_of_nat (length key)) tick v = Inr pk' \<and> holds pk' (xs @ [(key, tick, v)])"
proof -
  let ?pt = "pk_pt pk" and ?p = "unat (pk_pos pk)"
  let ?ss = "[''('', ''U'', [char_of_byte (word_of_nat (length key))], take (unat (word_of_nat (length key) :: u8)) (key @ sfx),
         ''q'', pt_byte ?pt, ''('', pickle1_int32 tick, pickle1_double v,
         ''t'', ''q'', pt_byte (?pt + 1), ''t'', ''q'', pt_byte (?pt + 2)]"
  have kl: "unat (word_of_nat (length key) :: u8) = length key" using assms(3) by (simp add: unat_of_nat)
  then have c: "concat ?ss = pickle_item ?pt (key, tick, v)" by (simp add: pickle_item_def char_of_byte_def)
  from assms(1) obtain hdr rest where h: "pk_buf pk = hdr @ lead @ pickle_items 1 xs @ rest" "length hdr = 4"
    "length (pk_buf pk) = PICKLE_BUFFER_SIZE" "short_items xs" "?p = 8 + length (pickle_items 1 xs)"
    "?pt = 1 + 3 * word_of_nat (length xs)" by (auto simp: holds_def)
  let ?i = "pickle_item ?pt (key, tick, v)"
  have pa: "put_all (pk_buf pk) ?p ?ss = Inr (take ?p (pk_buf pk) @ ?i @ drop (?p + length ?i) (pk_buf pk), ?p + length ?i)"
    using put_all_concat [of ?p ?ss "pk_buf pk"] assms(2) h(3) unfolding c by (simp add: length_pickle_item PICKLE1_SIZE_def)
  have "?p = length (hdr @ lead @ pickle_items 1 xs)" using h(2,5) by (simp add: lead_def)
  then have t: "take ?p (pk_buf pk) = hdr @ lead @ pickle_items 1 xs" using h(1) by (metis append_assoc append_eq_conv_conj)
  let ?pk = "pk\<lparr>pk_buf := take ?p (pk_buf pk) @ ?i @ drop (?p + length ?i) (pk_buf pk), pk_pos := word_of_nat (?p + length ?i), pk_pt := ?pt + 3\<rparr>"
  have "pickle1_push pk (key @ sfx) (word_of_nat (length key)) tick v = Inr ?pk"
    unfolding pickle1_push_def Let_def pa by simp
  moreover have "holds ?pk (xs @ [(key, tick, v)])"
  proof -
    have u: "unat (word_of_nat (?p + length ?i) :: u16) = ?p + length ?i"
      using assms(2) by (simp add: unat_of_nat length_pickle_item PICKLE1_SIZE_def del: of_nat_add)
    have "length (take ?p (pk_buf pk) @ ?i @ drop (?p + length ?i) (pk_buf pk)) = PICKLE_BUFFER_SIZE"
      using assms(2) h(3) by (simp add: length_pickle_item PICKLE1_SIZE_def)
    moreover have "\<exists>hd' rest'. pk_buf ?pk = hd' @ lead @ pickle_items 1 (xs @ [(key, tick, v)]) @ rest' \<and> length hd' = 4"
      using t h(2,6) by (intro exI [of _ hdr] exI [of _ "drop (?p + length ?i) (pk_buf pk)"]) (simp add: pickle_items_append)
    ultimately show ?thesis
      unfolding holds_def using u h(4-6) assms(2,3)
      by (simp add: length_pickle_item PICKLE1_SIZE_def pickle_items_append algebra_simps del: of_nat_add)
  qed
  ultimately show ?thesis by blast
qed

section \<open>Sending\<close>

text \<open>
  A kernel whose writes come to an end, with success or not, and that can enlarge a socket; and one
  that moreover takes everything it is given.
\<close>

definition net_ok :: "carbon_net \<Rightarrow> bool" where
  "net_ok net \<longleftrightarrow> (\<forall>n buf. length buf \<le> PICKLE_BUFFER_SIZE \<longrightarrow> write_in_full (net_answers net n) buf \<noteq> None)
     \<and> (\<forall>fd. k_setopt (net_kernel net) fd (SetSndBuf LARGE_SOCK_SIZE))"

definition reliable :: "carbon_net \<Rightarrow> bool" where
  "reliable net \<longleftrightarrow> (\<forall>n buf. length buf \<le> PICKLE_BUFFER_SIZE \<longrightarrow>
     (\<exists>ks. write_in_full (net_answers net n) buf = Some (int (length buf), buf, ks)))"

definition on_wire :: "string list \<Rightarrow> string \<Rightarrow> string list" where
  "on_wire ws taken = (case ws of [] \<Rightarrow> [taken] | w # ws \<Rightarrow> (w @ taken) # ws)"

lemma carbon_write_eq:
  assumes "write_in_full (net_answers (c_net c) (c_writes c)) buf = Some (r, taken, ks)"
  shows "carbon_write c buf = Inr (c\<lparr>c_writes := Suc (c_writes c), c_wire := on_wire (c_wire c) taken\<rparr>, r)"
  using assms by (simp add: carbon_write_def on_wire_def)

lemma carbon_send_total:
  assumes "net_ok (c_net c)" "length buf \<le> PICKLE_BUFFER_SIZE"
  shows "\<exists>c'. carbon_send c buf = Inr c' \<and> c_net c' = c_net c \<and> c_pickler c' = c_pickler c"
proof -
  obtain r taken ks where "write_in_full (net_answers (c_net c) (c_writes c)) buf = Some (r, taken, ks)"
    using assms by (force simp: net_ok_def)
  from carbon_write_eq [OF this] show ?thesis by (simp add: carbon_send_def carbon_disconnect_def)
qed

lemma carbon_send_reliable:
  assumes "reliable (c_net c)" "length buf \<le> PICKLE_BUFFER_SIZE"
  shows "carbon_send c buf = Inr (c\<lparr>c_writes := Suc (c_writes c), c_wire := on_wire (c_wire c) buf,
    c_sent := c_sent c + word_of_nat (length buf)\<rparr>)"
proof -
  obtain ks where "write_in_full (net_answers (c_net c) (c_writes c)) buf = Some (int (length buf), buf, ks)"
    using assms by (force simp: reliable_def)
  from carbon_write_eq [OF this] show ?thesis by (simp add: carbon_send_def)
qed

lemma length_plaintext_line:
  assumes "ftoa_range (float_of_double v)"
  shows "length (plaintext_line tick key v) \<le> length key + 29"
proof -
  have "length (ftoa_text (float_of_double v)) \<le> 16"
    using ftoa_writes [OF _ assms, of "replicate 17 NUL" "[]"] by auto
  moreover have "length (dec (unat tick)) \<le> 10" by (rule length_dec_u32)
  ultimately show ?thesis by (simp add: plaintext_line_def)
qed

lemma carbon_connect_ok:
  assumes "net_ok (c_net c)"
  shows "\<exists>c' r. carbon_connect c = Inr (c', r) \<and> c_net c' = c_net c \<and> c_pickler c' = c_pickler c"
  using assms by (auto simp: carbon_connect_def Let_def sock_enlarge_out_def net_ok_def split: dial.splits)

text \<open>
  The plain text callbacks keep the contract of a backend for keys that fit their buffer; they fail on
  a value that the printing of numbers does not define.
\<close>

interpretation plaintext: backend_driver plaintext_ops "\<lambda>c. net_ok (c_net c)" "\<lambda>key. length key \<le> 995"
  "\<lambda>e v. e = BadShift \<and> \<not> ftoa_range (float_of_double v)"
proof
  fix c :: brubeck_carbon and t k v fl
  assume c: "net_ok (c_net c)"
  show "\<exists>c' r. op_connect plaintext_ops c = Inr (c', r) \<and> net_ok (c_net c')"
    using carbon_connect_ok [OF c] c by (auto simp: plaintext_ops_def)
  show "case op_sample plaintext_ops t k v c of Inr c' \<Rightarrow> net_ok (c_net c')
      | Inl e \<Rightarrow> e = BadShift \<and> \<not> ftoa_range (float_of_double v)" if k: "length k \<le> 995"
  proof (cases "carbon_is_connected c")
    case True
    show ?thesis
    proof (cases "ftoa_range (float_of_double v)")
      case v: True
      have "length (plaintext_line t k v) \<le> PICKLE_BUFFER_SIZE" using length_plaintext_line [OF v, of t k] k by simp
      from carbon_send_total [OF c this] c show ?thesis
        by (auto simp: plaintext_ops_def plaintext_each_line [OF True k v])
    qed (simp add: plaintext_ops_def plaintext_each_undefined [OF True k])
  qed (use c in \<open>simp add: plaintext_ops_def plaintext_each_def\<close>)
  show "\<exists>c'. fl c = Inr c' \<and> net_ok (c_net c')" if "op_flush plaintext_ops = Some fl"
    using that by (simp add: plaintext_ops_def)
qed

lemma length_pickle_items: "26 * length xs \<le> length (pickle_items pt xs)"
proof (induction xs arbitrary: pt)
  case (Cons x xs)
  obtain key tick v where "x = (key, tick, v)" by (cases x)
  then show ?case using Cons [of "pt + 3"] by (simp add: length_pickle_item)
qed simp

lemma holds_pt:
  assumes "holds pk xs"
  shows "pk_pt pk = 1 \<longleftrightarrow> xs = []"
proof -
  have l: "3 * length xs < 2 ^ 16" using assms length_pickle_items [of xs 1] by (auto simp: holds_def)
  have "3 * word_of_nat (length xs) = (word_of_nat (3 * length xs) :: u16)" by simp
  moreover have "unat (word_of_nat (3 * length xs) :: u16) = 3 * length xs" using l by (simp add: unat_of_nat del: of_nat_mult)
  ultimately have "3 * word_of_nat (length xs) = (0 :: u16) \<longleftrightarrow> xs = []"
    by (metis length_0_conv mult_eq_0_iff unat_eq_zero zero_neq_numeral)
  with assms show ?thesis by (auto simp: holds_def)
qed

lemma length_frame: "length (frame xs) = 10 + length (pickle_items 1 xs)"
  by (simp add: frame_def Let_def lead_def trail_def)

lemma flush_writes:
  assumes h: "holds (c_pickler c) xs" and con: "carbon_is_connected c" "xs \<noteq> []"
    and w: "write_in_full (net_answers (c_net c) (c_writes c)) (frame xs) = Some (r, taken, ks)"
  shows "\<exists>c'. pickle1_flush c = Inr c' \<and> holds (c_pickler c') [] \<and> c_net c' = c_net c
    \<and> c_wire c' = on_wire (c_wire c) taken \<and> out_sock c' = (if r < 0 then - 1 else out_sock c)"
proof -
  let ?pk = "c_pickler c" and ?n = "length (pickle_items 1 xs)"
  from h obtain hdr rest where b: "pk_buf ?pk = hdr @ lead @ pickle_items 1 xs @ rest" "length hdr = 4"
    "length (pk_buf ?pk) = PICKLE_BUFFER_SIZE" "unat (pk_pos ?pk) = 8 + ?n" "8 + ?n + 6 \<le> PICKLE_BUFFER_SIZE"
    by (auto simp: holds_def)
  let ?buf = "(hdr @ lead @ pickle_items 1 xs) @ trail @ drop 2 rest" and ?pos = "pk_pos ?pk + word_of_nat (length trail)"
  have len: "8 + ?n = length (hdr @ lead @ pickle_items 1 xs)" using b(2) by (simp add: lead_def)
  have rest: "length rest \<ge> 6" using b(1-3,5) by (simp add: lead_def)
  have b1: "blit (pk_buf ?pk) (unat (pk_pos ?pk)) trail = Inr ?buf"
    unfolding b(4) len b(1) using rest by (simp add: blit_def trail_def)
  have pos: "unat ?pos = 10 + ?n" using b(4,5) by (simp add: trail_def unat_word_ariths)
  then have lw: "unat (ucast ?pos - 4 :: u32) = 6 + ?n"
  proof -
    have "unat (ucast ?pos :: u32) = 10 + ?n" using pos b(5) by (simp add: unsigned_ucast_eq take_bit_nat_eq_self)
    then show ?thesis by (simp add: unat_sub_if')
  qed
  let ?hdr = "rev (le_bytes 4 (6 + ?n))"
  let ?b2 = "?hdr @ lead @ pickle_items 1 xs @ trail @ drop 2 rest"
  have b2: "blit ?buf 0 ?hdr = Inr ?b2" using b(2) by (simp add: blit_def)
  have "length (lead @ pickle_items 1 xs @ trail) = 6 + ?n" by (simp add: lead_def trail_def)
  then have fr: "frame xs = ?hdr @ lead @ pickle_items 1 xs @ trail" by (simp only: frame_def Let_def)
  have "?b2 = frame xs @ drop 2 rest" by (simp add: fr)
  moreover have "take (unat ?pos) (frame xs @ drop 2 rest) = frame xs" by (simp add: pos length_frame [symmetric])
  ultimately have t: "take (unat ?pos) ?b2 = frame xs" by (simp only:)
  let ?c1 = "c\<lparr>c_pickler := ?pk\<lparr>pk_buf := ?b2, pk_pos := ?pos\<rparr>\<rparr>"
  have cw: "carbon_write ?c1 (frame xs) = Inr (?c1\<lparr>c_writes := Suc (c_writes c), c_wire := on_wire (c_wire c) taken\<rparr>, r)"
    using carbon_write_eq [of ?c1 "frame xs" r taken ks] w by simp
  have "length ?b2 = PICKLE_BUFFER_SIZE" using b(1-3) rest by (simp add: trail_def)
  then obtain pk' where pk': "pickle1_init (?pk\<lparr>pk_buf := ?b2, pk_pos := ?pos\<rparr>) = Inr pk'" "holds pk' []"
    using init_holds [of "?pk\<lparr>pk_buf := ?b2, pk_pos := ?pos\<rparr>"] by auto
  have "pickle1_flush c = rbind (carbon_write ?c1 (frame xs)) (\<lambda>(carbon, wr). rbind (pickle1_init (c_pickler carbon)) (\<lambda>pk.
      if wr < 0 then Inr (carbon_disconnect (carbon\<lparr>c_pickler := pk\<rparr>))
      else Inr (carbon\<lparr>c_pickler := pk, c_sent := c_sent carbon + word_of_int wr\<rparr>)))"
    using con(1) con(2) holds_pt [OF h]
    by (simp add: pickle1_flush_def Let_def b1 lw b2 t cong: if_cong del: append_assoc take_append)
  with cw pk' show ?thesis by (simp add: carbon_disconnect_def)
qed

text \<open>The key of a sample in a pickle: its length is cut to eight bits.\<close>

definition pickle_key :: "string \<Rightarrow> string" where
  "pickle_key key = take (length key mod 256) key"

lemma pickle_key_short: "length key < 256 \<Longrightarrow> pickle_key key = key" "length (pickle_key key) = length key mod 256"
  by (simp_all add: pickle_key_def min_def)

lemma push_key:
  assumes "holds pk xs" "unat (pk_pos pk) + PICKLE1_SIZE (length key mod 256) < PICKLE_BUFFER_SIZE"
  shows "\<exists>pk'. pickle1_push pk key (word_of_nat (length key)) tick v = Inr pk' \<and> holds pk' (xs @ [(pickle_key key, tick, v)])"
proof -
  have "(word_of_nat (length key) :: u8) = word_of_nat (length key mod 256)"
  proof -
    have "word_of_nat (unat w) = w" for w :: u8 by simp
    from this [of "word_of_nat (length key)"] show ?thesis unfolding unat_of_nat by simp
  qed
  with push_holds [OF assms(1), of "pickle_key key" "drop (length key mod 256) key" tick v] assms(2) show ?thesis
    by (simp add: pickle_key_short(2)) (simp add: pickle_key_def)
qed

lemma empty_fits: "holds pk [] \<Longrightarrow> unat (pk_pos pk) + PICKLE1_SIZE (n mod 256) < PICKLE_BUFFER_SIZE"
  by (simp add: holds_def PICKLE1_SIZE_def)

lemma flush_total:
  assumes "holds (c_pickler c) xs" "net_ok (c_net c)"
  shows "\<exists>c' xs'. pickle1_flush c = Inr c' \<and> holds (c_pickler c') xs' \<and> c_net c' = c_net c
    \<and> (carbon_is_connected c' \<longrightarrow> xs' = [])"
proof (cases "carbon_is_connected c \<and> xs \<noteq> []")
  case True
  have "length (frame xs) \<le> PICKLE_BUFFER_SIZE" using assms(1) by (auto simp: holds_def length_frame)
  then obtain r taken ks where "write_in_full (net_answers (c_net c) (c_writes c)) (frame xs) = Some (r, taken, ks)"
    using assms(2) by (force simp: net_ok_def)
  from flush_writes [OF assms(1) _ _ this] True show ?thesis by blast
next
  case False
  then have "pickle1_flush c = Inr c" using holds_pt [OF assms(1)] by (auto simp: pickle1_flush_def Let_def)
  with assms False show ?thesis by blast
qed

lemma each_total:
  assumes "holds (c_pickler c) xs" "net_ok (c_net c)"
  shows "\<exists>c' xs'. pickle1_each tick key v c = Inr c' \<and> holds (c_pickler c') xs' \<and> c_net c' = c_net c"
proof -
  let ?k = "unat (word_of_nat (length key) :: u8)"
  have k: "?k = length key mod 256" by (simp add: unat_of_nat)
  let ?f = "if PICKLE_BUFFER_SIZE \<le> unat (pk_pos (c_pickler c)) + PICKLE1_SIZE ?k then pickle1_flush c else Inr c"
  obtain c1 xs1 where c1: "?f = Inr c1" "holds (c_pickler c1) xs1" "c_net c1 = c_net c"
    "carbon_is_connected c1 \<Longrightarrow> unat (pk_pos (c_pickler c1)) + PICKLE1_SIZE (length key mod 256) < PICKLE_BUFFER_SIZE"
  proof (cases "PICKLE_BUFFER_SIZE \<le> unat (pk_pos (c_pickler c)) + PICKLE1_SIZE ?k")
    case True
    with flush_total [OF assms] that show thesis by (metis empty_fits)
  next
    case False
    with that [of c xs] assms show thesis by (simp add: k)
  qed
  show ?thesis
  proof (cases "carbon_is_connected c1")
    case True
    from push_key [OF c1(2) c1(4) [OF True], of tick v] obtain pk' where
      "pickle1_push (c_pickler c1) key (word_of_nat (length key)) tick v = Inr pk'" "holds pk' (xs1 @ [(pickle_key key, tick, v)])" by blast
    with c1 True show ?thesis unfolding pickle1_each_def Let_def by auto
  next
    case False
    with c1 show ?thesis unfolding pickle1_each_def Let_def by auto
  qed
qed

text \<open>The pickle callbacks keep the contract of a backend for every key.\<close>

interpretation pickle: backend_driver pickle_ops "\<lambda>c. net_ok (c_net c) \<and> (\<exists>xs. holds (c_pickler c) xs)" "\<lambda>key. True"
  "\<lambda>e v. False"
proof
  fix c :: brubeck_carbon and t k v fl
  assume c: "net_ok (c_net c) \<and> (\<exists>xs. holds (c_pickler c) xs)"
  then obtain xs where xs: "net_ok (c_net c)" "holds (c_pickler c) xs" by blast
  show "\<exists>c' r. op_connect pickle_ops c = Inr (c', r) \<and> net_ok (c_net c') \<and> (\<exists>xs. holds (c_pickler c') xs)"
    using carbon_connect_ok [OF xs(1)] xs by (auto simp: pickle_ops_def)
  show "case op_sample pickle_ops t k v c of Inr c' \<Rightarrow> net_ok (c_net c') \<and> (\<exists>xs. holds (c_pickler c') xs) | Inl e \<Rightarrow> False"
    using each_total [OF xs(2,1), of t k v] xs(1) by (auto simp: pickle_ops_def)
  show "\<exists>c'. fl c = Inr c' \<and> net_ok (c_net c') \<and> (\<exists>xs. holds (c_pickler c') xs)" if "op_flush pickle_ops = Some fl"
    using flush_total [OF xs(2,1)] xs(1) that by (auto simp: pickle_ops_def)
qed

text \<open>A connection that has carried the frames \<open>fs\<close>, while \<open>xs\<close> waits in the buffer.\<close>

definition streaming :: "brubeck_carbon \<Rightarrow> item list list \<Rightarrow> item list \<Rightarrow> bool" where
  "streaming c fs xs \<longleftrightarrow> carbon_is_connected c \<and> reliable (c_net c) \<and> holds (c_pickler c) xs
     \<and> (\<forall>ys\<in>set fs. short_items ys \<and> length (frame ys) < 2 ^ 32) \<and> (\<exists>ws. c_wire c = concat (map frame fs) # ws)"

lemma flush_streaming:
  assumes "streaming c fs xs"
  shows "\<exists>c' fs'. pickle1_flush c = Inr c' \<and> streaming c' fs' [] \<and> concat fs' = concat fs @ xs"
proof (cases "xs = []")
  case True
  then have "pickle1_flush c = Inr c" using assms holds_pt [of "c_pickler c" xs] by (simp add: streaming_def pickle1_flush_def Let_def)
  with True assms show ?thesis by auto
next
  case False
  note s = assms [unfolded streaming_def]
  have l: "length (frame xs) \<le> PICKLE_BUFFER_SIZE" "short_items xs" using s by (auto simp: holds_def length_frame)
  then obtain ks where w: "write_in_full (net_answers (c_net c) (c_writes c)) (frame xs) = Some (int (length (frame xs)), frame xs, ks)"
    using s by (force simp: reliable_def)
  from flush_writes [OF _ _ False w] s obtain c' where c': "pickle1_flush c = Inr c'" "holds (c_pickler c') []"
    "c_net c' = c_net c" "c_wire c' = on_wire (c_wire c) (frame xs)" "out_sock c' = out_sock c" by auto
  have "streaming c' (fs @ [xs]) []"
    unfolding streaming_def using s c' l by (auto simp: on_wire_def carbon_is_connected_def)
  with c'(1) show ?thesis by (intro exI [of _ c'] exI [of _ "fs @ [xs]"]) simp
qed

lemma each_streaming:
  assumes "streaming c fs xs"
  shows "\<exists>c' fs' xs'. pickle1_each tick key v c = Inr c' \<and> streaming c' fs' xs'
    \<and> concat fs' @ xs' = concat fs @ xs @ [(pickle_key key, tick, v)]"
proof -
  let ?k = "unat (word_of_nat (length key) :: u8)"
  have k: "?k = length key mod 256" by (simp add: unat_of_nat)
  let ?f = "if PICKLE_BUFFER_SIZE \<le> unat (pk_pos (c_pickler c)) + PICKLE1_SIZE ?k then pickle1_flush c else Inr c"
  obtain c1 fs1 xs1 where c1: "?f = Inr c1" "streaming c1 fs1 xs1" "concat fs1 @ xs1 = concat fs @ xs"
    "unat (pk_pos (c_pickler c1)) + PICKLE1_SIZE (length key mod 256) < PICKLE_BUFFER_SIZE"
  proof (cases "PICKLE_BUFFER_SIZE \<le> unat (pk_pos (c_pickler c)) + PICKLE1_SIZE ?k")
    case True
    from flush_streaming [OF assms(1)] obtain c' fs' where
      "pickle1_flush c = Inr c'" "streaming c' fs' []" "concat fs' = concat fs @ xs" by blast
    with that [of c' fs' "[]"] True show thesis using empty_fits [of "c_pickler c'" "length key"] by (simp add: streaming_def)
  next
    case False
    with that [of c fs xs] assms show thesis by (simp add: k)
  qed
  then have con: "carbon_is_connected c1" "holds (c_pickler c1) xs1" by (simp_all add: streaming_def)
  from push_key [OF con(2) c1(4), of tick v] obtain pk' where pk':
    "pickle1_push (c_pickler c1) key (word_of_nat (length key)) tick v = Inr pk'" "holds pk' (xs1 @ [(pickle_key key, tick, v)])" by blast
  have "pickle1_each tick key v c = Inr (c1\<lparr>c_pickler := pk'\<rparr>)"
    unfolding pickle1_each_def Let_def using c1(1) con(1) pk'(1) by simp
  moreover have "streaming (c1\<lparr>c_pickler := pk'\<rparr>) fs1 (xs1 @ [(pickle_key key, tick, v)])"
    using c1(2) pk'(2) by (simp add: streaming_def carbon_is_connected_def)
  ultimately show ?thesis using c1(3) by (metis append_assoc)
qed

text \<open>Any run of samples and flushes, and the samples in it as they go into a pickle.\<close>

datatype pickle_event = Sample u32 string double | Flush

fun pickle_run :: "pickle_event list \<Rightarrow> brubeck_carbon \<Rightarrow> brubeck_carbon res" where
  "pickle_run [] c = Inr c"
| "pickle_run (Sample tick key v # evs) c = rbind (pickle1_each tick key v c) (pickle_run evs)"
| "pickle_run (Flush # evs) c = rbind (pickle1_flush c) (pickle_run evs)"

fun pickled :: "pickle_event list \<Rightarrow> item list" where
  "pickled [] = []"
| "pickled (Sample tick key v # evs) = (take (length key mod 256) key, tick, v) # pickled evs"
| "pickled (Flush # evs) = pickled evs"

lemma run_streaming:
  assumes "streaming c fs xs"
  shows "\<exists>c' fs' xs'. pickle_run evs c = Inr c' \<and> streaming c' fs' xs' \<and> concat fs' @ xs' = concat fs @ xs @ pickled evs"
  using assms
proof (induction evs arbitrary: c fs xs rule: pickled.induct)
  case (2 tick key v evs)
  from each_streaming [OF "2.prems", of tick key v] obtain c1 fs1 xs1 where c1: "pickle1_each tick key v c = Inr c1"
    "streaming c1 fs1 xs1" "concat fs1 @ xs1 = concat fs @ xs @ [(pickle_key key, tick, v)]" by blast
  from "2.IH" [OF c1(2)] obtain c2 fs2 xs2 where c2: "pickle_run evs c1 = Inr c2" "streaming c2 fs2 xs2"
    "concat fs2 @ xs2 = concat fs1 @ xs1 @ pickled evs" by blast
  have "concat fs2 @ xs2 = (concat fs1 @ xs1) @ pickled evs" using c2(3) by simp
  then have "concat fs2 @ xs2 = concat fs @ xs @ pickled (Sample tick key v # evs)" by (simp add: c1(3) pickle_key_def)
  with c1(1) c2(1,2) show ?case by auto
next
  case (3 evs)
  from flush_streaming [OF "3.prems"] obtain c1 fs1 where c1: "pickle1_flush c = Inr c1" "streaming c1 fs1 []"
    "concat fs1 = concat fs @ xs" by blast
  from "3.IH" [OF c1(2)] c1(1,3) show ?case by fastforce
qed auto

lemma send_plaintext:
  assumes "carbon_is_connected c" "reliable (c_net c)" "c_wire c = w # ws"
    "\<forall>(key, v)\<in>set es. length key \<le> 995 \<and> ftoa_range (float_of_double v)"
  shows "\<exists>c'. send_all plaintext_ops tick es c = Inr c'
    \<and> c_wire c' = (w @ concat (map (\<lambda>(key, v). plaintext_line tick key v) es)) # ws
    \<and> c_sent c' = c_sent c + word_of_nat (length (concat (map (\<lambda>(key, v). plaintext_line tick key v) es)))"
  using assms
proof (induction es arbitrary: c w)
  case (Cons e es)
  obtain key v where e: "e = (key, v)" by force
  let ?l = "plaintext_line tick key v"
  have v: "ftoa_range (float_of_double v)" using Cons.prems(4) by (simp add: e)
  have len: "length key \<le> 995" "length ?l \<le> PICKLE_BUFFER_SIZE" using Cons.prems(4) length_plaintext_line [OF v, of tick key] by (auto simp: e)
  let ?c = "c\<lparr>c_writes := Suc (c_writes c), c_wire := (w @ ?l) # ws, c_sent := c_sent c + word_of_nat (length ?l)\<rparr>"
  have one: "plaintext_each tick key v c = Inr ?c"
    using plaintext_each_line [OF Cons.prems(1) len(1) v] carbon_send_reliable [OF Cons.prems(2) len(2)] Cons.prems(3)
    by (simp add: on_wire_def)
  obtain c' where "send_all plaintext_ops tick es ?c = Inr c'"
    "c_wire c' = ((w @ ?l) @ concat (map (\<lambda>(key, v). plaintext_line tick key v) es)) # ws"
    "c_sent c' = c_sent ?c + word_of_nat (length (concat (map (\<lambda>(key, v). plaintext_line tick key v) es)))"
    using Cons.IH [of ?c "w @ ?l"] Cons.prems by (auto simp: carbon_is_connected_def)
  with one show ?case by (simp add: e plaintext_ops_def)
qed simp

section \<open>The keys of a turn\<close>

lemma length_cstr: "length (cstr s) \<le> length s"
  by (simp add: cstr_def length_takeWhile_le)

lemma with_suffix_length: "with_suffix room m sfx v = Inr (k, w) \<Longrightarrow> length k \<le> length (m_key m) + length sfx"
proof -
  assume "with_suffix room m sfx v = Inr (k, w)"
  then have "k = cstr (take (unat (m_key_len m)) (m_key m) @ sfx)" by (simp add: with_suffix_def split: if_splits)
  then have "length k \<le> length (take (unat (m_key_len m)) (m_key m) @ sfx)" by (simp only: length_cstr)
  also have "\<dots> \<le> length (m_key m) + length sfx" by simp
  finally show ?thesis .
qed

lemma emit_all_length:
  "emit_all room m ss = Inr es \<Longrightarrow> \<forall>(s, v)\<in>set ss. length s \<le> 19 \<Longrightarrow> \<forall>(k, v)\<in>set es. length k \<le> length (m_key m) + 19"
proof (induction room m ss arbitrary: es rule: emit_all.induct)
  case (2 room m sfx v rest)
  from 2(2) obtain k w es' where e: "with_suffix room m sfx v = Inr (k, w)" "emit_all room m rest = Inr es'" "es = (k, w) # es'"
    by (auto simp: rbind_Inr_iff)
  have "length k \<le> length (m_key m) + 19" using with_suffix_length [OF e(1)] 2(3) by simp
  with 2(1) [of "(k, w)"] 2(3) e show ?case by simp
qed simp

lemma internal_loop_length:
  "internal_loop room m ss st = Inr (es, st') \<Longrightarrow> \<forall>(s, k)\<in>set ss. length k \<le> 19 \<Longrightarrow> \<forall>(k, v)\<in>set es. length k \<le> length (m_key m) + 19"
proof (induction ss arbitrary: st es)
  case (Cons x ss)
  obtain s sfx where x: "x = (s, sfx)" by force
  from Cons.prems(1) obtain v st1 k w es' where e: "with_suffix room m sfx v = Inr (k, w)"
    "internal_loop room m ss st1 = Inr (es', st')" "es = (k, w) # es'"
    by (auto simp: x take_stat_def Let_def rbind_Inr_iff)
  have "length k \<le> length (m_key m) + 19" using with_suffix_length [OF e(1)] Cons.prems(2) by (simp add: x)
  with Cons.IH [OF e(2)] Cons.prems(2) e(3) show ?case by simp
qed simp

lemma histogram_sample_keys:
  assumes "histogram_sample fr m = Inr (es, m')"
  shows "\<forall>(k, v)\<in>set es. length k \<le> length (m_key m) + 19"
proof -
  obtain hs h where "brubeck_histo_sample (as_histogram m) = Inr (hs, h)"
    using assms by (auto simp: histogram_sample_def rbind_Inr_iff)
  with assms obtain room m1 ss where "emit_all room m1 ss = Inr es" "m_key m1 = m_key m" "\<forall>(s, v)\<in>set ss. length s \<le> 19"
    by (auto simp: histogram_sample_def rbind_Inr_iff Let_def simp del: emit_all.simps append_Cons)
  with emit_all_length show ?thesis by metis
qed

lemma sample_keys:
  assumes "brubeck_metric_sample fr st m = Inr (es, st', m')"
  shows "m_key m' = m_key m" "\<forall>(k, v)\<in>set es. length k \<le> length (m_key m) + 19"
proof -
  show "m_key m' = m_key m"
    using assms by (auto simp: brubeck_metric_sample_def gauge_sample_def meter_sample_def counter_sample_def histogram_sample_def
        brubeck_internal_sample_def rbind_Inr_iff Let_def split: brubeck_metric_t.splits if_splits)
  show "\<forall>(k, v)\<in>set es. length k \<le> length (m_key m) + 19"
  proof (cases "m_type m = MT_HISTO \<or> m_type m = MT_TIMER")
    case True
    with assms have "histogram_sample fr m = Inr (es, m')" by (auto simp: brubeck_metric_sample_def rbind_Inr_iff)
    then show ?thesis by (rule histogram_sample_keys)
  next
    case False
    show ?thesis
    proof (cases "m_type m = MT_INTERNAL_STATS")
      case True
      with assms obtain room where "internal_loop room m internal_keys st = Inr (es, st')"
        by (auto simp: brubeck_metric_sample_def brubeck_internal_sample_def rbind_Inr_iff Let_def split: if_splits)
      then show ?thesis by (rule internal_loop_length) (simp add: internal_keys_def)
    next
      case internal: False
      with False assms have "\<forall>(k, v)\<in>set es. k = cstr (m_key m)"
        by (auto simp: brubeck_metric_sample_def gauge_sample_def meter_sample_def counter_sample_def split: brubeck_metric_t.splits)
      then show ?thesis using length_cstr [of "m_key m"] by fastforce
    qed
  qed
qed

lemma collect_keys:
  assumes "collect fr q heap st = Inr (es, heap', st')" "\<forall>p\<in>set q. \<forall>m. heap p = Some m \<longrightarrow> length (m_key m) \<le> n"
  shows "\<forall>(k, v)\<in>set es. length k \<le> n + 19"
  using assms
proof (induction q arbitrary: heap st es)
  case (Cons mt rest)
  then obtain m where m: "heap mt = Some m" by (auto split: option.splits)
  show ?case
  proof (cases "m_expire m > 0")
    case True
    with Cons.prems(1) m obtain es1 st1 m1 es2 where s: "brubeck_metric_sample fr st m = Inr (es1, st1, m1)"
      "collect fr rest (heap(mt \<mapsto> m1)) st1 = Inr (es2, heap', st')" "es = es1 @ es2"
      by (auto simp: rbind_Inr_iff)
    have "\<forall>(k, v)\<in>set es2. length k \<le> n + 19"
      using Cons.IH [OF s(2)] Cons.prems(2) m sample_keys(1) [OF s(1)] by auto
    moreover have "length (m_key m) \<le> n" using Cons.prems(2) m by simp
    ultimately show ?thesis using sample_keys(2) [OF s(1)] s(3) by fastforce
  next
    case False
    with Cons m show ?thesis by auto
  qed
qed simp

section \<open>Properties\<close>

text \<open>
  C10. Over a connection whose writes succeed, the samples of a turn with keys of at most 995 bytes and
  values below \<open>2^23\<close> in magnitude arrive as one line each, with the key, the value in single
  precision truncated to four decimals, and the time of the turn, in the order they were sent, and
  the counter of sent bytes advances by their length.
\<close>

theorem plaintext_lines_sent:
  assumes "carbon_is_connected c" "reliable (c_net c)" "c_wire c = w # ws"
    "\<forall>(key, v)\<in>set es. length key \<le> 995 \<and> ftoa_range (float_of_double v)"
  shows "\<exists>c'. send_all plaintext_ops tick es c = Inr c'
    \<and> c_wire c' = (w @ concat (map (\<lambda>(key, v). plaintext_line tick key v) es)) # ws
    \<and> c_sent c' = c_sent c + word_of_nat (length (concat (map (\<lambda>(key, v). plaintext_line tick key v) es)))"
  using assms by (rule send_plaintext)

definition demo_carbon :: brubeck_carbon where
  "demo_carbon = \<lparr>out_sock = 5, out_sockaddr = \<lparr>sin_family = 2, sin_port = 0, sin_addr = 0\<rparr>,
     c_pickler = \<lparr>pk_buf = replicate 4 NUL @ lead @ replicate 4088 NUL, pk_pos = 8, pk_pt = 1\<rparr>, c_sent = 0,
     c_net = \<lparr>net_dial = (\<lambda>n. Connected 5), net_answers = (\<lambda>n. [Accept 5000]),
       net_kernel = \<lparr>k_socket = 5, k_setopt = (\<lambda>fd opt. True), k_bind = (\<lambda>fd a. True)\<rparr>\<rparr>,
     c_dials = 1, c_writes = 0, c_wire = [[]]\<rparr>"

lemma demo_carbon_ok:
  "carbon_is_connected demo_carbon" "reliable (c_net demo_carbon)" "net_ok (c_net demo_carbon)" "c_wire demo_carbon = [[]]"
  "holds (c_pickler demo_carbon) []"
proof -
  have w: "\<exists>ks. write_in_full [Accept 5000] buf = Some (int (length buf), buf, ks)" if "length buf \<le> PICKLE_BUFFER_SIZE" for buf
    using that by (cases buf) (simp_all add: write_in_full_def write_loop.simps)
  show "reliable (c_net demo_carbon)" using w by (simp add: reliable_def demo_carbon_def)
  show "net_ok (c_net demo_carbon)" using w by (fastforce simp: net_ok_def demo_carbon_def)
  show "holds (c_pickler demo_carbon) []"
    unfolding holds_def demo_carbon_def
    by (intro conjI exI [of _ "replicate 4 NUL"] exI [of _ "replicate 4088 NUL"]) (simp_all add: lead_def)
qed (simp_all add: carbon_is_connected_def demo_carbon_def)

lemma zero_prints: "ftoa_range (float_of_double 0)"
proof -
  have "decode32 (float_of_double 0) = FFin False 0 (- 149)" by (simp add: fp_eval fp_round_def)
  then show ?thesis by (simp add: ftoa_range_def)
qed

theorem plaintext_lines_sent_witness:
  "\<exists>c'. send_all plaintext_ops 7 [(''a'', 0), (''b'', 0)] demo_carbon = Inr c'
     \<and> c_wire c' = [plaintext_line 7 ''a'' 0 @ plaintext_line 7 ''b'' 0]"
  using plaintext_lines_sent [OF demo_carbon_ok(1,2,4), of "[(''a'', 0), (''b'', 0)]" 7] by (auto simp: zero_prints)

text \<open>
  A key of 1024 bytes or more makes \<^verbatim>\<open>plaintext_each\<close> write past its buffer on the stack.
\<close>

theorem plaintext_key_overflow:
  assumes "carbon_is_connected c" "1024 \<le> length key"
  shows "plaintext_each tick key v c = Inl OutOfBounds"
  using assms by (rule plaintext_each_overflow)

theorem plaintext_key_overflow_witness:
  "plaintext_each 7 (replicate 1024 (CHR ''k'')) 0 demo_carbon = Inl OutOfBounds"
  using plaintext_key_overflow [OF demo_carbon_ok(1), of "replicate 1024 (CHR ''k'')" 7 0] by simp

text \<open>
  C4. Round trip of the pickle protocol: over a connection whose writes succeed, a receiver that reads
  the frames of any run of samples and flushes, ended by a flush, gets the samples that waited in
  the buffer at its start and then exactly the keys, times and values that were sampled, in their
  order, however they are split into frames. A key of fewer than 256 bytes arrives whole; of a
  longer one only as many bytes as its length modulo 256.
\<close>

theorem pickle_roundtrip:
  assumes "carbon_is_connected c" "reliable (c_net c)" "holds (c_pickler c) xs" "c_wire c = [] # ws"
  shows "\<exists>c' c''. pickle_run evs c = Inr c' \<and> pickle1_flush c' = Inr c''
    \<and> read_stream (hd (c_wire c'')) = Some (xs @ pickled evs)"
proof -
  have "streaming c [] xs" using assms by (simp add: streaming_def)
  from run_streaming [OF this, of evs] obtain c' fs xs' where c': "pickle_run evs c = Inr c'" "streaming c' fs xs'"
    "concat fs @ xs' = xs @ pickled evs" by auto
  from flush_streaming [OF c'(2)] obtain c'' fs' where c'': "pickle1_flush c' = Inr c''" "streaming c'' fs' []" "concat fs' = concat fs @ xs'"
    by blast
  then have "read_stream (hd (c_wire c'')) = Some (concat fs')" by (auto simp: streaming_def read_stream_frames)
  with c' c'' show ?thesis by auto
qed

theorem pickle_roundtrip_witness:
  "\<exists>c' c''. pickle_run [Sample 9 ''a'' 1, Flush, Sample 10 ''b'' 2, Sample 10 ''c'' 3] demo_carbon = Inr c' \<and> pickle1_flush c' = Inr c''
     \<and> read_stream (hd (c_wire c'')) = Some [(''a'', 9, 1), (''b'', 10, 2), (''c'', 10, 3)]"
  using pickle_roundtrip [OF demo_carbon_ok(1,2,5,4), of "[Sample 9 ''a'' 1, Flush, Sample 10 ''b'' 2, Sample 10 ''c'' 3]"] by simp

text \<open>
  C9. A turn of the backend thread over carbon, whatever the kernel answers, as long as the socket
  option can be set and every write returns in the end (\<open>net_ok\<close>): with pickles the turn completes
  and the pickle buffer is never exceeded, for keys of any length. With plain text and keys of up
  to 976 bytes the line buffer is never exceeded: the turn completes, unless a value of \<open>2^23\<close> or more
  in magnitude is to be printed, where the shift in \<^verbatim>\<open>brubeck_ftoa\<close> is undefined.
\<close>

theorem carbon_turn_safe:
  assumes "net_ok (c_net c)" "\<forall>mt\<in>set (be_queue self). \<exists>m. heap mt = Some m \<and> metric_ok m"
  shows "((\<exists>xs. holds (c_pickler c) xs) \<longrightarrow>
        (\<exists>self' heap' stats' c' xs. backend_thread_turn pickle_ops now self heap stats c = Inr (self', heap', stats', c')
          \<and> holds (c_pickler c') xs))
    \<and> ((\<forall>mt\<in>set (be_queue self). \<forall>m. heap mt = Some m \<longrightarrow> length (m_key m) \<le> 976) \<longrightarrow>
        (case backend_thread_turn plaintext_ops now self heap stats c of
           Inr r \<Rightarrow> True
         | Inl e \<Rightarrow> e = BadShift \<and> (\<exists>es heap' stats'. collect (be_sample_freq self) (be_queue self) heap stats = Inr (es, heap', stats')
             \<and> (\<exists>(k, v)\<in>set es. \<not> ftoa_range (float_of_double v)))))"
proof (intro conjI impI)
  assume "\<exists>xs. holds (c_pickler c) xs"
  with pickle.turn_total [OF _ assms(2), of c stats now] assms(1)
  show "\<exists>self' heap' stats' c' xs. backend_thread_turn pickle_ops now self heap stats c = Inr (self', heap', stats', c')
      \<and> holds (c_pickler c') xs" by (auto simp: split_beta split: sum.splits)
next
  assume "\<forall>mt\<in>set (be_queue self). \<forall>m. heap mt = Some m \<longrightarrow> length (m_key m) \<le> 976"
  then have "\<forall>es heap' stats'. collect (be_sample_freq self) (be_queue self) heap stats = Inr (es, heap', stats')
      \<longrightarrow> (\<forall>(k, v)\<in>set es. length k \<le> 995)" using collect_keys [where n = 976] by fastforce
  from plaintext.turn_total [OF assms(1,2) this, of now]
  show "case backend_thread_turn plaintext_ops now self heap stats c of
      Inr r \<Rightarrow> True
    | Inl e \<Rightarrow> e = BadShift \<and> (\<exists>es heap' stats'. collect (be_sample_freq self) (be_queue self) heap stats = Inr (es, heap', stats')
        \<and> (\<exists>(k, v)\<in>set es. \<not> ftoa_range (float_of_double v)))" by (auto split: sum.splits)
qed

definition demo_gauge :: "string \<Rightarrow> brubeck_metric" where
  "demo_gauge k = \<lparr>m_key = k, m_key_len = word_of_nat (length k), m_type = MT_GAUGE, m_expire = 2, as_value = 0, as_previous = 0,
     as_histogram = histo_zero, as_other = False\<rparr>"

definition demo_backend :: brubeck_backend where
  "demo_backend = \<lparr>be_type = BACKEND_CARBON, be_sample_freq = 10, be_shard_n = 0, be_tick_time = 0, be_queue = [(0, 0), (0, 64)]\<rparr>"

lemma demo_gauge_sample: "brubeck_metric_sample fr st (demo_gauge k) = Inr ([(cstr k, 0)], st, demo_gauge k)" "m_expire (demo_gauge k) = 2"
  by (simp_all add: demo_gauge_def brubeck_metric_sample_def gauge_sample_def)

theorem carbon_turn_safe_witness:
  "let heap = [(0, 0) \<mapsto> demo_gauge ''g'', (0, 64) \<mapsto> demo_gauge ''h''];
       stats = \<lparr>stat_freq = 10, st_live = zero_stats, st_sample = zero_stats\<rparr>
   in (\<exists>r. backend_thread_turn pickle_ops 7 demo_backend heap stats demo_carbon = Inr r)
    \<and> (\<exists>r. backend_thread_turn plaintext_ops 7 demo_backend heap stats demo_carbon = Inr r)
    \<and> (\<exists>heap'. collect 10 (be_queue demo_backend) heap stats = Inr ([(''g'', 0), (''h'', 0)], heap', stats))"
proof -
  define H :: metric_heap where "H = [(0, 0) \<mapsto> demo_gauge ''g'', (0, 64) \<mapsto> demo_gauge ''h'']"
  let ?stats = "\<lparr>stat_freq = 10, st_live = zero_stats, st_sample = zero_stats\<rparr>"
  obtain heap' where col: "collect 10 (be_queue demo_backend) H ?stats = Inr ([(''g'', 0), (''h'', 0)], heap', ?stats)"
    by (simp add: H_def demo_backend_def demo_gauge_sample cstr_def)
  have f: "be_sample_freq demo_backend = 10" by (simp add: demo_backend_def)
  have "metric_ok (demo_gauge ''g'')" "metric_ok (demo_gauge ''h'')" by (simp_all add: demo_gauge_def metric_ok_def histo_ok_def histo_zero_def)
  then have ok: "\<forall>mt\<in>set (be_queue demo_backend). \<exists>m. H mt = Some m \<and> metric_ok m" by (simp add: H_def demo_backend_def)
  have len: "\<forall>mt\<in>set (be_queue demo_backend). \<forall>m. H mt = Some m \<longrightarrow> length (m_key m) \<le> 976"
    by (simp add: H_def demo_backend_def demo_gauge_def)
  note safe = carbon_turn_safe [OF demo_carbon_ok(3) ok, where now = 7 and stats = ?stats]
  have "\<exists>r. backend_thread_turn pickle_ops 7 demo_backend H ?stats demo_carbon = Inr r"
    using safe demo_carbon_ok(5) by blast
  moreover have "\<exists>r. backend_thread_turn plaintext_ops 7 demo_backend H ?stats demo_carbon = Inr r"
    using mp [OF conjunct2 [OF safe] len] by (auto simp: f col zero_prints split: sum.splits)
  ultimately show ?thesis using col unfolding Let_def H_def by blast
qed

end
