(* ===== verification/Statsd_Secure.thy ===== *)
theory Statsd_Secure
  imports Statsd_Worker Bloom
begin

text \<open>
  The authenticated sampler (\<^verbatim>\<open>src/samplers/statsd-secure.c\<close>). A packet is a token of 44 bytes, an HMAC
  of the rest, a timestamp and four bytes of nonce, followed by statsd lines. The HMAC function of
  the cryptography library is the parameter \<open>hmac\<close>, of a key and a message; the clock is an argument
  of each turn.
\<close>

section \<open>Model\<close>

abbreviation SHA_SIZE :: nat where
  "SHA_SIZE \<equiv> 32"

abbreviation SECURE_PACKET_SIZE :: nat where
  "SECURE_PACKET_SIZE \<equiv> 1024"

abbreviation MIN_PACKET_SIZE :: nat where
  "MIN_PACKET_SIZE \<equiv> 44"

record brubeck_statsd_secure =
  sec_sampler :: brubeck_sampler
  hmac_key :: string
  replays :: multibloom
  sec_now :: int
  sec_drift :: int

fun memcmpct_loop :: "string \<Rightarrow> string \<Rightarrow> nat \<Rightarrow> u32 \<Rightarrow> u32 res" where
  "memcmpct_loop a b 0 cmp = Inr cmp"
| "memcmpct_loop (x # a) (y # b) (Suc n) cmp = memcmpct_loop a b n (cmp OR ucast (byte_of x XOR byte_of y))"
| "memcmpct_loop _ _ (Suc n) cmp = Inl OutOfBounds"

definition memcmpct :: "string \<Rightarrow> string \<Rightarrow> nat \<Rightarrow> u32 res" where
  "memcmpct a b len = memcmpct_loop a b len 0"

text \<open>
  \<^verbatim>\<open>hmactos\<close> prints the HMAC for the log. \<^verbatim>\<open>char\<close> is signed, so a byte from 128 on is negative, and so
  is its upper half as an index.
\<close>

definition hex_str :: string where
  "hex_str = ''0123456789abcdef''"

fun hmactos_loop :: "string \<Rightarrow> nat \<Rightarrow> string res" where
  "hmactos_loop buffer 0 = Inr []"
| "hmactos_loop [] (Suc n) = Inl OutOfBounds"
| "hmactos_loop (c # buffer) (Suc n) =
     (let b = sint (byte_of c) in
      rbind (rd hex_str (b div 16)) (\<lambda>h.
      rbind (rd hex_str (b mod 16)) (\<lambda>l.
      rbind (hmactos_loop buffer n) (\<lambda>s. Inr (h # l # s)))))"

definition hmactos :: "string \<Rightarrow> string res" where
  "hmactos buffer = hmactos_loop buffer SHA_SIZE"

text \<open>The remainder \<^verbatim>\<open>%\<close> of C, which takes the sign of the dividend, and the conversion to \<^verbatim>\<open>int\<close>.\<close>

definition c_rem :: "int \<Rightarrow> int \<Rightarrow> int res" where
  "c_rem a b = (if b = 0 then Inl DivByZero else Inr (sgn a * (\<bar>a\<bar> mod \<bar>b\<bar>)))"

definition to_int :: "int \<Rightarrow> int" where
  "to_int x = sint (word_of_int x :: u32)"

definition timestamp_of :: "string \<Rightarrow> u64" where
  "timestamp_of buffer = word_of_nat (of_le (take 8 (drop SHA_SIZE buffer)))"

definition hash_a :: "string \<Rightarrow> u32" where
  "hash_a buffer = word_of_nat (of_le (take 4 buffer))"

definition hash_b :: "string \<Rightarrow> u32" where
  "hash_b buffer = word_of_nat (of_le (take 4 (drop 4 buffer)))"

definition count_stat :: "stat \<Rightarrow> 'h brubeck_server \<Rightarrow> 'h brubeck_server" where
  "count_stat st server = server\<lparr>srv_stats := brubeck_stats_inc st (srv_stats server)\<rparr>"

text \<open>The clock tick at the head of \<^verbatim>\<open>verify_token\<close>: a new second empties the filter it is going to use.\<close>

definition tick_filters :: "int \<Rightarrow> brubeck_statsd_secure \<Rightarrow> brubeck_statsd_secure res" where
  "tick_filters now statsd =
     (if now \<noteq> sec_now statsd then
        rbind (c_rem now (sec_drift statsd)) (\<lambda>f.
        rbind (multibloom_reset (replays statsd) (to_int f)) (\<lambda>bl.
          Inr (statsd\<lparr>sec_now := now, replays := bl\<rparr>)))
      else Inr statsd)"

definition verify_token :: "int \<Rightarrow> string \<Rightarrow> 'h brubeck_server \<Rightarrow> brubeck_statsd_secure \<Rightarrow>
    ('h brubeck_server \<times> brubeck_statsd_secure \<times> bool) res" where
  "verify_token now buffer server statsd =
     (let timestamp = timestamp_of buffer in
      rbind (tick_filters now statsd) (\<lambda>statsd.
        let unow = (word_of_int (sec_now statsd) :: u64); udrift = (word_of_int (sec_drift statsd) :: u64) in
        if unow < timestamp then Inr (count_stat FromFuture server, statsd, False)
        else if unow - timestamp > udrift then Inr (count_stat Delayed server, statsd, False)
        else if udrift = 0 then Inl DivByZero
        else
          rbind (multibloom_check (replays statsd) (to_int (uint (timestamp mod udrift))) (hash_a buffer) (hash_b buffer)) (\<lambda>(bl, seen).
            let statsd = statsd\<lparr>replays := bl\<rparr> in
            if seen then rbind (hmactos buffer) (\<lambda>_. Inr (count_stat Replayed server, statsd, False))
            else Inr (server, statsd, True))))"

text \<open>One turn of the thread on the answer of \<^verbatim>\<open>recvfrom\<close>.\<close>

definition secure_turn :: "(double \<Rightarrow> double \<Rightarrow> double) \<Rightarrow> ('h, slab_ptr) ck_ht \<Rightarrow> (string \<Rightarrow> string \<Rightarrow> string) \<Rightarrow> int \<Rightarrow>
    recv_event \<Rightarrow> string \<times> brubeck_statsd_secure \<times> 'h brubeck_server \<Rightarrow>
    (string \<times> brubeck_statsd_secure \<times> 'h brubeck_server) res" where
  "secure_turn libm_pow ck hmac now ev = (\<lambda>(buffer, statsd, server).
     case ev of
       RecvAgain \<Rightarrow> Inr (buffer, statsd, server)
     | RecvFailed \<Rightarrow> Inr (buffer, statsd, count_stat Errors server)
     | RecvData d \<Rightarrow>
         let (buffer, res) = receive (SECURE_PACKET_SIZE - 1) buffer d;
             statsd = statsd\<lparr>sec_sampler := (sec_sampler statsd)\<lparr>smp_inflow := smp_inflow (sec_sampler statsd) + 1\<rparr>\<rparr>
         in if res < MIN_PACKET_SIZE then Inr (buffer, statsd, count_stat Failed server)
            else
              let hmac_buffer = hmac (hmac_key statsd) (drop SHA_SIZE (take res buffer)) in
              rbind (memcmpct buffer hmac_buffer SHA_SIZE) (\<lambda>cmp.
                if cmp \<noteq> 0 then rbind (hmactos buffer) (\<lambda>_. Inr (buffer, statsd, count_stat Failed server))
                else
                  rbind (verify_token now buffer server statsd) (\<lambda>(server, statsd, ok).
                    if \<not> ok then Inr (buffer, statsd, server)
                    else
                      rbind (packet_loop libm_pow ck buffer MIN_PACKET_SIZE res server) (\<lambda>(buffer, server).
                        Inr (buffer, statsd, server)))))"

text \<open>The construction; the two counts of the settings are taken to be non-negative.\<close>

definition brubeck_statsd_secure_new :: "'j jansson \<Rightarrow> (string \<Rightarrow> addrinfo list option) \<Rightarrow> sock_kernel \<Rightarrow> (double \<Rightarrow> double) \<Rightarrow>
    brubeck_sampler \<Rightarrow> 'j \<Rightarrow> brubeck_statsd_secure res" where
  "brubeck_statsd_secure_new J getaddrinfo k libm_log mem settings =
     rbind (unpack (j_string J) J settings ''address'') (\<lambda>address.
     rbind (unpack (j_int J) J settings ''port'') (\<lambda>port.
     rbind (unpack (j_string J) J settings ''hmac_key'') (\<lambda>key.
     rbind (unpack (j_int J) J settings ''max_drift'') (\<lambda>drift.
     rbind (unpack (j_int J) J settings ''replay_len'') (\<lambda>replay_len.
     rbind (brubeck_sampler_init_inet getaddrinfo (mem\<lparr>smp_type := SAMPLER_STATSD_SECURE\<rparr>) (Some address) port) (\<lambda>sampler.
     rbind (multibloom_new libm_log (nat drift) (nat replay_len) (d_lit 1 1000)) (\<lambda>bl.
     rbind (brubeck_sampler_socket k sampler False) (\<lambda>sock.
       Inr \<lparr>sec_sampler = sampler\<lparr>smp_in_sock := sock\<rparr>, hmac_key = key, replays = bl, sec_now = 0, sec_drift = drift\<rparr>))))))))"

section \<open>Comparing and printing tokens\<close>

lemma byte_of_eq_iff: "byte_of x = byte_of y \<longleftrightarrow> x = y"
  by (metis char_of_byte_of)

lemma ucast_eq_0: "(ucast (w::u8) :: u32) = 0 \<longleftrightarrow> w = 0"
proof
  assume u: "(ucast w :: u32) = 0"
  show "w = 0"
  proof (rule bit_word_eqI)
    fix n assume "n < LENGTH(8)"
    then have "bit w n \<longleftrightarrow> bit (ucast w :: u32) n" by (simp add: bit_simps)
    with u show "bit w n \<longleftrightarrow> bit (0 :: u8) n" by simp
  qed
qed simp

lemma xor_byte_0: "(ucast (byte_of x XOR byte_of y) :: u32) = 0 \<longleftrightarrow> x = y"
proof -
  have "byte_of x XOR byte_of y = 0 \<longleftrightarrow> byte_of x = byte_of y" by (auto simp: bit_eq_iff bit_simps)
  then show ?thesis by (simp add: ucast_eq_0 byte_of_eq_iff)
qed

lemma or_0_iff: "(a OR b :: u32) = 0 \<longleftrightarrow> a = 0 \<and> b = 0"
  by (auto simp: bit_eq_iff bit_simps)

lemma memcmpct_loop_eq:
  "n \<le> length a \<Longrightarrow> n \<le> length b \<Longrightarrow>
   \<exists>c. memcmpct_loop a b n cmp = Inr c \<and> (c = 0 \<longleftrightarrow> cmp = 0 \<and> take n a = take n b)"
proof (induction a b n cmp rule: memcmpct_loop.induct)
  case (2 x a y b n cmp)
  then show ?case by (auto simp: or_0_iff xor_byte_0)
qed auto

lemma memcmpct_eq:
  assumes "n \<le> length a" "n \<le> length b"
  obtains c where "memcmpct a b n = Inr c" "c = 0 \<longleftrightarrow> take n a = take n b"
  using memcmpct_loop_eq [OF assms, of 0] by (auto simp: memcmpct_def)

definition printable :: "string \<Rightarrow> bool" where
  "printable buffer \<longleftrightarrow> (\<forall>c\<in>set (take SHA_SIZE buffer). (of_char c :: nat) < 128)"

lemma sint_byte: "sint (byte_of c) = (if (of_char c :: nat) < 128 then int (of_char c) else int (of_char c) - 256)"
proof -
  define u where "u = int (of_char c)"
  have u: "0 \<le> u" "u < 256" "uint (byte_of c) = u"
    using of_char_less_256 [of c] by (simp_all add: u_def uint_nat unat_byte_of)
  have "sint (byte_of c) = (u + 128) mod 256 - 128"
    by (simp add: sint_uint signed_take_bit_eq_take_bit_shift take_bit_eq_mod u(3))
  also have "\<dots> = (if u < 128 then u else u - 256)"
  proof (cases "u < 128")
    case False
    then show ?thesis using mod_pos_geq [of 256 "u + 128"] u(2) by simp
  qed (use u in simp)
  finally show ?thesis by (simp add: u_def)
qed

lemma hmactos_loop_total:
  assumes "n \<le> length b"
  shows "(\<forall>c\<in>set (take n b). (of_char c :: nat) < 128) \<Longrightarrow> \<exists>s. hmactos_loop b n = Inr s"
    "\<not> (\<forall>c\<in>set (take n b). (of_char c :: nat) < 128) \<Longrightarrow> hmactos_loop b n = Inl OutOfBounds"
  using assms
proof (induction b n rule: hmactos_loop.induct)
  case (3 c b n)
  have c: "(of_char c :: nat) < 256" by (rule of_char_less_256)
  have lo: "\<exists>l. rd hex_str (sint (byte_of c) mod 16) = Inr l" by (simp add: rd_def hex_str_def)
  have hi: "(of_char c :: nat) < 128 \<Longrightarrow> \<exists>h. rd hex_str (sint (byte_of c) div 16) = Inr h"
    "\<not> (of_char c :: nat) < 128 \<Longrightarrow> rd hex_str (sint (byte_of c) div 16) = Inl OutOfBounds"
    using c div_neg_pos_less0 [of "int (of_char c) - 256" 16] by (auto simp: rd_def hex_str_def sint_byte)
  { case 1 then show ?case using 3 lo hi(1) by fastforce }
  { case 2 then show ?case using 3 lo hi by (cases "(of_char c :: nat) < 128") fastforce+ }
qed auto

lemma hmactos_total:
  assumes "SHA_SIZE \<le> length b"
  shows "printable b \<Longrightarrow> \<exists>s. hmactos b = Inr s" "\<not> printable b \<Longrightarrow> hmactos b = Inl OutOfBounds"
  using hmactos_loop_total [OF assms] by (simp_all add: hmactos_def printable_def)

section \<open>Replays\<close>

text \<open>The sampler with \<open>n\<close> filters, one per second of the permitted drift.\<close>

definition sec_ok :: "nat \<Rightarrow> brubeck_statsd_secure \<Rightarrow> bool" where
  "sec_ok n statsd \<longleftrightarrow> bloom_inv n (replays statsd) \<and> sec_drift statsd = int n \<and> 0 < n \<and> n < 2 ^ 31"

definition token :: "string \<Rightarrow> u32 \<times> u32" where
  "token buffer = (hash_a buffer, hash_b buffer)"

lemma to_int_small: "m < 2 ^ 31 \<Longrightarrow> to_int (int m) = int m"
proof -
  assume m: "m < 2 ^ 31"
  then have "uint (word_of_nat m :: u32) = int m" by (simp add: uint_nat unat_of_nat)
  with m show ?thesis by (simp add: to_int_def sint_uint signed_take_bit_int_eq_self)
qed

lemma tick_filters_ok:
  assumes "sec_ok n st" "0 \<le> now"
  shows "\<exists>st'. tick_filters now st = Inr st' \<and> sec_ok n st' \<and> sec_now st' = now
    \<and> (\<forall>f<n. \<forall>x. bloom.seen (replays st) f x \<longrightarrow> now = sec_now st \<or> nat now mod n \<noteq> f \<longrightarrow> bloom.seen (replays st') f x)
    \<and> (now \<noteq> sec_now st \<longrightarrow> abs_filter (replays st') (nat now mod n) = {})
    \<and> entry_bits (replays st') = entry_bits (replays st)"
proof (cases "now = sec_now st")
  case True
  then show ?thesis using assms by (simp add: tick_filters_def)
next
  case False
  have n: "bloom_inv n (replays st)" "sec_drift st = int n" "0 < n" "n < 2 ^ 31" using assms(1) by (auto simp: sec_ok_def)
  let ?f = "nat now mod n"
  have f: "?f < n" "now mod int n = int ?f" using n(3) assms(2) by (simp_all add: zmod_int)
  have "c_rem now (sec_drift st) = Inr (int ?f)"
    using n(2,3) f(2) assms(2) by (simp add: c_rem_def sgn_if)
  moreover have "to_int (int ?f) = int ?f" by (rule to_int_small) (use f(1) n(4) in simp)
  moreover obtain bl where bl: "multibloom_reset (replays st) (int ?f) = Inr bl" "bloom_inv n bl"
    "entry_bits bl = entry_bits (replays st)" "abs_filter bl ?f = {}"
    using multibloom_reset_abs [OF n(1) f(1)] by blast
  moreover have "bloom.seen bl g x" if "g < n" "bloom.seen (replays st) g x" "?f \<noteq> g" for g x
    using bloom.seen_reset [OF n(1) that(1) f(1) that(3,2) bl(1)] .
  ultimately show ?thesis using False n by (simp add: tick_filters_def sec_ok_def)
qed

lemma verify_token_eq:
  assumes "sec_ok n st" "0 \<le> now" "now < 2 ^ 63" "tick_filters now st = Inr st1"
  shows "verify_token now buffer server st =
    (if now < uint (timestamp_of buffer) then Inr (count_stat FromFuture server, st1, False)
     else if int n < now - uint (timestamp_of buffer) then Inr (count_stat Delayed server, st1, False)
     else rbind (multibloom_check (replays st1) (int (nat (uint (timestamp_of buffer)) mod n)) (hash_a buffer) (hash_b buffer)) (\<lambda>(bl, seen).
       if seen then rbind (hmactos buffer) (\<lambda>_. Inr (count_stat Replayed server, st1\<lparr>replays := bl\<rparr>, False))
       else Inr (server, st1\<lparr>replays := bl\<rparr>, True)))"
proof -
  let ?t = "timestamp_of buffer"
  have st1: "sec_ok n st1" "sec_now st1 = now" using tick_filters_ok [OF assms(1,2)] assms(4) by auto
  then have n: "sec_drift st1 = int n" "0 < n" "n < 2 ^ 31" by (auto simp: sec_ok_def)
  have un: "uint (word_of_int now :: u64) = now" "uint (word_of_int (int n) :: u64) = int n"
    using assms(2,3) n by (simp add: uint_word_of_int take_bit_int_eq_self, simp add: uint_nat unat_of_nat)
  have lt: "(word_of_int now :: u64) < ?t \<longleftrightarrow> now < uint ?t" by (simp add: word_less_def un)
  have diff: "(word_of_int (int n) :: u64) < word_of_int now - ?t \<longleftrightarrow> int n < now - uint ?t" if "\<not> now < uint ?t"
    using that un by (simp add: word_less_def uint_sub_if')
  have z: "(word_of_int (int n) :: u64) \<noteq> 0" using un(2) n(2) by (metis of_nat_0_less_iff order_less_irrefl uint_0_iff)
  have m: "to_int (uint (?t mod word_of_int (int n))) = int (nat (uint ?t) mod n)"
  proof -
    have "uint (?t mod word_of_int (int n)) = uint ?t mod int n" by (simp only: uint_mod un(2))
    also have "\<dots> = int (nat (uint ?t) mod n)" by (simp add: zmod_int)
    finally have "uint (?t mod word_of_int (int n)) = int (nat (uint ?t) mod n)" .
    moreover have "nat (uint ?t) mod n < 2 ^ 31" using mod_less_divisor [OF n(2), of "nat (uint ?t)"] n(3) by linarith
    ultimately show ?thesis using to_int_small by metis
  qed
  show ?thesis
    unfolding verify_token_def Let_def assms(4) rbind_simps st1(2) n(1) lt m
    using diff z by simp
qed

lemma verify_token_keeps:
  assumes "sec_ok n st" "0 \<le> now" "now < 2 ^ 63" "verify_token now buffer server st = Inr (server', st', ok)"
  shows "sec_ok n st' \<and> sec_now st' = now
    \<and> (\<forall>f<n. \<forall>x. bloom.seen (replays st) f x \<longrightarrow> now = sec_now st \<or> nat now mod n \<noteq> f \<longrightarrow> bloom.seen (replays st') f x)
    \<and> (ok \<longrightarrow> uint (timestamp_of buffer) \<le> now \<and> now - uint (timestamp_of buffer) \<le> int n
        \<and> bloom.seen (replays st') (nat (uint (timestamp_of buffer)) mod n) (token buffer))"
proof -
  let ?t = "uint (timestamp_of buffer)" and ?f = "nat (uint (timestamp_of buffer)) mod n"
  obtain st1 where t: "tick_filters now st = Inr st1" "sec_ok n st1" "sec_now st1 = now"
    "\<forall>f<n. \<forall>x. bloom.seen (replays st) f x \<longrightarrow> now = sec_now st \<or> nat now mod n \<noteq> f \<longrightarrow> bloom.seen (replays st1) f x"
    using tick_filters_ok [OF assms(1,2)] by blast
  note v = assms(4) [unfolded verify_token_eq [OF assms(1-3) t(1)]]
  show ?thesis
  proof (cases "now < ?t \<or> int n < now - ?t")
    case True
    with v have "st' = st1" "\<not> ok" by (auto split: if_splits)
    with t show ?thesis by simp
  next
    case False
    have n: "bloom_inv n (replays st1)" "?f < n" using t(2) by (auto simp: sec_ok_def)
    obtain bl seen where c: "multibloom_check (replays st1) (int ?f) (hash_a buffer) (hash_b buffer) = Inr (bl, seen)"
      "bloom_inv n bl" using multibloom_check_abs [OF n, of "hash_a buffer" "hash_b buffer"] by blast
    have c': "(\<lambda>(a, b). multibloom_check (replays st1) (int ?f) a b) (token buffer) = Inr (bl, seen)" using c(1) by (simp add: token_def)
    have st': "st' = st1\<lparr>replays := bl\<rparr>" using v False c(1) by (auto simp: rbind_Inr_iff split: if_splits)
    have "bloom.seen bl ?f (token buffer)" using bloom.seen_after_check [OF n] c' by blast
    moreover have "bloom.seen bl f x" if "f < n" "bloom.seen (replays st1) f x" for f x
      using bloom.seen_check [OF n(1) that(1) n(2) that(2)] c' by blast
    ultimately show ?thesis using t False c(2) by (auto simp: st' sec_ok_def)
  qed
qed

text \<open>A run of verifications at given times.\<close>

fun verify_run :: "(int \<times> string) list \<Rightarrow> 'h brubeck_server \<Rightarrow> brubeck_statsd_secure \<Rightarrow>
    ('h brubeck_server \<times> brubeck_statsd_secure) res" where
  "verify_run [] server statsd = Inr (server, statsd)"
| "verify_run ((now, buffer) # rest) server statsd =
     rbind (verify_token now buffer server statsd) (\<lambda>(server, statsd, ok). verify_run rest server statsd)"

lemma mod_window:
  assumes "0 \<le> ts" "ts < now" "now < ts + int n"
  shows "nat now mod n \<noteq> nat ts mod n"
proof
  assume "nat now mod n = nat ts mod n"
  then have "n dvd nat now - nat ts" using mod_eq_dvd_iff_nat [of "nat ts" "nat now" n] assms by simp
  moreover have "0 < nat now - nat ts" "nat now - nat ts < n" using assms by auto
  ultimately show False using nat_dvd_not_less by blast
qed

lemma verify_run_seen:
  assumes "sec_ok n st" "0 \<le> ts" "ts \<le> sec_now st" "bloom.seen (replays st) (nat ts mod n) x"
    "sorted (sec_now st # map fst xs)" "\<forall>(now, b)\<in>set xs. now < ts + int n \<and> now < 2 ^ 63"
    "verify_run xs server st = Inr (server', st')"
  shows "sec_ok n st' \<and> sec_now st' = last (sec_now st # map fst xs) \<and> bloom.seen (replays st') (nat ts mod n) x"
  using assms
proof (induction xs arbitrary: server st)
  case (Cons y xs)
  obtain now b where y: "y = (now, b)" by force
  obtain server1 st1 ok where v: "verify_token now b server st = Inr (server1, st1, ok)" "verify_run xs server1 st1 = Inr (server', st')"
    using Cons.prems(7) by (auto simp: y rbind_Inr_iff)
  have now: "sec_now st \<le> now" "now < ts + int n" "now < 2 ^ 63" "0 \<le> now" "0 < n"
    using Cons.prems by (auto simp: y sec_ok_def)
  note k = verify_token_keeps [OF Cons.prems(1) now(4,3) v(1)]
  have "now = sec_now st \<or> nat now mod n \<noteq> nat ts mod n"
    using mod_window [OF Cons.prems(2), of now n] now Cons.prems(3) by linarith
  moreover have "nat ts mod n < n" using now(5) by simp
  ultimately have "bloom.seen (replays st1) (nat ts mod n) x" using k Cons.prems(4) by blast
  moreover have "sorted (sec_now st1 # map fst xs)" using Cons.prems(5) k by (simp add: y)
  ultimately show ?case using Cons.IH [of st1 server1] k v(2) now Cons.prems(2,3,6) by (simp add: y)
qed simp

text \<open>Verifying fails only in the log message on a replayed token.\<close>

lemma verify_token_fails:
  assumes "sec_ok n st" "0 \<le> now" "now < 2 ^ 63" "SHA_SIZE \<le> length buffer" "verify_token now buffer server st = Inl e"
  shows "e = OutOfBounds \<and> \<not> printable buffer"
proof -
  obtain st1 where t: "tick_filters now st = Inr st1" "sec_ok n st1" using tick_filters_ok [OF assms(1,2)] by blast
  then have n: "bloom_inv n (replays st1)" "nat (uint (timestamp_of buffer)) mod n < n" by (auto simp: sec_ok_def)
  obtain bl seen where
    c: "multibloom_check (replays st1) (int (nat (uint (timestamp_of buffer)) mod n)) (hash_a buffer) (hash_b buffer) = Inr (bl, seen)"
    using multibloom_check_abs [OF n, of "hash_a buffer" "hash_b buffer"] by blast
  show ?thesis
    using assms(5) hmactos_total [OF assms(4)]
    unfolding verify_token_eq [OF assms(1-3) t(1)] c by (cases "printable buffer") (auto split: if_splits)
qed

lemma verify_run_fails:
  assumes "sec_ok n st" "sorted (sec_now st # map fst xs)" "0 \<le> sec_now st" "\<forall>(now, b)\<in>set xs. now < 2 ^ 63 \<and> SHA_SIZE \<le> length b"
    "verify_run xs server st = Inl e"
  shows "e = OutOfBounds \<and> (\<exists>(now, b)\<in>set xs. \<not> printable b)"
  using assms
proof (induction xs arbitrary: server st)
  case (Cons y xs)
  obtain now b where y: "y = (now, b)" by force
  have now: "sec_now st \<le> now" "now < 2 ^ 63" "0 \<le> now" "SHA_SIZE \<le> length b" using Cons.prems by (auto simp: y)
  show ?case
  proof (cases "verify_token now b server st")
    case (Inl x)
    with verify_token_fails [OF Cons.prems(1) now(3,2,4)] Cons.prems(5) show ?thesis by (auto simp: y)
  next
    case (Inr r)
    obtain server1 st1 ok where r: "r = (server1, st1, ok)" by (cases r)
    have k: "sec_ok n st1 \<and> sec_now st1 = now" using verify_token_keeps [OF Cons.prems(1) now(3,2) Inr [unfolded r]] by blast
    moreover have "verify_run xs server1 st1 = Inl e" using Cons.prems(5) Inr by (simp add: y r)
    moreover have "sorted (sec_now st1 # map fst xs)" using Cons.prems(2) k by (simp add: y)
    ultimately show ?thesis using Cons.IH [of st1 server1] Cons.prems(4) now(3) by auto
  qed
qed simp

text \<open>The number of hash functions never changes.\<close>

lemma multibloom_hashes: "multibloom_check bl f a b = Inr (bl', seen) \<Longrightarrow> hashes bl' = hashes bl"
  "multibloom_reset bl f = Inr bl' \<Longrightarrow> hashes bl' = hashes bl"
  by (auto simp: multibloom_check_def multibloom_reset_def rbind_Inr_iff)

lemma verify_token_hashes: "verify_token now buffer server st = Inr (server', st', ok) \<Longrightarrow> hashes (replays st') = hashes (replays st)"
  by (auto simp: verify_token_def tick_filters_def Let_def rbind_Inr_iff multibloom_hashes split: if_splits)

lemma verify_run_hashes: "verify_run xs server st = Inr (server', st') \<Longrightarrow> hashes (replays st') = hashes (replays st)"
proof (induction xs arbitrary: server st)
  case (Cons y xs)
  then obtain server1 st1 ok where "verify_token (fst y) (snd y) server st = Inr (server1, st1, ok)" "verify_run xs server1 st1 = Inr (server', st')"
    by (cases y) (auto simp: rbind_Inr_iff)
  with Cons.IH [of server1 st1] verify_token_hashes show ?case by fastforce
qed simp

lemma replay_reported:
  assumes "sec_ok n st" "0 \<le> now" "now < 2 ^ 63" "sec_now st \<le> now" "uint (timestamp_of b) \<le> sec_now st"
    "now < uint (timestamp_of b) + int n" "bloom.seen (replays st) (nat (uint (timestamp_of b)) mod n) (token b)" "SHA_SIZE \<le> length b"
  shows "if printable b then \<exists>st'. verify_token now b server st = Inr (count_stat Replayed server, st', False)
    else verify_token now b server st = Inl OutOfBounds"
proof -
  let ?t = "uint (timestamp_of b)" and ?f = "nat (uint (timestamp_of b)) mod n"
  have n: "0 < n" using assms(1) by (simp add: sec_ok_def)
  obtain st1 where t: "tick_filters now st = Inr st1" "sec_ok n st1"
    "\<forall>f<n. \<forall>x. bloom.seen (replays st) f x \<longrightarrow> now = sec_now st \<or> nat now mod n \<noteq> f \<longrightarrow> bloom.seen (replays st1) f x"
    using tick_filters_ok [OF assms(1,2)] by blast
  have "now = sec_now st \<or> nat now mod n \<noteq> ?f"
    using mod_window [of ?t now n] assms(4-6) by force
  moreover have f: "?f < n" using n by simp
  ultimately have s: "bloom.seen (replays st1) ?f (token b)" using t(3) assms(7) by blast
  have bi: "bloom_inv n (replays st1)" using t(2) by (simp add: sec_ok_def)
  obtain bl where "multibloom_check (replays st1) (int ?f) (hash_a b) (hash_b b) = Inr (bl, True)"
    using multibloom_check_abs [OF bi f, of "hash_a b" "hash_b b"] s by (auto simp: bloom.seen_def token_def)
  then have "verify_token now b server st = rbind (hmactos b) (\<lambda>_. Inr (count_stat Replayed server, st1\<lparr>replays := bl\<rparr>, False))"
    unfolding verify_token_eq [OF assms(1-3) t(1)] using assms(4-6) by simp
  with hmactos_total [OF assms(8)] show ?thesis by auto
qed

lemma replay_hole:
  assumes "sec_ok n st" "0 \<le> now" "now < 2 ^ 63" "now = uint (timestamp_of b) + int n" "sec_now st \<noteq> now" "hashes (replays st) \<noteq> 0"
  shows "\<exists>st'. verify_token now b server st = Inr (server, st', True)"
proof -
  let ?f = "nat (uint (timestamp_of b)) mod n"
  have n: "0 < n" using assms(1) by (simp add: sec_ok_def)
  obtain st1 where t: "tick_filters now st = Inr st1" "sec_ok n st1" "abs_filter (replays st1) (nat now mod n) = {}"
    "entry_bits (replays st1) = entry_bits (replays st)"
    using tick_filters_ok [OF assms(1,2)] assms(5) by metis
  have f: "nat now mod n = ?f" using assms(2,4) by (simp add: nat_add_distrib)
  have bi: "bloom_inv n (replays st1)" "?f < n" using t(2) n by (simp_all add: sec_ok_def)
  have "entry_bits (replays st1) (hash_a b) (hash_b b) \<noteq> {}"
    unfolding t(4) using assms(6) by (simp add: entry_bits_def lessThan_empty_iff unat_eq_zero)
  then have "\<not> entry_bits (replays st1) (hash_a b) (hash_b b) \<subseteq> abs_filter (replays st1) ?f" using t(3) f by simp
  then obtain bl where "multibloom_check (replays st1) (int ?f) (hash_a b) (hash_b b) = Inr (bl, False)"
    using multibloom_check_abs [OF bi, of "hash_a b" "hash_b b"] by auto
  then show ?thesis unfolding verify_token_eq [OF assms(1-3) t(1)] using assms(4) by simp
qed

section \<open>A turn on a packet\<close>

text \<open>What a turn does with the packet \<open>p\<close>, without its buffer.\<close>

definition secure_spec :: "(double \<Rightarrow> double \<Rightarrow> double) \<Rightarrow> ('h, slab_ptr) ck_ht \<Rightarrow> (string \<Rightarrow> string \<Rightarrow> string) \<Rightarrow> int \<Rightarrow> string \<Rightarrow>
    brubeck_statsd_secure \<Rightarrow> 'h brubeck_server \<Rightarrow> (brubeck_statsd_secure \<times> 'h brubeck_server) res" where
  "secure_spec libm_pow ck hmac now p statsd server =
     (if length p < MIN_PACKET_SIZE then Inr (statsd, count_stat Failed server)
      else if take SHA_SIZE p \<noteq> hmac (hmac_key statsd) (drop SHA_SIZE p) then
        (if printable p then Inr (statsd, count_stat Failed server) else Inl OutOfBounds)
      else
        rbind (verify_token now p server statsd) (\<lambda>(server, statsd, ok).
          if ok then rbind (handle_lines libm_pow ck (split_lines (drop MIN_PACKET_SIZE p)) server) (\<lambda>server. Inr (statsd, server))
          else Inr (statsd, server)))"

lemma hmactos_prefix: "n \<le> length p \<Longrightarrow> hmactos_loop (p @ r) n = hmactos_loop p n"
  by (induction p n rule: hmactos_loop.induct) (auto simp: Let_def rbind_def split: sum.splits)

lemma verify_token_prefix:
  assumes "MIN_PACKET_SIZE \<le> length p"
  shows "verify_token now (p @ r) server st = verify_token now p server st"
proof -
  have "timestamp_of (p @ r) = timestamp_of p" "hash_a (p @ r) = hash_a p" "hash_b (p @ r) = hash_b p"
    "hmactos (p @ r) = hmactos p"
    using assms by (simp_all add: timestamp_of_def hash_a_def hash_b_def hmactos_def hmactos_prefix)
  then show ?thesis by (simp only: verify_token_def)
qed

lemma printable_prefix: "SHA_SIZE \<le> length p \<Longrightarrow> printable (p @ r) = printable p"
  by (simp add: printable_def)

definition inflow_inc :: "brubeck_statsd_secure \<Rightarrow> brubeck_statsd_secure" where
  "inflow_inc statsd = statsd\<lparr>sec_sampler := (sec_sampler statsd)\<lparr>smp_inflow := smp_inflow (sec_sampler statsd) + 1\<rparr>\<rparr>"

lemma secure_turn_spec:
  assumes "length buffer = SECURE_PACKET_SIZE" "\<forall>k m. length (hmac k m) = SHA_SIZE" "p = take (SECURE_PACKET_SIZE - 1) d"
    "starts_ok (take MIN_PACKET_SIZE p) (drop MIN_PACKET_SIZE p)"
  shows "rbind (secure_turn pw ck hmac now (RecvData d) (buffer, statsd, server)) (\<lambda>(_, r). Inr r) =
    secure_spec pw ck hmac now p (inflow_inc statsd) server"
proof -
  let ?st = "inflow_inc statsd"
  obtain e post where r: "receive (SECURE_PACKET_SIZE - 1) buffer d = (p @ e # post, length p)"
    by (rule receive_split [of "SECURE_PACKET_SIZE - 1" buffer d]) (use assms(1,3) in auto)
  let ?b = "p @ e # post"
  have turn: "secure_turn pw ck hmac now (RecvData d) (buffer, statsd, server) =
      (if length p < MIN_PACKET_SIZE then Inr (?b, ?st, count_stat Failed server)
       else rbind (memcmpct ?b (hmac (hmac_key statsd) (drop SHA_SIZE p)) SHA_SIZE) (\<lambda>cmp.
         if cmp \<noteq> 0 then rbind (hmactos ?b) (\<lambda>_. Inr (?b, ?st, count_stat Failed server))
         else rbind (verify_token now ?b server ?st) (\<lambda>(server, statsd, ok).
           if \<not> ok then Inr (?b, statsd, server)
           else rbind (packet_loop pw ck ?b MIN_PACKET_SIZE (length p) server) (\<lambda>(buffer, server). Inr (buffer, statsd, server)))))"
    by (simp only: secure_turn_def prod.case recv_event.case Let_def r inflow_inc_def) simp
  show ?thesis
  proof (cases "length p < MIN_PACKET_SIZE")
    case True
    then show ?thesis unfolding turn by (simp add: secure_spec_def)
  next
    case False
    then have len: "MIN_PACKET_SIZE \<le> length p" "SHA_SIZE \<le> length p" by simp_all
    let ?h = "hmac (hmac_key statsd) (drop SHA_SIZE p)"
    obtain c where c: "memcmpct ?b ?h SHA_SIZE = Inr c" "c = 0 \<longleftrightarrow> take SHA_SIZE ?b = take SHA_SIZE ?h"
      by (rule memcmpct_eq [of SHA_SIZE ?b ?h]) (use len assms(2) in auto)
    have c0: "c = 0 \<longleftrightarrow> take SHA_SIZE p = ?h" using c(2) len assms(2) by simp
    have loop: "packet_loop pw ck ?b MIN_PACKET_SIZE (length p) s =
        rbind (handle_lines pw ck (split_lines (drop MIN_PACKET_SIZE p)) s) (\<lambda>s'. Inr (take MIN_PACKET_SIZE p @
          packet_after (drop MIN_PACKET_SIZE p) e @ post, s'))" for s
    proof -
      have "length (drop MIN_PACKET_SIZE p) < 2 ^ 16" using assms(3) by simp
      from packet_loop_lines [OF assms(4) this, of pw ck e post s] len show ?thesis
        by (simp flip: append_assoc)
    qed
    have key: "hmac_key ?st = hmac_key statsd" by (simp add: inflow_inc_def)
    show ?thesis
    proof (cases "c = 0")
      case True
      with c0 c(1) False show ?thesis
        unfolding turn secure_spec_def key verify_token_prefix [OF len(1)] loop
        by (auto simp: rbind_def split: sum.splits)
    next
      case nz: False
      have "if printable p then \<exists>s. hmactos ?b = Inr s else hmactos ?b = Inl OutOfBounds"
        using hmactos_total [of ?b] len(2) printable_prefix [OF len(2), of "e # post"] by auto
      with nz c0 c(1) False show ?thesis
        unfolding turn secure_spec_def key by (cases "printable p") auto
    qed
  qed
qed

section \<open>The verdict on a packet\<close>

text \<open>
  What a packet deserves, in terms of its bytes, the clock and the sets of bits in the filters: the
  filter of the current second is taken to be empty when the second is new.
\<close>

datatype verdict = TooShort | BadHmac | Early | Late | Known | Fresh

definition current_filter :: "nat \<Rightarrow> int \<Rightarrow> brubeck_statsd_secure \<Rightarrow> nat \<Rightarrow> nat set" where
  "current_filter n now st f = (if now \<noteq> sec_now st \<and> f = nat now mod n then {} else abs_filter (replays st) f)"

definition sent_at :: "string \<Rightarrow> nat" where
  "sent_at p = of_le (take 8 (drop 32 p))"

definition token_bits :: "brubeck_statsd_secure \<Rightarrow> string \<Rightarrow> nat set" where
  "token_bits st p = entry_bits (replays st) (word_of_nat (of_le (take 4 p))) (word_of_nat (of_le (take 4 (drop 4 p))))"

definition verdict :: "(string \<Rightarrow> string \<Rightarrow> string) \<Rightarrow> nat \<Rightarrow> int \<Rightarrow> string \<Rightarrow> brubeck_statsd_secure \<Rightarrow> verdict" where
  "verdict hmac n now p st =
     (if length p < 44 then TooShort
      else if take 32 p \<noteq> hmac (hmac_key st) (drop 32 p) then BadHmac
      else if now < int (sent_at p) then Early
      else if int (sent_at p) + int n < now then Late
      else if token_bits st p \<subseteq> current_filter n now st (sent_at p mod n) then Known
      else Fresh)"

text \<open>The sampler after a packet with a good HMAC: the clock, and the bits of a fresh token.\<close>

definition sec_after :: "nat \<Rightarrow> int \<Rightarrow> string \<Rightarrow> bool \<Rightarrow> brubeck_statsd_secure \<Rightarrow> brubeck_statsd_secure \<Rightarrow> bool" where
  "sec_after n now p fresh st st' \<longleftrightarrow> sec_ok n st' \<and> sec_now st' = now \<and> hmac_key st' = hmac_key st
     \<and> sec_sampler st' = sec_sampler st
     \<and> (\<forall>f<n. abs_filter (replays st') f =
          current_filter n now st f \<union> (if fresh \<and> f = sent_at p mod n then token_bits st p else {}))"

lemma of_le_less: "of_le cs < 256 ^ length cs"
proof (induction cs)
  case (Cons c cs)
  have "of_char c < (256::nat)" by (rule of_char_less_256)
  with Cons show ?case by (simp only: of_le.simps length_Cons power_Suc)
qed simp

lemma sent_at_uint:
  assumes "44 \<le> length p"
  shows "uint (timestamp_of p) = int (sent_at p)"
proof -
  have "length (take 8 (drop 32 p)) = 8" using assms by simp
  then have "sent_at p < 256 ^ 8" using of_le_less [of "take 8 (drop 32 p)"] by (simp only: sent_at_def)
  then have "sent_at p < 2 ^ LENGTH(64)" by simp
  then have "unat (word_of_nat (sent_at p) :: u64) = sent_at p" by (simp add: unat_of_nat)
  then show ?thesis by (simp add: timestamp_of_def sent_at_def uint_nat)
qed

lemma tick_filters_abs:
  assumes "sec_ok n st" "0 \<le> now" "tick_filters now st = Inr st1"
  shows "\<forall>f<n. abs_filter (replays st1) f = current_filter n now st f"
    "sec_sampler st1 = sec_sampler st" "hmac_key st1 = hmac_key st"
proof -
  have n: "bloom_inv n (replays st)" "sec_drift st = int n" "0 < n" "n < 2 ^ 31" using assms(1) by (auto simp: sec_ok_def)
  show "sec_sampler st1 = sec_sampler st" "hmac_key st1 = hmac_key st"
    using assms(3) by (auto simp: tick_filters_def rbind_Inr_iff split: if_splits)
  show "\<forall>f<n. abs_filter (replays st1) f = current_filter n now st f"
  proof (cases "now = sec_now st")
    case True
    with assms(3) show ?thesis by (simp add: tick_filters_def current_filter_def)
  next
    case False
    let ?f = "nat now mod n"
    have f: "?f < n" "now mod int n = int ?f" using n(3) assms(2) by (simp_all add: zmod_int)
    have "c_rem now (sec_drift st) = Inr (int ?f)" using n(2,3) f(2) assms(2) by (simp add: c_rem_def sgn_if)
    moreover have "to_int (int ?f) = int ?f" by (rule to_int_small) (use f(1) n(4) in simp)
    ultimately have "multibloom_reset (replays st) (int ?f) = Inr (replays st1)"
      using assms(3) False by (auto simp: tick_filters_def rbind_Inr_iff)
    with multibloom_reset_abs [OF n(1) f(1)] False show ?thesis by (auto simp: current_filter_def)
  qed
qed

lemma verify_token_verdict:
  assumes "sec_ok n st" "0 \<le> now" "now < 2 ^ 63" "44 \<le> length p" "take 32 p = hmac (hmac_key st) (drop 32 p)"
  shows "\<exists>st'. sec_after n now p (verdict hmac n now p st = Fresh) st st'
    \<and> verify_token now p server st =
      (case verdict hmac n now p st of
         Early \<Rightarrow> Inr (count_stat FromFuture server, st', False)
       | Late \<Rightarrow> Inr (count_stat Delayed server, st', False)
       | Known \<Rightarrow> if printable p then Inr (count_stat Replayed server, st', False) else Inl OutOfBounds
       | _ \<Rightarrow> Inr (server, st', True))"
proof -
  obtain st1 where t: "tick_filters now st = Inr st1" "sec_ok n st1" "sec_now st1 = now" "entry_bits (replays st1) = entry_bits (replays st)"
    using tick_filters_ok [OF assms(1,2)] by blast
  note ab = tick_filters_abs [OF assms(1,2) t(1)] and ts = sent_at_uint [OF assms(4)]
  let ?f = "sent_at p mod n"
  have f: "?f < n" "bloom_inv n (replays st1)" using t(2) by (auto simp: sec_ok_def)
  have tb: "token_bits st p = entry_bits (replays st1) (hash_a p) (hash_b p)"
    by (simp add: token_bits_def t(4) hash_a_def hash_b_def)
  obtain bl where bl: "multibloom_check (replays st1) (int ?f) (hash_a p) (hash_b p) =
      Inr (bl, token_bits st p \<subseteq> current_filter n now st ?f)" "bloom_inv n bl"
    "abs_filter bl ?f = current_filter n now st ?f \<union> token_bits st p" "\<forall>g<n. g \<noteq> ?f \<longrightarrow> abs_filter bl g = current_filter n now st g"
    using multibloom_check_abs [OF f(2,1), of "hash_a p" "hash_b p"] ab(1) f(1) by (auto simp: tb)
  have len: "SHA_SIZE \<le> length p" using assms(4) by simp
  have v: "verify_token now p server st =
    (if now < int (sent_at p) then Inr (count_stat FromFuture server, st1, False)
     else if int (sent_at p) + int n < now then Inr (count_stat Delayed server, st1, False)
     else if token_bits st p \<subseteq> current_filter n now st ?f
       then rbind (hmactos p) (\<lambda>_. Inr (count_stat Replayed server, st1\<lparr>replays := bl\<rparr>, False))
     else Inr (server, st1\<lparr>replays := bl\<rparr>, True))"
    unfolding verify_token_eq [OF assms(1-3) t(1)] ts nat_int bl(1) by auto
  have a1: "sec_after n now p False st st1"
    using t ab by (auto simp: sec_after_def)
  have ok: "sec_ok n (st1\<lparr>replays := bl\<rparr>)" using t(2) bl(2) by (simp add: sec_ok_def)
  have fl: "\<forall>g<n. abs_filter bl g = current_filter n now st g \<union> (if g = ?f then token_bits st p else {})" using bl(3,4) by auto
  have a2: "sec_after n now p True st (st1\<lparr>replays := bl\<rparr>)"
    using ok fl t(3) ab(2,3) by (simp add: sec_after_def)
  have a3: "sec_after n now p False st (st1\<lparr>replays := bl\<rparr>)" if "token_bits st p \<subseteq> current_filter n now st ?f"
  proof -
    have "\<forall>g<n. abs_filter bl g = current_filter n now st g" using fl that by auto
    with ok t(3) ab(2,3) show ?thesis by (simp add: sec_after_def)
  qed
  consider "verdict hmac n now p st = Early" "now < int (sent_at p)"
    | "verdict hmac n now p st = Late" "\<not> now < int (sent_at p)" "int (sent_at p) + int n < now"
    | "verdict hmac n now p st = Known" "\<not> now < int (sent_at p)" "\<not> int (sent_at p) + int n < now" "token_bits st p \<subseteq> current_filter n now st ?f"
    | "verdict hmac n now p st = Fresh" "\<not> now < int (sent_at p)" "\<not> int (sent_at p) + int n < now" "\<not> token_bits st p \<subseteq> current_filter n now st ?f"
    using assms(4,5) by (auto simp: verdict_def)
  then show ?thesis
  proof cases
    case 3
    with hmactos_total [OF len] have "verify_token now p server st =
        (if printable p then Inr (count_stat Replayed server, st1\<lparr>replays := bl\<rparr>, False) else Inl OutOfBounds)"
      unfolding v by (cases "printable p") auto
    with 3 a3 show ?thesis by (intro exI [of _ "st1\<lparr>replays := bl\<rparr>"]) simp
  next
    case 4
    with v a2 show ?thesis by (intro exI [of _ "st1\<lparr>replays := bl\<rparr>"]) simp
  qed (use v a1 in \<open>intro exI [of _ st1], simp\<close>)+
qed

section \<open>Properties\<close>

text \<open>
  C6. The gate of the authenticated sampler, with \<open>n\<close> seconds of permitted drift: whatever the buffer
  held before, a turn on a datagram handles the lines behind its token exactly when it has 44 bytes,
  its HMAC is the one of the rest under the secret key, its timestamp is neither in the future nor
  more than \<open>n\<close> seconds old, and not all bits of its token are set in the filter of that timestamp.
  The bits are then set. Any other datagram is only counted as what was wrong with it, and leaves
  the filters as the clock left them. A datagram that is refused for its HMAC or as a replay and has
  a byte from 128 on in its HMAC makes the log message read in front of its table of digits.
\<close>

theorem secure_turn_gate:
  assumes "length buffer = SECURE_PACKET_SIZE" "\<forall>k m. length (hmac k m) = SHA_SIZE" "p = take (SECURE_PACKET_SIZE - 1) d"
    "starts_ok (take MIN_PACKET_SIZE p) (drop MIN_PACKET_SIZE p)" "sec_ok n st" "0 \<le> now" "now < 2 ^ 63"
  shows "let turn = rbind (secure_turn pw ck hmac now (RecvData d) (buffer, st, server)) (\<lambda>(_, r). Inr r);
       after = sec_after n now p (verdict hmac n now p st = Fresh) (inflow_inc st)
     in case verdict hmac n now p st of
         TooShort \<Rightarrow> turn = Inr (inflow_inc st, count_stat Failed server)
       | BadHmac \<Rightarrow> turn = (if printable p then Inr (inflow_inc st, count_stat Failed server) else Inl OutOfBounds)
       | Early \<Rightarrow> \<exists>st'. after st' \<and> turn = Inr (st', count_stat FromFuture server)
       | Late \<Rightarrow> \<exists>st'. after st' \<and> turn = Inr (st', count_stat Delayed server)
       | Known \<Rightarrow> \<exists>st'. after st' \<and> turn = (if printable p then Inr (st', count_stat Replayed server) else Inl OutOfBounds)
       | Fresh \<Rightarrow> \<exists>st'. after st' \<and> turn =
           rbind (handle_lines pw ck (split_lines (drop MIN_PACKET_SIZE p)) server) (\<lambda>server. Inr (st', server))"
proof -
  note turn = secure_turn_spec [OF assms(1-4), of pw ck now st server, unfolded secure_spec_def]
  have v: "verdict hmac n now p (inflow_inc st) = verdict hmac n now p st"
    by (simp add: verdict_def token_bits_def current_filter_def inflow_inc_def)
  have ok: "sec_ok n (inflow_inc st)" using assms(5) by (simp add: sec_ok_def inflow_inc_def)
  have key: "hmac_key (inflow_inc st) = hmac_key st" by (simp add: inflow_inc_def)
  show ?thesis
  proof (cases "44 \<le> length p \<and> take 32 p = hmac (hmac_key st) (drop 32 p)")
    case True
    then have "verdict hmac n now p st \<noteq> TooShort" "verdict hmac n now p st \<noteq> BadHmac" by (auto simp: verdict_def)
    moreover from verify_token_verdict [OF ok assms(6,7), of p hmac server] True
    obtain st' where "sec_after n now p (verdict hmac n now p st = Fresh) (inflow_inc st) st'"
      "verify_token now p server (inflow_inc st) =
        (case verdict hmac n now p st of
           Early \<Rightarrow> Inr (count_stat FromFuture server, st', False)
         | Late \<Rightarrow> Inr (count_stat Delayed server, st', False)
         | Known \<Rightarrow> if printable p then Inr (count_stat Replayed server, st', False) else Inl OutOfBounds
         | _ \<Rightarrow> Inr (server, st', True))" by (auto simp only: v key)
    ultimately show ?thesis
      using True unfolding turn key Let_def by (cases "verdict hmac n now p st") auto
  next
    case False
    then show ?thesis unfolding turn key Let_def by (auto simp: verdict_def)
  qed
qed

definition demo_secure :: brubeck_statsd_secure where
  "demo_secure = \<lparr>sec_sampler = idle_sampler, hmac_key = ''secret'',
     replays = \<lparr>bits = 8, nbytes = 1, hashes = 1, filters = replicate 10 [0]\<rparr>, sec_now = 0, sec_drift = 10\<rparr>"

lemma demo_secure_ok: "sec_ok 10 demo_secure"
  by (simp add: sec_ok_def demo_secure_def bloom_inv_def bloom_ok_def)

definition demo_packet :: string where
  "demo_packet = replicate 32 (CHR ''x'') @ replicate 12 NUL @ ''a:1|c''"

theorem secure_turn_gate_witness:
  "(let turn = (\<lambda>d. rbind (secure_turn dadd list_ck (\<lambda>k m. replicate 32 (CHR ''x'')) 5 (RecvData d)
       (replicate 1024 NUL, demo_secure, one_backend ''b'')) (\<lambda>(_, r). Inr r))
   in turn (replicate 50 (CHR ''y'')) = Inr (inflow_inc demo_secure, count_stat Failed (one_backend ''b''))
    \<and> (\<exists>st'. turn demo_packet =
        rbind (handle_lines dadd list_ck (split_lines ''a:1|c'') (one_backend ''b'')) (\<lambda>server. Inr (st', server))))"
proof -
  let ?h = "\<lambda>(k::string) (m::string). replicate 32 (CHR ''x'')"
  have h: "\<forall>k m. length (?h k m) = SHA_SIZE" by simp
  have "take 32 (replicate 50 (CHR ''y'')) \<noteq> replicate 32 (CHR ''x'')" by (simp add: numeral_eq_Suc)
  then have v1: "verdict ?h 10 5 (replicate 50 (CHR ''y'')) demo_secure = BadHmac" by (simp add: verdict_def)
  have p1: "printable (replicate 50 (CHR ''y''))" by (simp add: printable_def)
  have ts: "sent_at demo_packet = 0" "take 32 demo_packet = replicate 32 (CHR ''x'')" "length demo_packet = 49"
    "drop 44 demo_packet = ''a:1|c''" by (simp_all add: sent_at_def demo_packet_def numeral_eq_Suc)
  have "current_filter 10 5 demo_secure 0 = {}"
    by (simp add: current_filter_def abs_filter_def demo_secure_def bitset_def)
  moreover have "token_bits demo_secure demo_packet \<noteq> {}" by (simp add: token_bits_def entry_bits_def demo_secure_def lessThan_empty_iff)
  ultimately have v2: "verdict ?h 10 5 demo_packet demo_secure = Fresh" using ts by (simp add: verdict_def)
  have t1: "replicate 50 (CHR ''y'') = take (SECURE_PACKET_SIZE - 1) (replicate 50 (CHR ''y''))" by simp
  have t2: "demo_packet = take (SECURE_PACKET_SIZE - 1) demo_packet" using ts(3) by simp
  have l: "length (replicate 1024 NUL) = SECURE_PACKET_SIZE" by simp
  have s1: "starts_ok (take MIN_PACKET_SIZE (replicate 50 (CHR ''y''))) (drop MIN_PACKET_SIZE (replicate 50 (CHR ''y'')))"
    by (simp add: starts_ok_def)
  have s2: "starts_ok (take MIN_PACKET_SIZE demo_packet) (drop MIN_PACKET_SIZE demo_packet)" unfolding ts(4) by (simp add: starts_ok_def)
  show ?thesis
    using secure_turn_gate [OF l h t1 s1 demo_secure_ok, of 5 dadd list_ck "one_backend ''b''"]
      secure_turn_gate [OF l h t2 s2 demo_secure_ok, of 5 dadd list_ck "one_backend ''b''"]
    unfolding v1 v2 Let_def ts(4) by (simp add: p1) blast
qed

text \<open>
  C5. Replay protection: once a token has been accepted, a packet that carries it again is not accepted,
  whatever is verified in between, as long as the clock does not run backwards and less than the
  permitted drift has passed since the token's timestamp: it is counted as a replay when the bytes
  of its HMAC are below 128; otherwise the log message about the replay reads in front of its table of
  digits, the one error that the packets in between can end in as well.
\<close>

theorem replay_rejected:
  assumes "sec_ok n st" "0 \<le> now" "now < 2 ^ 63" "verify_token now b server st = Inr (server1, st1, True)"
    "sorted (now # map fst xs @ [later])"
    "\<forall>t\<in>set (later # map fst xs). t < uint (timestamp_of b) + int n \<and> t < 2 ^ 63"
    "timestamp_of b' = timestamp_of b" "token b' = token b" "\<forall>x\<in>set (b' # map snd xs). SHA_SIZE \<le> length x"
  shows "case verify_run xs server1 st1 of
      Inl e \<Rightarrow> e = OutOfBounds \<and> (\<exists>(t, x)\<in>set xs. \<not> printable x)
    | Inr (server2, st2) \<Rightarrow>
        if printable b' then \<exists>st3. verify_token later b' server2 st2 = Inr (count_stat Replayed server2, st3, False)
        else verify_token later b' server2 st2 = Inl OutOfBounds"
proof (cases "verify_run xs server1 st1")
  case (Inl e)
  note k = verify_token_keeps [OF assms(1-4)]
  have "sorted (sec_now st1 # map fst xs)" using assms(5) k by (simp add: sorted_append)
  moreover have "\<forall>(t, x)\<in>set xs. t < 2 ^ 63 \<and> SHA_SIZE \<le> length x" using assms(6,9) by force
  ultimately show ?thesis using verify_run_fails [of n st1 xs server1 e] k assms(2) Inl by simp
next
  case (Inr r)
  obtain server2 st2 where r: "r = (server2, st2)" by force
  note k = verify_token_keeps [OF assms(1-4)]
  have srt: "sorted (now # map fst xs)" "\<forall>t\<in>set (now # map fst xs). t \<le> later"
    using assms(5) by (auto simp: sorted_append)
  have "sec_ok n st2 \<and> sec_now st2 = last (now # map fst xs)
      \<and> bloom.seen (replays st2) (nat (uint (timestamp_of b)) mod n) (token b)"
    using verify_run_seen [of n st1 "uint (timestamp_of b)" "token b" xs server1 server2 st2] k srt(1) assms(6) Inr r by fastforce
  then have s2: "sec_ok n st2" "sec_now st2 = last (now # map fst xs)"
    "bloom.seen (replays st2) (nat (uint (timestamp_of b)) mod n) (token b)" by blast+
  have "last (now # map fst xs) \<in> set (now # map fst xs)" by (rule last_in_set) simp
  then have "now \<le> sec_now st2" "sec_now st2 \<le> later" unfolding s2(2) using srt by auto
  then show ?thesis
    using replay_reported [OF s2(1), of later b' server2] s2(3) assms(2,6-9) k Inr r by auto
qed

lemma demo_accepts: "\<exists>st1. verify_token 0 (replicate 44 NUL) (one_backend ''b'') demo_secure = Inr (one_backend ''b'', st1, True)"
proof -
  have "timestamp_of (replicate 44 NUL) = 0" "hash_a (replicate 44 NUL) = 0" "hash_b (replicate 44 NUL) = 0"
    by (simp_all add: timestamp_of_def hash_a_def hash_b_def numeral_eq_Suc)
  then show ?thesis
    by (simp add: verify_token_def demo_secure_def tick_filters_def to_int_def multibloom_check_def rd_def wr_def check_loop.simps probe_def)
qed

theorem replay_rejected_witness:
  "\<exists>st1 st2. verify_token 0 (replicate 44 NUL) (one_backend ''b'') demo_secure = Inr (one_backend ''b'', st1, True)
     \<and> verify_token 9 (replicate 44 NUL) (one_backend ''b'') st1 = Inr (count_stat Replayed (one_backend ''b''), st2, False)"
proof -
  obtain st1 where st1: "verify_token 0 (replicate 44 NUL) (one_backend ''b'') demo_secure = Inr (one_backend ''b'', st1, True)"
    using demo_accepts by blast
  have "timestamp_of (replicate 44 NUL) = 0" by (simp add: timestamp_of_def numeral_eq_Suc)
  then show ?thesis
    using replay_rejected [OF demo_secure_ok _ _ st1, of "[]" 9 "replicate 44 NUL"] st1
    by (auto simp: printable_def)
qed

text \<open>
  C40. The protection ends one second too early: the filter of a timestamp is emptied in the second in
  which exactly the permitted drift has passed since it, while tokens of this timestamp are still
  in time. A token that was accepted earlier is accepted a second time in that second, whatever was
  verified in between.
\<close>

theorem replay_accepted_at_drift:
  assumes "sec_ok n st" "hashes (replays st) \<noteq> 0" "0 \<le> now" "verify_token now b server st = Inr (server1, st1, True)"
    "verify_run xs server1 st1 = Inr (server2, st2)" "sorted (now # map fst xs)"
    "\<forall>t\<in>set (now # map fst xs). t < uint (timestamp_of b) + int n" "uint (timestamp_of b) + int n < 2 ^ 63"
  shows "\<exists>st3. verify_token (uint (timestamp_of b) + int n) b server2 st2 = Inr (server2, st3, True)"
proof -
  have now: "now < 2 ^ 63" using assms(7,8) by auto
  note k = verify_token_keeps [OF assms(1,3) now assms(4)]
  have "sec_ok n st2 \<and> sec_now st2 = last (now # map fst xs)
      \<and> bloom.seen (replays st2) (nat (uint (timestamp_of b)) mod n) (token b)"
    using verify_run_seen [of n st1 "uint (timestamp_of b)" "token b" xs server1 server2 st2] k assms(5-8) by fastforce
  moreover have "last (now # map fst xs) \<in> set (now # map fst xs)" by (rule last_in_set) simp
  moreover have "hashes (replays st2) \<noteq> 0" using verify_run_hashes [OF assms(5)] verify_token_hashes [OF assms(4)] assms(2) by simp
  ultimately show ?thesis using replay_hole [of n st2 "uint (timestamp_of b) + int n" b server2] assms(7,8) by fastforce
qed

theorem replay_accepted_at_drift_witness:
  "\<exists>st1 st2 st3. verify_token 0 (replicate 44 NUL) (one_backend ''b'') demo_secure = Inr (one_backend ''b'', st1, True)
     \<and> verify_run [(9, replicate 44 NUL)] (one_backend ''b'') st1 = Inr (count_stat Replayed (one_backend ''b''), st2)
     \<and> verify_token 10 (replicate 44 NUL) (count_stat Replayed (one_backend ''b'')) st2 = Inr (count_stat Replayed (one_backend ''b''), st3, True)"
proof -
  let ?b = "replicate 44 NUL"
  obtain st1 where st1: "verify_token 0 ?b (one_backend ''b'') demo_secure = Inr (one_backend ''b'', st1, True)"
    using demo_accepts by blast
  have t: "timestamp_of ?b = 0" by (simp add: timestamp_of_def numeral_eq_Suc)
  note k = verify_token_keeps [OF demo_secure_ok _ _ st1, unfolded t]
  have "bloom.seen (replays st1) (nat (uint (timestamp_of ?b)) mod 10) (token ?b)" using k by (simp add: t)
  then obtain st2 where st2: "verify_run [(9, ?b)] (one_backend ''b'') st1 = Inr (count_stat Replayed (one_backend ''b''), st2)"
    using replay_reported [of 10 st1 9 ?b "one_backend ''b''"] k by (auto simp: t printable_def)
  have h: "hashes (replays demo_secure) \<noteq> 0" by (simp add: demo_secure_def)
  from replay_accepted_at_drift [OF demo_secure_ok h _ st1 st2] st1 st2 show ?thesis by (auto simp: t)
qed

end
