(* ===== verification/Log.thy ===== *)
theory Log
  imports Prelude
begin

text \<open>
  The log (\<^verbatim>\<open>src/log.c\<close>, \<^verbatim>\<open>src/log.h\<close>): where messages go, and reopening the log file. The state holds
  the static variables of \<^verbatim>\<open>log.c\<close>, the streams the C library has open, and the messages sent so far.
\<close>

section \<open>Model\<close>

datatype log_dest = ToSyslog | ToFile string | ToStderr

text \<open>
  A \<^verbatim>\<open>FILE *\<close> is the number of the \<^verbatim>\<open>fopen\<close> call that made it; \<open>log_streams\<close> are those not yet closed,
  with their paths. The parameter \<open>fopen_ok\<close> says which of the calls succeed.
\<close>

record gh_log =
  gh_log_path :: "string option"
  gh_log_file :: "(nat \<times> string) option"
  gh_syslog_enabled :: bool
  app_instance :: "string option"
  log_streams :: "(nat \<times> string) list"
  log_fopens :: nat
  log_sent :: "(log_dest \<times> string) list"

definition log_zero :: gh_log where
  "log_zero = \<lparr>gh_log_path = None, gh_log_file = None, gh_syslog_enabled = False, app_instance = None,
     log_streams = [], log_fopens = 0, log_sent = []\<rparr>"

definition log_fail :: "string \<Rightarrow> string" where
  "log_fail path = ''Failed to open log file at '' @ [CHR 0x27] @ path @ [CHR 0x27, LF]"

definition gh_log_open :: "(nat \<Rightarrow> bool) \<Rightarrow> string option \<Rightarrow> gh_log \<Rightarrow> gh_log" where
  "gh_log_open fopen_ok path s =
     (case path of
        None \<Rightarrow> s\<lparr>gh_syslog_enabled := False, gh_log_file := None\<rparr>
      | Some p \<Rightarrow>
          if p = ''syslog'' then s\<lparr>gh_syslog_enabled := True\<rparr>
          else
            let n = log_fopens s; s = s\<lparr>log_fopens := Suc n\<rparr> in
            if \<not> fopen_ok n then s\<lparr>log_sent := log_sent s @ [(ToStderr, log_fail p)]\<rparr>
            else
              let s = s\<lparr>log_streams := (n, p) # log_streams s\<rparr>;
                  s = (case gh_log_file s of None \<Rightarrow> s | Some f \<Rightarrow> s\<lparr>log_streams := remove1 f (log_streams s)\<rparr>);
                  s = (if gh_syslog_enabled s then s\<lparr>gh_syslog_enabled := False\<rparr> else s)
              in s\<lparr>gh_log_file := Some (n, p), gh_log_path := Some p\<rparr>)"

definition gh_log_reopen :: "(nat \<Rightarrow> bool) \<Rightarrow> gh_log \<Rightarrow> gh_log" where
  "gh_log_reopen fopen_ok s =
     (case gh_log_path s of None \<Rightarrow> s | Some p \<Rightarrow> gh_log_open fopen_ok (Some p) s)"

definition gh_log_write :: "string \<Rightarrow> gh_log \<Rightarrow> gh_log" where
  "gh_log_write message s =
     s\<lparr>log_sent := log_sent s @ [(if gh_syslog_enabled s then ToSyslog
                                  else case gh_log_file s of Some (_, p) \<Rightarrow> ToFile p | None \<Rightarrow> ToStderr, message)]\<rparr>"

definition gh_log_instance :: "gh_log \<Rightarrow> string option" where
  "gh_log_instance s = app_instance s"

definition gh_log_set_instance :: "string \<Rightarrow> gh_log \<Rightarrow> gh_log" where
  "gh_log_set_instance inst s = s\<lparr>app_instance := Some inst\<rparr>"

text \<open>The macro in front of every message of the daemon; a null string is printed as \<^verbatim>\<open>(null)\<close>.\<close>

definition log_splunk :: "string \<Rightarrow> gh_log \<Rightarrow> gh_log" where
  "log_splunk m s =
     gh_log_write (''instance='' @ (case gh_log_instance s of None \<Rightarrow> ''(null)'' | Some i \<Rightarrow> i) @ '' '' @ m @ [LF]) s"

section \<open>Runs of the log\<close>

text \<open>What happens to the log between its opening and the end of the daemon.\<close>

datatype log_op = Reopen | Write string

fun log_run :: "(nat \<Rightarrow> bool) \<Rightarrow> log_op list \<Rightarrow> gh_log \<Rightarrow> gh_log" where
  "log_run fopen_ok [] s = s"
| "log_run fopen_ok (Reopen # ops) s = log_run fopen_ok ops (gh_log_reopen fopen_ok s)"
| "log_run fopen_ok (Write m # ops) s = log_run fopen_ok ops (gh_log_write m s)"

fun written :: "log_op list \<Rightarrow> string list" where
  "written [] = []"
| "written (Reopen # ops) = written ops"
| "written (Write m # ops) = m # written ops"

definition log_dest_of :: "(nat \<Rightarrow> bool) \<Rightarrow> string option \<Rightarrow> log_dest" where
  "log_dest_of fopen_ok path =
     (case path of None \<Rightarrow> ToStderr
      | Some p \<Rightarrow> if p = ''syslog'' then ToSyslog else if fopen_ok 0 then ToFile p else ToStderr)"

text \<open>The log writes to \<open>d\<close>, and a file is open exactly when it is the file written to.\<close>

definition log_to :: "log_dest \<Rightarrow> gh_log \<Rightarrow> bool" where
  "log_to d s \<longleftrightarrow> (case d of
       ToSyslog \<Rightarrow> gh_syslog_enabled s \<and> gh_log_file s = None \<and> gh_log_path s = None \<and> log_streams s = []
     | ToStderr \<Rightarrow> \<not> gh_syslog_enabled s \<and> gh_log_file s = None \<and> gh_log_path s = None \<and> log_streams s = []
     | ToFile p \<Rightarrow> \<not> gh_syslog_enabled s \<and> p \<noteq> ''syslog'' \<and> gh_log_path s = Some p
         \<and> (\<exists>n. gh_log_file s = Some (n, p) \<and> log_streams s = [(n, p)] \<and> n < log_fopens s))"

lemma log_to_open: "log_to (log_dest_of fop path) (gh_log_open fop path log_zero)"
  by (auto simp: log_to_def log_dest_of_def gh_log_open_def log_zero_def Let_def split: option.splits)

lemma log_to_reopen:
  assumes "log_to d s"
  shows "log_to d (gh_log_reopen fop s) \<and>
    filter (\<lambda>x. fst x = d) (log_sent (gh_log_reopen fop s)) = filter (\<lambda>x. fst x = d) (log_sent s)"
  using assms by (auto simp: log_to_def gh_log_reopen_def gh_log_open_def Let_def split: log_dest.splits)

lemma log_to_write:
  "log_to d s \<Longrightarrow> log_to d (gh_log_write m s) \<and> log_sent (gh_log_write m s) = log_sent s @ [(d, m)]"
  by (auto simp: log_to_def gh_log_write_def split: log_dest.splits)

lemma log_run_to:
  "log_to d s \<Longrightarrow> log_to d (log_run fop ops s) \<and>
   filter (\<lambda>x. fst x = d) (log_sent (log_run fop ops s)) =
     filter (\<lambda>x. fst x = d) (log_sent s) @ map (Pair d) (written ops)"
proof (induction fop ops s rule: log_run.induct)
  case (2 fop ops s)
  with log_to_reopen [of d s fop] show ?case by simp
next
  case (3 fop m ops s)
  with log_to_write [of d s m] show ?case by simp
qed simp

section \<open>Properties\<close>

text \<open>
  C21. After the log has been opened, any run of messages and of reopenings, successful or not, keeps
  its destination and brings every message there, in order; no stream is leaked: the only one
  open is the one written to.
\<close>

theorem log_keeps_destination:
  "let d = log_dest_of fopen_ok path; s0 = gh_log_open fopen_ok path log_zero; s = log_run fopen_ok ops s0 in
   filter (\<lambda>x. fst x = d) (log_sent s) = filter (\<lambda>x. fst x = d) (log_sent s0) @ map (Pair d) (written ops)
   \<and> (case d of ToFile p \<Rightarrow> \<exists>n. gh_log_file s = Some (n, p) \<and> log_streams s = [(n, p)]
      | _ \<Rightarrow> gh_log_file s = None \<and> log_streams s = [])"
  using log_run_to [OF log_to_open, of fopen_ok path fopen_ok ops]
  by (auto simp: Let_def log_to_def split: log_dest.splits)

end
