(* ===== verification/Proctitle.thy ===== *)
theory Proctitle
  imports Utils
begin

text \<open>
  The process title (\<^verbatim>\<open>src/setproctitle.c\<close>): the memory of the command line and the environment, which
  the kernel lays out as one area of strings, is written over. The area is the list \<open>area\<close> of its
  bytes; \<^verbatim>\<open>argv\<close> and \<^verbatim>\<open>environ\<close> hold offsets into it.
\<close>

section \<open>Model\<close>

definition SPT_BUFSIZE :: nat where
  "SPT_BUFSIZE = 2048"

record proc_memory =
  area :: string
  argv :: "nat option list"
  environ :: "nat list option"

record proctitle =
  pt_mem :: proc_memory
  argv0 :: bool
  argv_lth :: int

definition str_len :: "string \<Rightarrow> nat \<Rightarrow> nat res" where
  "str_len mem p = (if NUL \<in> set (drop p mem) then Inr (length (cstr (drop p mem))) else Inl OutOfBounds)"

definition argv_at :: "proc_memory \<Rightarrow> nat \<Rightarrow> nat res" where
  "argv_at pm i = rbind (rd (argv pm) (int i)) (\<lambda>p. case p of None \<Rightarrow> Inl NullPointer | Some a \<Rightarrow> Inr a)"

text \<open>
  \<^verbatim>\<open>initproctitle\<close> copies the environment to new memory, string by string: \<open>malloc_ok\<close> tells whether
  the array can be allocated, \<open>strdup_ok i\<close> whether the \<open>i\<close>-th copy can. The copies are not
  looked at again, so that only their being there is kept. The length of the area is the distance
  from the first argument to the end of the last string.
\<close>

definition initproctitle :: "bool \<Rightarrow> (nat \<Rightarrow> bool) \<Rightarrow> nat \<Rightarrow> nat list \<Rightarrow> proctitle \<Rightarrow> proctitle res" where
  "initproctitle malloc_ok strdup_ok argc envp s =
     (let n = length envp in
      if \<not> malloc_ok then Inr (s\<lparr>pt_mem := (pt_mem s)\<lparr>environ := None\<rparr>\<rparr>)
      else
        let s = s\<lparr>pt_mem := (pt_mem s)\<lparr>environ := Some (takeWhile strdup_ok [0..<n])\<rparr>\<rparr> in
        if \<exists>i\<in>set [0..<n]. \<not> strdup_ok i then Inr s
        else
          let s = s\<lparr>argv0 := True\<rparr>; mem = area (pt_mem s) in
          rbind (argv_at (pt_mem s) 0) (\<lambda>a0.
          rbind (if n > 0 then Inr (last envp) else argv_at (pt_mem s) (argc - 1)) (\<lambda>p.
          rbind (str_len mem p) (\<lambda>len. Inr (s\<lparr>argv_lth := int (p + len) - int a0\<rparr>)))))"

text \<open>\<^verbatim>\<open>memset(argv0[0], '\0', argv_lth)\<close>: a negative length is a huge one.\<close>

definition clear_area :: "string \<Rightarrow> nat \<Rightarrow> int \<Rightarrow> string res" where
  "clear_area mem a n =
     (if 0 \<le> n \<and> int a + n \<le> int (length mem) then Inr (take a mem @ replicate (nat n) NUL @ drop (a + nat n) mem)
      else Inl OutOfBounds)"

definition copy_to :: "string \<Rightarrow> nat \<Rightarrow> string \<Rightarrow> string res" where
  "copy_to mem a s =
     (if a + length s \<le> length mem then Inr (take a mem @ s @ drop (a + length s) mem) else Inl OutOfBounds)"

definition getproctitle :: "proctitle \<Rightarrow> (proctitle \<times> int \<times> nat option) res" where
  "getproctitle s =
     (if \<not> argv0 s then Inr (s, - 1, None)
      else
        rbind (argv_at (pt_mem s) 0) (\<lambda>a0.
        rbind (clear_area (area (pt_mem s)) a0 (argv_lth s)) (\<lambda>mem.
        rbind (wr (argv (pt_mem s)) 1 None) (\<lambda>av.
          Inr (s\<lparr>pt_mem := (pt_mem s)\<lparr>area := mem, argv := av\<rparr>\<rparr>, argv_lth s, Some a0)))))"

definition title_text :: "string \<Rightarrow> string \<Rightarrow> string" where
  "title_text prog t = prog @ '' -- '' @ t"

definition setproctitle :: "string \<Rightarrow> string \<Rightarrow> proctitle \<Rightarrow> proctitle res" where
  "setproctitle prog t s =
     (if \<not> argv0 s then Inr s
      else if length prog + length t + 5 > SPT_BUFSIZE then Inr s
      else
        rbind (copy_to (replicate SPT_BUFSIZE NUL) 0 (title_text prog t @ [NUL])) (\<lambda>buf.
        rbind (if int (length (title_text prog t)) > argv_lth s - 2 then wr buf (argv_lth s - 2) NUL else Inr buf) (\<lambda>buf.
        rbind (argv_at (pt_mem s) 0) (\<lambda>a0.
        rbind (clear_area (area (pt_mem s)) a0 (argv_lth s)) (\<lambda>mem.
        rbind (copy_to mem a0 (cstr buf @ [NUL])) (\<lambda>mem.
        rbind (wr (argv (pt_mem s)) 1 None) (\<lambda>av.
          Inr (s\<lparr>pt_mem := (pt_mem s)\<lparr>area := mem, argv := av\<rparr>\<rparr>))))))))"

section \<open>The memory after a change of the title\<close>

text \<open>
  The layout the kernel promises: the arguments and then the variables of the environment, each with
  its terminator, one after the other.
\<close>

fun offsets :: "nat \<Rightarrow> string list \<Rightarrow> nat list" where
  "offsets a [] = []"
| "offsets a (x # xs) = a # offsets (a + length x + 1) xs"

definition strings :: "string list \<Rightarrow> string" where
  "strings xs = concat (map (\<lambda>x. x @ [NUL]) xs)"

definition start_memory :: "string list \<Rightarrow> string list \<Rightarrow> proctitle" where
  "start_memory args env =
     \<lparr>pt_mem = \<lparr>area = strings (args @ env), argv = map Some (offsets 0 args) @ [None], environ = Some []\<rparr>,
      argv0 = False, argv_lth = 0\<rparr>"

definition env_pointers :: "string list \<Rightarrow> string list \<Rightarrow> nat list" where
  "env_pointers args env = drop (length args) (offsets 0 (args @ env))"

text \<open>The state in which the title can be set: the area starts with the first argument.\<close>

definition title_ready :: "proctitle \<Rightarrow> bool" where
  "title_ready s \<longleftrightarrow> argv0 s \<and> 2 \<le> argv_lth s \<and> argv_lth s \<le> int (length (area (pt_mem s)))
     \<and> (\<exists>rest. argv (pt_mem s) = Some 0 # rest \<and> rest \<noteq> [])"

lemma cstr_short: "NUL \<notin> set t \<Longrightarrow> cstr (t @ NUL # r) = t"
  unfolding cstr_def by (subst takeWhile_append2) auto

lemma offsets_append: "offsets a (xs @ ys) = offsets a xs @ offsets (a + length (strings xs)) ys"
  by (induction xs arbitrary: a) (simp_all add: strings_def add.assoc)

lemma length_offsets [simp]: "length (offsets a xs) = length xs"
  by (induction xs arbitrary: a) simp_all

lemma strings_append: "strings (xs @ ys) = strings xs @ strings ys"
  by (simp add: strings_def)

lemma setproctitle_ready:
  assumes "title_ready s" "NUL \<notin> set (title_text prog t)" "length prog + length t + 5 \<le> SPT_BUFSIZE"
  defines "n \<equiv> nat (argv_lth s)" and "shown \<equiv> take (nat (argv_lth s - 2)) (title_text prog t)"
  shows "\<exists>rest. setproctitle prog t s = Inr (s\<lparr>pt_mem := (pt_mem s)\<lparr>
      area := shown @ replicate (n - length shown) NUL @ drop n (area (pt_mem s)), argv := Some 0 # None # rest\<rparr>\<rparr>)"
proof -
  let ?x = "title_text prog t" and ?m = "area (pt_mem s)"
  have n: "argv0 s" "2 \<le> n" "n \<le> length ?m" and lth: "argv_lth s = int n"
    using assms(1) unfolding title_ready_def n_def by linarith+
  from assms(1) obtain r0 rest where av: "argv (pt_mem s) = Some 0 # r0 # rest"
    by (auto simp: title_ready_def neq_Nil_conv)
  have lx: "length ?x < SPT_BUFSIZE" using assms(3) by (simp add: title_text_def)
  let ?buf = "?x @ [NUL] @ replicate (SPT_BUFSIZE - Suc (length ?x)) NUL"
  have c1: "copy_to (replicate SPT_BUFSIZE NUL) 0 (?x @ [NUL]) = Inr ?buf"
    using lx by (simp add: copy_to_def)
  have "\<exists>b. (if int (length ?x) > argv_lth s - 2 then wr ?buf (argv_lth s - 2) NUL else Inr ?buf) = Inr b \<and> cstr b = shown"
  proof (cases "int (length ?x) > argv_lth s - 2")
    case True
    then have k: "n - 2 < length ?x" "argv_lth s - 2 = int (n - 2)" using lth n(2) by (auto simp: of_nat_diff)
    have l: "length ?buf = SPT_BUFSIZE" using lx by simp
    have w: "wr ?buf (int (n - 2)) NUL = Inr (?buf[n - 2 := NUL])" using k(1) lx by (intro wr_in) (simp only: l)
    have "?buf[n - 2 := NUL] = take (n - 2) ?x @ NUL # drop (Suc (n - 2)) ?buf"
      using k(1) lx by (subst upd_conv_take_nth_drop) (simp_all add: l)
    moreover have "NUL \<notin> set (take (n - 2) ?x)" using assms(2) by (meson in_set_takeD)
    ultimately have "cstr (?buf[n - 2 := NUL]) = take (n - 2) ?x" by (simp add: cstr_short)
    with True w k show ?thesis by (simp add: shown_def)
  next
    case False
    then have "shown = ?x" by (simp add: shown_def)
    with False show ?thesis using assms(2) by (simp add: cstr_short)
  qed
  then obtain b where b: "(if int (length ?x) > argv_lth s - 2 then wr ?buf (argv_lth s - 2) NUL else Inr ?buf) = Inr b"
    "cstr b = shown" by blast
  have "length shown \<le> n - 2" unfolding shown_def lth using n(2) by simp
  then have sh: "length shown + 1 \<le> n" using n(2) by arith
  have cl: "clear_area ?m 0 (argv_lth s) = Inr (replicate n NUL @ drop n ?m)"
    using n lth by (simp add: clear_area_def)
  have cp: "copy_to (replicate n NUL @ drop n ?m) 0 (shown @ [NUL])
      = Inr (shown @ replicate (n - length shown) NUL @ drop n ?m)"
  proof -
    have "drop (length shown + 1) (replicate n NUL @ drop n ?m) = replicate (n - Suc (length shown)) NUL @ drop n ?m"
      using sh by simp
    moreover have "NUL # replicate (n - Suc (length shown)) NUL = replicate (n - length shown) NUL"
      using sh by (simp flip: replicate_Suc add: Suc_diff_Suc)
    ultimately show ?thesis using sh n(3) by (simp add: copy_to_def)
  qed
  have a0: "argv_at (pt_mem s) 0 = Inr 0" and wa: "wr (argv (pt_mem s)) 1 None = Inr (Some 0 # None # rest)"
    by (simp_all add: argv_at_def rd_def wr_def av)
  show ?thesis
    using n(1) assms(3) unfolding setproctitle_def c1 rbind_simps b a0 cl cp wa by auto
qed

lemma last_offset: "xs \<noteq> [] \<Longrightarrow> last (offsets a xs) = a + length (strings (butlast xs))"
proof -
  assume "xs \<noteq> []"
  then have "offsets a xs = offsets a (butlast xs @ [last xs])" by simp
  then show ?thesis unfolding offsets_append by simp
qed

lemma last_string:
  assumes "xs \<noteq> []" "NUL \<notin> set (last xs)"
  shows "str_len (strings xs) (last (offsets 0 xs)) = Inr (length (last xs))"
    "last (offsets 0 xs) + length (last xs) = length (strings xs) - 1"
    "drop (length (strings xs) - 1) (strings xs) = [NUL]"
proof -
  have s: "strings xs = strings (butlast xs) @ last xs @ [NUL]"
    using assms(1) strings_append [of "butlast xs" "[last xs]"] by (simp add: strings_def)
  show "str_len (strings xs) (last (offsets 0 xs)) = Inr (length (last xs))"
    unfolding last_offset [OF assms(1)] s str_len_def by (simp add: cstr_short assms(2))
  show "last (offsets 0 xs) + length (last xs) = length (strings xs) - 1"
    unfolding last_offset [OF assms(1)] s by simp
  show "drop (length (strings xs) - 1) (strings xs) = [NUL]" unfolding s by simp
qed

lemma initproctitle_ready:
  assumes "args \<noteq> []" "\<forall>x\<in>set (args @ env). NUL \<notin> set x" "3 \<le> length (strings (args @ env))"
  shows "\<exists>s. initproctitle True (\<lambda>_. True) (length args) (env_pointers args env) (start_memory args env) = Inr s
    \<and> title_ready s \<and> area (pt_mem s) = strings (args @ env) \<and> argv_lth s = int (length (strings (args @ env)) - 1)"
proof -
  let ?xs = "args @ env" and ?pm = "(pt_mem (start_memory args env))\<lparr>environ := Some [0..<length env]\<rparr>"
  have ne: "?xs \<noteq> []" using assms(1) by simp
  then have "last ?xs \<in> set ?xs" by (rule last_in_set)
  then have nn: "NUL \<notin> set (last ?xs)" using assms(2) by blast
  obtain os where oa: "offsets 0 args = 0 # os" using assms(1) by (cases args) auto
  have a: "argv_at ?pm 0 = Inr 0" by (simp add: argv_at_def start_memory_def oa rd_def)
  have p1: "argv_at ?pm (length args - 1) = Inr (last (offsets 0 ?xs))" if "env = []"
  proof -
    have i: "length args - 1 < length args" using assms(1) by simp
    have "offsets 0 args \<noteq> []" using oa by simp
    then have "argv ?pm ! (length args - 1) = Some (last (offsets 0 args))"
      using i by (simp add: start_memory_def nth_append last_conv_nth)
    with i that show ?thesis unfolding argv_at_def by (subst rd_in) (simp_all add: start_memory_def)
  qed
  have p2: "last (env_pointers args env) = last (offsets 0 ?xs)" if "env \<noteq> []"
    using that by (simp add: env_pointers_def)
  have l: "length (env_pointers args env) = length env" by (simp add: env_pointers_def)
  have tw: "takeWhile (\<lambda>_. True) [0..<length env] = [0..<length env]" by (simp add: takeWhile_eq_all_conv)
  have pm: "area ?pm = strings ?xs" "argv ?pm = Some 0 # map Some os @ [None]" by (simp_all add: start_memory_def oa)
  have "initproctitle True (\<lambda>_. True) (length args) (env_pointers args env) (start_memory args env) =
      Inr ((start_memory args env)\<lparr>pt_mem := ?pm, argv0 := True, argv_lth := int (length (strings ?xs) - 1)\<rparr>)"
  proof -
    have ep: "env_pointers args env = [] \<longleftrightarrow> env = []" using l by (metis length_0_conv)
    have ar: "area (pt_mem (start_memory args env)) = strings ?xs" by (simp add: start_memory_def)
    have sum: "int (last (offsets 0 ?xs)) + int (length (last ?xs)) = int (length (strings ?xs) - 1)"
      using last_string(2) [OF ne nn] by (metis of_nat_add)
    show ?thesis
      using last_string(1) [OF ne nn] sum p1 p2 a ar ep
      by (cases "env = []") (simp_all add: initproctitle_def Let_def l tw)
  qed
  with assms(3) show ?thesis by (simp add: title_ready_def pm)
qed

section \<open>Properties\<close>

text \<open>
  On the memory the kernel hands to a process, of at least three bytes, setting the title stays
  inside the area of the command line and the environment and leaves exactly the title there, cut
  to the room less two bytes, and zeros behind it; \<^verbatim>\<open>argv\<close> ends after the first argument.
\<close>

theorem setproctitle_shown:
  assumes "args \<noteq> []" "\<forall>x\<in>set (args @ env). NUL \<notin> set x" "3 \<le> length (strings (args @ env))"
    and "NUL \<notin> set (title_text prog t)" "length prog + length t + 5 \<le> SPT_BUFSIZE"
  shows "\<exists>s s'. initproctitle True (\<lambda>_. True) (length args) (env_pointers args env) (start_memory args env) = Inr s
    \<and> setproctitle prog t s = Inr s'
    \<and> (let n = length (strings (args @ env)); shown = take (n - 3) (title_text prog t)
       in area (pt_mem s') = shown @ replicate (n - length shown) NUL)
    \<and> (\<exists>rest. argv (pt_mem s') = Some 0 # None # rest)"
proof -
  let ?n = "length (strings (args @ env))" and ?sh = "take (length (strings (args @ env)) - 3) (title_text prog t)"
  obtain s where s: "initproctitle True (\<lambda>_. True) (length args) (env_pointers args env) (start_memory args env) = Inr s"
    "title_ready s" "area (pt_mem s) = strings (args @ env)" "argv_lth s = int (?n - 1)"
    using initproctitle_ready [OF assms(1-3)] by blast
  have ne: "args @ env \<noteq> []" using assms(1) by simp
  then have "last (args @ env) \<in> set (args @ env)" by (rule last_in_set)
  then have d: "drop (?n - 1) (strings (args @ env)) = [NUL]" using last_string(3) [OF ne] assms(2) by blast
  have k: "nat (argv_lth s - 2) = ?n - 3" "nat (argv_lth s) = ?n - 1" using s(4) assms(3) by linarith+
  have "length ?sh \<le> ?n - 3" by simp
  then have "replicate (?n - 1 - length ?sh) NUL @ [NUL] = replicate (?n - length ?sh) NUL"
    using assms(3) by (simp flip: replicate_Suc add: replicate_append_same)
  with setproctitle_ready [OF s(2) assms(4,5), unfolded k s(3) d] s(1) show ?thesis
    unfolding Let_def by fastforce
qed

theorem setproctitle_shown_witness:
  "\<exists>s s'. initproctitle True (\<lambda>_. True) 1 [5] (start_memory [''./br''] [''A=1'']) = Inr s
    \<and> setproctitle ''brubeck'' ''x'' s = Inr s' \<and> cstr (area (pt_mem s')) = ''brubec''"
proof -
  have z: "env_pointers [''./br''] [''A=1''] = [5]" "length (strings [''./br'', ''A=1'']) = 9"
    by (simp_all add: env_pointers_def strings_def)
  show ?thesis
    using setproctitle_shown [of "[''./br'']" "[''A=1'']" "''brubeck''" "''x''"]
    by (auto simp: z title_text_def Let_def cstr_def numeral_eq_Suc SPT_BUFSIZE_def)
qed

end
