(* ===== verification/Daemon.thy ===== *)
theory Daemon
  imports Carbon Statsd_Secure Log Proctitle
begin

text \<open>
  The state of the whole daemon and the tasks of its main loop (first part of \<^verbatim>\<open>src/server.c\<close>): the
  flow counters of the samplers, the process title, the expiry of metrics and the dump file.
\<close>

section \<open>State\<close>

text \<open>The samplers of the daemon; the field \<^verbatim>\<open>type\<close> tells which of the two structures one is.\<close>

datatype sampler = Statsd brubeck_statsd | Secure brubeck_statsd_secure

fun common :: "sampler \<Rightarrow> brubeck_sampler" where
  "common (Statsd s) = st_sampler s"
| "common (Secure s) = sec_sampler s"

fun upd_common :: "(brubeck_sampler \<Rightarrow> brubeck_sampler) \<Rightarrow> sampler \<Rightarrow> sampler" where
  "upd_common f (Statsd s) = Statsd (s\<lparr>st_sampler := f (st_sampler s)\<rparr>)"
| "upd_common f (Secure s) = Secure (s\<lparr>sec_sampler := f (sec_sampler s)\<rparr>)"

lemma common_upd [simp]: "common (upd_common f s) = f (common s)"
  by (cases s) simp_all

text \<open>The threads: one for each backend, those of each statsd sampler, one for each secure sampler.\<close>

datatype thread = BackendThread nat | WorkerThread nat nat | SecureThread nat

text \<open>
  \<^verbatim>\<open>struct brubeck_server\<close> complete: \<open>dm_server\<close> has the fields of the registry, \<open>dm_carbons\<close> the rest
  of each backend, with its callbacks, in the order of \<^verbatim>\<open>backends\<close>. With it go the state of the
  log and of the process title, the threads that were created, those that were asked to end
  (\<^verbatim>\<open>pthread_cancel\<close> only asks: it does not wait for the thread), and the dump files written.
\<close>

record 'h daemon =
  dm_server :: "'h brubeck_server"
  dm_carbons :: "(brubeck_carbon backend_ops \<times> brubeck_carbon) list"
  dm_samplers :: "sampler list"
  dump_path :: "string option"
  config_name :: string
  running :: bool
  fd_signal :: int
  fd_expire :: int
  fd_update :: int
  dm_threads :: "thread list"
  dm_cancelled :: "thread list"
  dm_log :: gh_log
  dm_title :: proctitle
  dm_dumps :: "(string \<times> string) list"

definition splunk :: "string \<Rightarrow> 'h daemon \<Rightarrow> 'h daemon" where
  "splunk m d = d\<lparr>dm_log := log_splunk m (dm_log d)\<rparr>"

lemma splunk_simps [simp]:
  "dm_server (splunk m d) = dm_server d" "dm_carbons (splunk m d) = dm_carbons d"
  "dm_samplers (splunk m d) = dm_samplers d" "dump_path (splunk m d) = dump_path d"
  "config_name (splunk m d) = config_name d" "running (splunk m d) = running d"
  "fd_signal (splunk m d) = fd_signal d" "fd_expire (splunk m d) = fd_expire d"
  "fd_update (splunk m d) = fd_update d" "dm_threads (splunk m d) = dm_threads d"
  "dm_cancelled (splunk m d) = dm_cancelled d"
  "dm_title (splunk m d) = dm_title d" "dm_dumps (splunk m d) = dm_dumps d"
  by (simp_all add: splunk_def)

section \<open>Flows and process title\<close>

definition update_flows :: "'h daemon \<Rightarrow> 'h daemon" where
  "update_flows d =
     d\<lparr>dm_samplers := map (upd_common (\<lambda>s. s\<lparr>smp_current_flow := smp_inflow s, smp_inflow := 0\<rparr>)) (dm_samplers d)\<rparr>"

text \<open>
  \<^verbatim>\<open>PUTS\<close>: \<^verbatim>\<open>snprintf\<close> into what is left of the buffer. It writes at most the size it is given, with the
  terminator, and returns the length of the whole text; the size \<^verbatim>\<open>sizeof(buf) - pos\<close> is unsigned.
\<close>

definition title_size :: nat where
  "title_size = 2048"

definition PUTS :: "string \<Rightarrow> string \<times> int \<Rightarrow> (string \<times> int) res" where
  "PUTS t = (\<lambda>(buf, pos).
     let room = unat (word_of_int (int title_size - pos) :: u64) in
     rbind (if room = 0 then Inr buf else copy_to buf (nat pos) (take (room - 1) t @ [NUL])) (\<lambda>buf.
       Inr (buf, pos + int (length t))))"

definition size_suffix :: "string list" where
  "size_suffix = [''b'', ''kb'', ''mb'', ''gb'', ''tb'', ''pb'', ''eb'']"

text \<open>The loop that scales the number of bytes; \<open>i\<close> is the room left for \<open>j\<close> below 7.\<close>

fun scale_loop :: "nat \<Rightarrow> nat \<Rightarrow> double \<Rightarrow> nat \<times> double" where
  "scale_loop 0 j sent = (j, sent)"
| "scale_loop (Suc i) j sent =
     (if dle (d_of_nat 1024) sent then scale_loop i (Suc j) (ddiv sent (d_of_nat 1024)) else (j, sent))"

text \<open>\<^verbatim>\<open>%.1f\<close>: the value rounded to tenths, to even when it is in the middle.\<close>

definition tenths :: "nat \<Rightarrow> int \<Rightarrow> nat" where
  "tenths m e = rne (10 * m * 2 ^ nat e) (2 ^ nat (- e))"

definition fmt_1f :: "double \<Rightarrow> string" where
  "fmt_1f x =
     (case decode64 x of
        FNan \<Rightarrow> ''nan''
      | FInf s \<Rightarrow> if s then ''-inf'' else ''inf''
      | FFin s m e \<Rightarrow> (if s then ''-'' else []) @ dec (tenths m e div 10) @ ''.'' @ [digit (tenths m e mod 10)])"

definition fmt_d :: "int \<Rightarrow> string" where
  "fmt_d i = (if i < 0 then CHR ''-'' # dec (nat (- i)) else dec (nat i))"

definition ntohs :: "u16 \<Rightarrow> int" where
  "ntohs p = uint (push_bit 8 p OR drop_bit 8 p)"

definition comma :: "nat \<Rightarrow> string" where
  "comma i = (if i > 0 then '','' else [])"

definition UTF8_UPARROW :: string where
  "UTF8_UPARROW = map char_of [226, 134, 145 :: nat]"

definition UTF8_DOWNARROW :: string where
  "UTF8_DOWNARROW = map char_of [226, 134, 147 :: nat]"

definition backend_title :: "nat \<Rightarrow> brubeck_carbon \<Rightarrow> string res" where
  "backend_title i c =
     (let (j, sent) = scale_loop 7 0 (d_of_nat (unat (c_sent c))) in
      rbind (rd size_suffix (int j)) (\<lambda>sx.
        Inr (comma i @ '' #'' @ fmt_d (int i + 1) @ '' '' @ fmt_1f sent @ sx @ (if 0 \<le> out_sock c then [] else '' (dc)''))))"

definition sampler_title :: "nat \<Rightarrow> brubeck_sampler \<Rightarrow> string" where
  "sampler_title i s = comma i @ '' :'' @ fmt_d (ntohs (sin_port (smp_addr s))) @ '' ''
     @ fmt_d (sint (ucast (smp_current_flow s) :: u32)) @ ''/s''"

fun puts_backends :: "nat \<Rightarrow> (brubeck_backend \<times> brubeck_carbon) list \<Rightarrow> string \<times> int \<Rightarrow> (string \<times> int) res" where
  "puts_backends i [] b = Inr b"
| "puts_backends i ((be, c) # cs) b =
     rbind (if be_type be = BACKEND_CARBON then rbind (backend_title i c) (\<lambda>t. PUTS t b) else Inr b) (puts_backends (Suc i) cs)"

fun puts_samplers :: "nat \<Rightarrow> sampler list \<Rightarrow> string \<times> int \<Rightarrow> (string \<times> int) res" where
  "puts_samplers i [] b = Inr b"
| "puts_samplers i (s # ss) b = rbind (PUTS (sampler_title i (common s)) b) (puts_samplers (Suc i) ss)"

definition update_proctitle :: "'h daemon \<Rightarrow> 'h daemon res" where
  "update_proctitle d =
     rbind (PUTS (''['' @ config_name d @ ''] [ '' @ UTF8_UPARROW) (replicate title_size NUL, 0)) (\<lambda>b.
     rbind (puts_backends 0 (zip (srv_backends (dm_server d)) (map snd (dm_carbons d))) b) (\<lambda>b.
     rbind (PUTS ('' ] [ '' @ UTF8_DOWNARROW) b) (\<lambda>b.
     rbind (puts_samplers 0 (dm_samplers d) b) (\<lambda>b.
     rbind (PUTS '' ]'' b) (\<lambda>(buf, pos).
     rbind (setproctitle ''brubeck'' (cstr buf) (dm_title d)) (\<lambda>t. Inr (d\<lparr>dm_title := t\<rparr>)))))))"

section \<open>Expiry and dump\<close>

definition expire_metric :: "slab_ptr \<Rightarrow> metric_heap \<Rightarrow> metric_heap res" where
  "expire_metric mt heap =
     (case heap mt of
        None \<Rightarrow> Inl NullPointer
      | Some m \<Rightarrow> if m_expire m > BRUBECK_EXPIRE_DISABLED then Inr (heap(mt \<mapsto> m\<lparr>m_expire := m_expire m - 1\<rparr>)) else Inr heap)"

definition expire_metrics :: "('h, slab_ptr) ck_ht \<Rightarrow> 'h brubeck_server \<Rightarrow> 'h brubeck_server res" where
  "expire_metrics ck s =
     rbind (brubeck_hashtable_foreach ck (srv_metrics s) (\<lambda>mt r. rbind r (expire_metric mt)) (Inr (srv_heap s))) (\<lambda>heap.
       Inr (s\<lparr>srv_heap := heap\<rparr>))"

fun METRIC_NAMES :: "brubeck_metric_t \<Rightarrow> string" where
  "METRIC_NAMES MT_GAUGE = ''g''"
| "METRIC_NAMES MT_METER = ''c''"
| "METRIC_NAMES MT_COUNTER = ''C''"
| "METRIC_NAMES MT_HISTO = ''h''"
| "METRIC_NAMES MT_TIMER = ''ms''"
| "METRIC_NAMES MT_INTERNAL_STATS = ''internal''"

definition dump_metric :: "metric_heap \<Rightarrow> slab_ptr \<Rightarrow> string \<Rightarrow> string res" where
  "dump_metric heap mt out =
     (case heap mt of
        None \<Rightarrow> Inl NullPointer
      | Some m \<Rightarrow> Inr (out @ cstr (m_key m) @ ''|'' @ METRIC_NAMES (m_type m) @ [LF]))"

text \<open>The dump file; \<open>fopen_ok\<close> tells whether the path can be opened for writing.\<close>

definition dump_all_metrics :: "('h, slab_ptr) ck_ht \<Rightarrow> (string \<Rightarrow> bool) \<Rightarrow> 'h daemon \<Rightarrow> 'h daemon res" where
  "dump_all_metrics ck fopen_ok d =
     (let d = splunk ''event=dump_metrics'' d in
      case dump_path d of
        None \<Rightarrow> Inr (splunk ''event=dump_failed'' d)
      | Some path \<Rightarrow>
          if \<not> fopen_ok path then Inr (splunk ''event=dump_failed'' d)
          else
            rbind (brubeck_hashtable_foreach ck (srv_metrics (dm_server d))
                (\<lambda>mt r. rbind r (dump_metric (srv_heap (dm_server d)) mt)) (Inr [])) (\<lambda>out.
              Inr (d\<lparr>dm_dumps := dm_dumps d @ [(path, out)]\<rparr>)))"

section \<open>The title stays in its buffer\<close>

text \<open>A non-negative number of at most \<open>b\<close>.\<close>

definition upto :: "double \<Rightarrow> real \<Rightarrow> bool" where
  "upto x b \<longleftrightarrow> (\<exists>m e. decode64 x = FFin False m e \<and> fp_ok binary64 (FFin False m e) \<and> real m * 2 powi e \<le> b)"

lemma encode_upto:
  assumes "0 < D" "real N / real D \<le> 2 powi k" "0 \<le> k" "k \<le> 971"
  shows "upto (encode64 (fp_round binary64 False N D)) (2 powi k)"
proof -
  obtain m g where "fp_round binary64 False N D = FFin False m g" "fp_ok binary64 (FFin False m g)" "real m * 2 powi g \<le> real 1 * 2 powi k"
    by (rule fp_round_between [of binary64 D 0 0 N 1 k]) (use assms in \<open>simp_all add: exp_range\<close>)
  then show ?thesis by (auto simp: upto_def decode64_encode64)
qed

lemma upto_of_nat: "n \<le> 2 ^ 64 \<Longrightarrow> upto (d_of_nat n) (2 powi 64)"
proof -
  assume "n \<le> 2 ^ 64"
  then have "real n \<le> real (2 ^ 64)" by (simp only: of_nat_le_iff)
  then show ?thesis unfolding d_of_nat_def by (intro encode_upto) simp_all
qed

lemma upto_1024: obtains m e where "decode64 (d_of_nat 1024) = FFin False m e" "real m * 2 powi e = 1024" "0 < m"
    "fp_ok binary64 (FFin False m e)"
proof -
  obtain m e where m: "decode64 (d_of_nat 1024) = FFin False m e" "real m * 2 powi e = real 1024"
    "fp_ok binary64 (FFin False m e)" by (rule decode_d_of_nat [of 1024]) auto
  moreover from m(2) have "0 < m" by (cases m) auto
  ultimately show thesis using that by simp
qed

lemma upto_div:
  assumes "upto x (2 powi k)" "10 \<le> k" "k \<le> 971"
  shows "upto (ddiv x (d_of_nat 1024)) (2 powi (k - 10))"
proof -
  obtain m e where x: "decode64 x = FFin False m e" "real m * 2 powi e \<le> 2 powi k" using assms(1) by (auto simp: upto_def)
  obtain n f where y: "decode64 (d_of_nat 1024) = FFin False n f" "real n * 2 powi f = 1024" "0 < n" by (rule upto_1024)
  obtain N D where d: "fp_div binary64 (FFin False m e) (FFin False n f) = fp_round binary64 False N D" "0 < D"
    "real N / real D = (real m * 2 powi e) / (real n * 2 powi f)" using fp_div_nonneg [OF y(3)] by blast
  have "real N / real D \<le> 2 powi k / 1024" unfolding d(3) y(2) using x(2) by (simp add: divide_right_mono)
  also have "\<dots> = 2 powi (k - 10)" by (simp add: power_int_diff)
  finally show ?thesis unfolding ddiv_def x(1) y(1) d(1) by (rule encode_upto [OF d(2)]) (use assms in simp_all)
qed

lemma dle_1024:
  assumes "decode64 x = FFin False m e" "fp_ok binary64 (FFin False m e)"
  shows "dle (d_of_nat 1024) x \<Longrightarrow> 1024 \<le> real m * 2 powi e" "\<not> dle (d_of_nat 1024) x \<Longrightarrow> real m * 2 powi e \<le> 1024"
proof -
  obtain n f where y: "decode64 (d_of_nat 1024) = FFin False n f" "real n * 2 powi f = 1024" "fp_ok binary64 (FFin False n f)"
    by (rule upto_1024) auto
  have e: "emin binary64 \<le> e" "emin binary64 \<le> f" using assms(2) y(3) by simp_all
  show "1024 \<le> real m * 2 powi e" if "dle (d_of_nat 1024) x"
    using that fp_key_le_real [of binary64 n f m e] e y(2) unfolding dle_def fp_le_def assms(1) y(1) by simp
  show "real m * 2 powi e \<le> 1024" if "\<not> dle (d_of_nat 1024) x"
    using that fp_key_le_real [of binary64 m e n f] e y(2) unfolding dle_def fp_le_def assms(1) y(1) by (simp del: fp_key.simps)
qed

lemma scale_loop_bound:
  "upto x (2 powi (64 - 10 * int j)) \<Longrightarrow> i + j = 7 \<Longrightarrow> j \<le> 6 \<Longrightarrow>
   fst (scale_loop i j x) \<le> 6 \<and> upto (snd (scale_loop i j x)) 1024"
proof (induction i j x rule: scale_loop.induct)
  case (2 i j x)
  obtain m e where x: "decode64 x = FFin False m e" "fp_ok binary64 (FFin False m e)" "real m * 2 powi e \<le> 2 powi (64 - 10 * int j)"
    using 2(2) by (auto simp: upto_def)
  show ?case
  proof (cases "dle (d_of_nat 1024) x")
    case True
    have "j \<noteq> 6"
    proof
      assume "j = 6"
      with x(3) dle_1024(1) [OF x(1,2) True] show False by simp
    qed
    moreover have "upto (ddiv x (d_of_nat 1024)) (2 powi (64 - 10 * int j - 10))"
      using 2(2-4) \<open>j \<noteq> 6\<close> by (intro upto_div) simp_all
    ultimately show ?thesis using True 2 by (simp add: algebra_simps)
  next
    case False
    with dle_1024(2) [OF x(1,2)] x 2(4) show ?thesis by (auto simp: upto_def)
  qed
qed simp

lemma tenths_bound: "real m * 2 powi e \<le> 1024 \<Longrightarrow> tenths m e \<le> 10240"
proof -
  assume a: "real m * 2 powi e \<le> 1024"
  have "real (10 * m * 2 ^ nat e) / real (2 ^ nat (- e)) = 10 * (real m * 2 powi e)" by (simp add: powi_split)
  with a show ?thesis unfolding tenths_def by (intro rne_le_of_nat) simp_all
qed

lemma fmt_1f_length: "upto x 1024 \<Longrightarrow> length (fmt_1f x) \<le> 6"
proof -
  assume "upto x 1024"
  then obtain m e where x: "decode64 x = FFin False m e" "tenths m e \<le> 10240" using tenths_bound by (auto simp: upto_def)
  then have "tenths m e div 10 < 10 ^ 4" by simp
  then have "length (dec (tenths m e div 10)) \<le> 4" by (rule length_dec) simp
  with x show ?thesis by (simp add: fmt_1f_def)
qed

text \<open>The buffer holds the text \<open>x\<close>, terminated, and \<^verbatim>\<open>pos\<close> is at its end.\<close>

definition title_at :: "string \<times> int \<Rightarrow> string \<Rightarrow> bool" where
  "title_at b x \<longleftrightarrow> length (fst b) = title_size \<and> snd b = int (length x) \<and> (\<exists>r. fst b = x @ NUL # r)"

lemma PUTS_text:
  assumes "title_at b x" "length x + length t < title_size"
  shows "\<exists>b'. PUTS t b = Inr b' \<and> title_at b' (x @ t)"
proof -
  obtain r where b: "b = (x @ NUL # r, int (length x))" "Suc (length x + length r) = title_size"
    using assms(1) by (cases b) (auto simp: title_at_def)
  have eq: "int title_size - int (length x) = int (title_size - length x)" using assms(2) by (simp add: of_nat_diff)
  have "title_size - length x < 2 ^ 64" by (simp add: title_size_def)
  then have room: "unat (word_of_int (int title_size - int (length x)) :: u64) = title_size - length x"
    unfolding eq of_int_of_nat_eq by (simp only: unat_of_nat) simp
  have l: "length t \<le> length r" using assms(2) b(2) by linarith
  then have "drop (length x + Suc (length t)) (x @ NUL # r) = drop (length t) r" by simp
  then have "copy_to (x @ NUL # r) (length x) (t @ [NUL]) = Inr ((x @ t) @ NUL # drop (length t) r)"
    using l by (simp add: copy_to_def)
  moreover have "take (title_size - length x - 1) t = t" using assms(2) by simp
  ultimately have "PUTS t b = Inr ((x @ t) @ NUL # drop (length t) r, int (length x) + int (length t))"
    using assms(2) unfolding PUTS_def b(1) prod.case Let_def room by simp
  with l b(2) show ?thesis by (auto simp: title_at_def)
qed

text \<open>The texts of the parts.\<close>

definition backend_text :: "nat \<Rightarrow> brubeck_carbon \<Rightarrow> string" where
  "backend_text i c =
     (let (j, sent) = scale_loop 7 0 (d_of_nat (unat (c_sent c)))
      in comma i @ '' #'' @ dec (i + 1) @ '' '' @ fmt_1f sent @ size_suffix ! j @ (if 0 \<le> out_sock c then [] else '' (dc)''))"

fun backends_text :: "nat \<Rightarrow> brubeck_carbon list \<Rightarrow> string" where
  "backends_text i [] = []"
| "backends_text i (c # cs) = backend_text i c @ backends_text (Suc i) cs"

fun samplers_text :: "nat \<Rightarrow> sampler list \<Rightarrow> string" where
  "samplers_text i [] = []"
| "samplers_text i (s # ss) = sampler_title i (common s) @ samplers_text (Suc i) ss"

definition title_line :: "'h daemon \<Rightarrow> string" where
  "title_line d = ''['' @ config_name d @ ''] [ '' @ UTF8_UPARROW @ backends_text 0 (map snd (dm_carbons d))
     @ '' ] [ '' @ UTF8_DOWNARROW @ samplers_text 0 (dm_samplers d) @ '' ]''"

lemma plain_simps [simp]: "NUL \<notin> set (dec n)" "NUL \<notin> set (fmt_d k)" "NUL \<notin> set (comma i)"
proof -
  show d: "NUL \<notin> set (dec n)" for n using dec_digits [of n] by (auto simp: is_digit_def)
  show "NUL \<notin> set (fmt_d k)" using d by (simp add: fmt_d_def)
  show "NUL \<notin> set (comma i)" by (simp add: comma_def)
qed

lemma digit_not_NUL [simp]: "n < 10 \<Longrightarrow> digit n \<noteq> NUL"
  using digit_is_digit [of n] by (auto simp: is_digit_def)

lemma backend_title_text:
  assumes "i < 9"
  shows "backend_title i c = Inr (backend_text i c) \<and> length (backend_text i c) \<le> 18 \<and> NUL \<notin> set (backend_text i c)"
proof -
  obtain j x where s: "scale_loop 7 0 (d_of_nat (unat (c_sent c))) = (j, x)" by force
  have "unat (c_sent c) \<le> 2 ^ 64" using unsigned_less [of "c_sent c", where ?'a = nat] by simp
  from upto_of_nat [OF this] have "upto (d_of_nat (unat (c_sent c))) (2 powi (64 - 10 * int 0))" by simp
  from scale_loop_bound [OF this, of 7] s have j: "j \<le> 6" "upto x 1024" by simp_all
  then have "j \<in> {0, 1, 2, 3, 4, 5, 6}" by auto
  then have sx: "rd size_suffix (int j) = Inr (size_suffix ! j)" "length (size_suffix ! j) \<le> 2" "NUL \<notin> set (size_suffix ! j)"
    by (auto simp: size_suffix_def rd_def)
  have l: "length (dec (i + 1)) \<le> 1" using assms by (intro length_dec) auto
  obtain m e where "decode64 x = FFin False m e" using j(2) by (auto simp: upto_def)
  then have "NUL \<notin> set (fmt_1f x)" using digit_not_NUL [of "tenths m e mod 10"] by (simp add: fmt_1f_def eq_commute [of NUL])
  moreover have "fmt_d (int i + 1) = dec (i + 1)" by (simp add: fmt_d_def nat_add_distrib)
  ultimately show ?thesis using sx l fmt_1f_length [OF j(2)]
    by (auto simp: backend_title_def backend_text_def s comma_def)
qed

lemma sampler_title_text: "i < 9 \<Longrightarrow> length (sampler_title i s) \<le> 22 \<and> NUL \<notin> set (sampler_title i s)"
proof -
  let ?f = "sint (ucast (smp_current_flow s) :: u32)" and ?p = "push_bit 8 (sin_port (smp_addr s)) OR drop_bit 8 (sin_port (smp_addr s))"
  have "- (2 ^ 31) \<le> ?f" "?f < 2 ^ 31"
    using sint_ge [of "ucast (smp_current_flow s) :: u32"] sint_lt [of "ucast (smp_current_flow s) :: u32"] by simp_all
  then have n: "nat (- ?f) < 10 ^ 10" "nat ?f < 10 ^ 10" by simp_all
  have "length (fmt_d ?f) \<le> 11"
    using length_dec [OF n(1)] length_dec [OF n(2)] unfolding fmt_d_def by (simp split: if_split)
  moreover have "unat ?p < 10 ^ 5" using unsigned_less [of ?p, where ?'a = nat] by simp
  then have "length (fmt_d (ntohs (sin_port (smp_addr s)))) \<le> 5"
    using length_dec [of "unat ?p" 5] by (simp add: fmt_d_def ntohs_def)
  ultimately show ?thesis by (simp add: sampler_title_def comma_def)
qed

lemma puts_backends_text:
  assumes "title_at b x" "length x + 18 * length cs < title_size" "i + length cs \<le> 9" "length bes = length cs"
  shows "\<exists>b'. puts_backends i (zip bes cs) b = Inr b' \<and> title_at b' (x @ backends_text i cs)
    \<and> length (backends_text i cs) \<le> 18 * length cs \<and> NUL \<notin> set (backends_text i cs)"
  using assms
proof (induction cs arbitrary: i b x bes)
  case (Cons c cs)
  then obtain be bes' where bes: "bes = be # bes'" by (cases bes) auto
  have "i < 9" using Cons.prems(3) by simp
  note t = backend_title_text [OF this, of c]
  obtain b1 where b1: "PUTS (backend_text i c) b = Inr b1" "title_at b1 (x @ backend_text i c)"
    using PUTS_text [OF Cons.prems(1), of "backend_text i c"] t Cons.prems(2) by auto
  from Cons.IH [OF b1(2), of "Suc i" bes'] Cons.prems t bes obtain b2 where
    "puts_backends (Suc i) (zip bes' cs) b1 = Inr b2" "title_at b2 ((x @ backend_text i c) @ backends_text (Suc i) cs)"
    "length (backends_text (Suc i) cs) \<le> 18 * length cs" "NUL \<notin> set (backends_text (Suc i) cs)" by auto
  with b1 t show ?case by (cases "be_type be") (simp add: bes)
qed (simp_all)

lemma puts_samplers_text:
  assumes "title_at b x" "length x + 22 * length ss < title_size" "i + length ss \<le> 9"
  shows "\<exists>b'. puts_samplers i ss b = Inr b' \<and> title_at b' (x @ samplers_text i ss)
    \<and> length (samplers_text i ss) \<le> 22 * length ss \<and> NUL \<notin> set (samplers_text i ss)"
  using assms
proof (induction ss arbitrary: i b x)
  case (Cons s ss)
  let ?t = "sampler_title i (common s)"
  have "i < 9" using Cons.prems(3) by simp
  note t = sampler_title_text [OF this, of "common s"]
  obtain b1 where b1: "PUTS ?t b = Inr b1" "title_at b1 (x @ ?t)"
    using PUTS_text [OF Cons.prems(1), of ?t] t Cons.prems(2) by auto
  from Cons.IH [OF b1(2), of "Suc i"] Cons.prems t obtain b2 where
    "puts_samplers (Suc i) ss b1 = Inr b2" "title_at b2 ((x @ ?t) @ samplers_text (Suc i) ss)"
    "length (samplers_text (Suc i) ss) \<le> 22 * length ss" "NUL \<notin> set (samplers_text (Suc i) ss)" by auto
  with b1 t show ?case by simp
qed (simp_all)

lemma arrows [simp]: "length UTF8_UPARROW = 3" "length UTF8_DOWNARROW = 3" "NUL \<notin> set UTF8_UPARROW" "NUL \<notin> set UTF8_DOWNARROW"
  by (simp_all add: UTF8_UPARROW_def UTF8_DOWNARROW_def char_of_def)

lemma update_proctitle_line:
  assumes "length (dm_carbons d) \<le> 8" "length (srv_backends (dm_server d)) = length (dm_carbons d)"
    "length (dm_samplers d) \<le> 8" "length (config_name d) \<le> 255" "NUL \<notin> set (config_name d)"
  shows "update_proctitle d =
      rbind (setproctitle ''brubeck'' (title_line d) (dm_title d)) (\<lambda>t. Inr (d\<lparr>dm_title := t\<rparr>))"
    "length (title_line d) \<le> 600" "NUL \<notin> set (title_line d)"
proof -
  let ?x1 = "''['' @ config_name d @ ''] [ '' @ UTF8_UPARROW" and ?cs = "map snd (dm_carbons d)"
  have n: "title_size = Suc 2047" by (simp add: title_size_def)
  have rep: "replicate title_size NUL = NUL # replicate 2047 NUL" unfolding n by (rule replicate_Suc)
  have ta: "title_at (replicate title_size NUL, 0) []" unfolding title_at_def fst_conv snd_conv append_Nil
    by (intro conjI exI [of _ "replicate 2047 NUL"] rep length_replicate) (simp only: list.size of_nat_0)
  have x1: "length ?x1 \<le> 263" "length ?cs \<le> 8" using assms(1,4) by simp_all
  have c1: "length [] + length ?x1 < title_size" unfolding n list.size(3) using x1 by linarith
  from PUTS_text [OF ta c1] obtain b1 where b1: "PUTS ?x1 (replicate title_size NUL, 0) = Inr b1" "title_at b1 ?x1"
    unfolding append_Nil by blast
  have c2: "length ?x1 + 18 * length ?cs < title_size" "0 + length ?cs \<le> 9" "length (srv_backends (dm_server d)) = length ?cs"
    unfolding n using x1 assms(2) by (linarith, simp_all)
  from puts_backends_text [OF b1(2) c2] obtain b2 where
    b2: "puts_backends 0 (zip (srv_backends (dm_server d)) ?cs) b1 = Inr b2" "title_at b2 (?x1 @ backends_text 0 ?cs)"
    and l2': "length (backends_text 0 ?cs) \<le> 18 * length ?cs" and p2: "NUL \<notin> set (backends_text 0 ?cs)" by blast
  let ?x2 = "?x1 @ backends_text 0 ?cs" and ?y = "'' ] [ '' @ UTF8_DOWNARROW"
  have l2: "length (backends_text 0 ?cs) \<le> 144" "length (?x2 @ ?y) \<le> 415" using l2' x1 by simp_all
  have c3: "length ?x2 + length ?y < title_size" unfolding n using l2 by simp
  from PUTS_text [OF b2(2) c3] obtain b3 where b3: "PUTS ?y b2 = Inr b3" "title_at b3 (?x2 @ ?y)" by blast
  have c4: "length (?x2 @ ?y) + 22 * length (dm_samplers d) < title_size" "0 + length (dm_samplers d) \<le> 9"
    unfolding n using l2 assms(3) by (linarith, simp)
  from puts_samplers_text [OF b3(2) c4] obtain b4 where
    b4: "puts_samplers 0 (dm_samplers d) b3 = Inr b4" "title_at b4 ((?x2 @ ?y) @ samplers_text 0 (dm_samplers d))"
    and l4': "length (samplers_text 0 (dm_samplers d)) \<le> 22 * length (dm_samplers d)"
    and p4: "NUL \<notin> set (samplers_text 0 (dm_samplers d))" by blast
  let ?x4 = "(?x2 @ ?y) @ samplers_text 0 (dm_samplers d)"
  have l4: "length (samplers_text 0 (dm_samplers d)) \<le> 176" using l4' assms(3) by linarith
  have c5: "length ?x4 + length '' ]'' < title_size" unfolding n length_append [of "?x2 @ ?y"] using l2(2) l4 by simp
  from PUTS_text [OF b4(2) c5] obtain b5 where b5: "PUTS '' ]'' b4 = Inr b5" "title_at b5 (?x4 @ '' ]'')" by blast
  have line: "?x4 @ '' ]'' = title_line d" by (simp add: title_line_def)
  show "length (title_line d) \<le> 600" "NUL \<notin> set (title_line d)"
    using l2(1) l4 p2 p4 assms(4,5) by (simp_all add: title_line_def)
  moreover obtain r where "fst b5 = title_line d @ NUL # r" using b5(2) unfolding line title_at_def by blast
  ultimately have "cstr (fst b5) = title_line d" by (simp add: cstr_short)
  then show "update_proctitle d =
      rbind (setproctitle ''brubeck'' (title_line d) (dm_title d)) (\<lambda>t. Inr (d\<lparr>dm_title := t\<rparr>))"
    by (cases b5) (simp only: update_proctitle_def b1(1) b2(1) b3(1) b4(1) b5(1) rbind_simps prod.case, simp)
qed

section \<open>Expiry rounds\<close>

definition expire_once :: "brubeck_metric \<Rightarrow> brubeck_metric" where
  "expire_once m = (if m_expire m > BRUBECK_EXPIRE_DISABLED then m\<lparr>m_expire := m_expire m - 1\<rparr> else m)"

lemma expire_once_simps [simp]:
  "m_key (expire_once m) = m_key m" "m_key_len (expire_once m) = m_key_len m" "m_type (expire_once m) = m_type m"
  by (simp_all add: expire_once_def)

lemma keeps_expire_once: "keeps m (expire_once m)"
proof -
  have "m_expire m - 1 \<le> BRUBECK_EXPIRE_ACTIVE" if "m_expire m \<le> BRUBECK_EXPIRE_ACTIVE" "m_expire m > 0"
    using that by (simp add: word_le_nat_alt word_less_nat_alt unat_sub_if')
  then show ?thesis by (simp add: keeps_def wf_metric_def expire_once_def)
qed

lemma expire_fold:
  "distinct ps \<Longrightarrow> \<forall>p\<in>set ps. heap p \<noteq> None \<Longrightarrow>
   fold (\<lambda>mt r. rbind r (expire_metric mt)) ps (Inr heap) = Inr (\<lambda>p. if p \<in> set ps then map_option expire_once (heap p) else heap p)"
proof (induction ps arbitrary: heap)
  case (Cons p ps)
  then obtain m where m: "heap p = Some m" by auto
  have e: "expire_metric p heap = Inr (heap(p \<mapsto> expire_once m))"
    using m by (auto simp: expire_metric_def expire_once_def)
  let ?h = "heap(p \<mapsto> expire_once m)"
  have "fold (\<lambda>mt r. rbind r (expire_metric mt)) (p # ps) (Inr heap) = fold (\<lambda>mt r. rbind r (expire_metric mt)) ps (Inr ?h)"
    by (simp only: fold_simps rbind_simps e)
  also have "\<dots> = Inr (\<lambda>q. if q \<in> set ps then map_option expire_once (?h q) else ?h q)"
    by (rule Cons.IH) (use Cons.prems in auto)
  also have "(\<lambda>q. if q \<in> set ps then map_option expire_once (?h q) else ?h q) =
      (\<lambda>q. if q \<in> set (p # ps) then map_option expire_once (heap q) else heap q)"
    using m Cons.prems(1) by (auto simp: fun_eq_iff)
  finally show ?case .
qed (simp add: fun_eq_iff)

text \<open>The metrics an iteration over the table meets: each registered one once.\<close>

lemma table_metrics:
  assumes ck: "ck_table ck tinv" and ok: "registry_ok ck tinv s"
  shows "distinct (map snd (ck_entries ck (srv_metrics s)))"
    "\<And>k p. (k, p) \<in> set (ck_entries ck (srv_metrics s)) \<longleftrightarrow> short_key k \<and> find_str ck (srv_metrics s) k = Some p"
proof -
  note D = registry_okD [OF ok]
  show e: "(k, p) \<in> set (ck_entries ck (srv_metrics s)) \<longleftrightarrow> short_key k \<and> find_str ck (srv_metrics s) k = Some p" for k p
    using D(10) [of k p] ck_table.get_Some_iff [OF ck D(1), of k p] short_str(1) [of k ck "srv_metrics s"] by auto
  have "k = j" if "(k, p) \<in> set (ck_entries ck (srv_metrics s))" "(j, p) \<in> set (ck_entries ck (srv_metrics s))" for k j p
    using that D(9) [of k p] D(9) [of j p] unfolding e by auto
  then have "inj_on snd (set (ck_entries ck (srv_metrics s)))" by (auto simp: inj_on_def)
  moreover have "distinct (ck_entries ck (srv_metrics s))"
    using ck_table.entries_distinct [OF ck D(1)] by (simp add: distinct_map)
  ultimately show "distinct (map snd (ck_entries ck (srv_metrics s)))" by (simp add: distinct_map)
qed

lemma expire_metrics_ok:
  assumes ck: "ck_table ck tinv" and ok: "registry_ok ck tinv s"
  obtains heap where "expire_metrics ck s = Inr (s\<lparr>srv_heap := heap\<rparr>)" "registry_ok ck tinv (s\<lparr>srv_heap := heap\<rparr>)"
    "same_keys (srv_heap s) heap" "\<And>p. p \<in> set (queued s) \<Longrightarrow> heap p = map_option expire_once (srv_heap s p)"
proof -
  let ?ps = "map snd (ck_entries ck (srv_metrics s))"
  note D = registry_okD [OF ok] and T = table_metrics [OF ck ok]
  define heap where "heap = (\<lambda>p. if p \<in> set ?ps then map_option expire_once (srv_heap s p) else srv_heap s p)"
  have "\<forall>p\<in>set ?ps. srv_heap s p \<noteq> None"
  proof
    fix p assume "p \<in> set ?ps"
    then obtain k where "(k, p) \<in> set (ck_entries ck (srv_metrics s))" by auto
    with T(2) D(9) show "srv_heap s p \<noteq> None" by blast
  qed
  from expire_fold [OF T(1) this] have e: "expire_metrics ck s = Inr (s\<lparr>srv_heap := heap\<rparr>)"
    by (simp add: expire_metrics_def brubeck_hashtable_foreach_def heap_def)
  have sk: "same_keys (srv_heap s) heap"
    unfolding same_keys_def
  proof
    fix p show "rel_option keeps (srv_heap s p) (heap p)"
      by (cases "srv_heap s p") (simp_all add: heap_def keeps_expire_once)
  qed
  have "heap p = map_option expire_once (srv_heap s p)" if "p \<in> set (queued s)" for p
  proof -
    from D(7) [OF that] obtain k where "(k, p) \<in> set (ck_entries ck (srv_metrics s))" using T(2) by blast
    then have "p \<in> set ?ps" by (force simp: image_iff)
    then show ?thesis by (simp only: heap_def if_True)
  qed
  with e sk heap_ok [OF ok sk] that show thesis by blast
qed

lemma update_proctitle_total:
  assumes "length (dm_carbons d) \<le> 8" "length (srv_backends (dm_server d)) = length (dm_carbons d)"
    "length (dm_samplers d) \<le> 8" "length (config_name d) \<le> 255" "NUL \<notin> set (config_name d)" "title_ready (dm_title d)"
  shows "\<exists>t z. update_proctitle d = Inr (d\<lparr>dm_title := t\<rparr>) \<and> title_ready t
    \<and> length (area (pt_mem t)) = length (area (pt_mem (dm_title d)))
    \<and> area (pt_mem t) = take (nat (argv_lth (dm_title d) - 2)) (title_text ''brubeck'' (title_line d)) @ NUL # z"
proof -
  let ?s = "dm_title d"
  note L = update_proctitle_line [OF assms(1-5)]
  let ?n = "nat (argv_lth ?s)" and ?sh = "take (nat (argv_lth ?s - 2)) (title_text ''brubeck'' (title_line d))"
  have n: "2 \<le> ?n" "?n \<le> length (area (pt_mem ?s))" "argv0 ?s" using assms(6) unfolding title_ready_def by linarith+
  have "NUL \<notin> set (title_text ''brubeck'' (title_line d))" "length ''brubeck'' + length (title_line d) + 5 \<le> SPT_BUFSIZE"
    using L(2,3) by (simp_all add: title_text_def SPT_BUFSIZE_def)
  from setproctitle_ready [OF assms(6) this] obtain rest where
    s: "setproctitle ''brubeck'' (title_line d) ?s = Inr (?s\<lparr>pt_mem := (pt_mem ?s)\<lparr>
      area := ?sh @ replicate (?n - length ?sh) NUL @ drop ?n (area (pt_mem ?s)), argv := Some 0 # None # rest\<rparr>\<rparr>)" by blast
  have "length ?sh \<le> nat (argv_lth ?s - 2)" by simp
  then have l: "length ?sh < ?n" using n(1) by linarith
  then obtain k where k: "?n - length ?sh = Suc k" by (metis Suc_diff_Suc)
  have "length ?sh + (Suc k + (length (area (pt_mem ?s)) - ?n)) = length (area (pt_mem ?s))" using n(2) l k by linarith
  then show ?thesis
    using L(1) s n assms(6) unfolding k
    by (intro exI [of _ "?s\<lparr>pt_mem := (pt_mem ?s)\<lparr>area := ?sh @ replicate (Suc k) NUL @ drop ?n (area (pt_mem ?s)),
        argv := Some 0 # None # rest\<rparr>\<rparr>"] exI [of _ "replicate k NUL @ drop ?n (area (pt_mem ?s))"])
      (simp add: title_ready_def del: length_take)
qed

section \<open>Properties\<close>

text \<open>
  C19. Writing the process title is safe: with at most eight backends and samplers and a configuration
  name of at most 255 bytes, whatever the counters are, every \<^verbatim>\<open>snprintf\<close> stays inside the buffer of
  2048 bytes, the index into the table of size suffixes is at most 6, and the title, cut to the room
  there is, replaces the command line.
\<close>

theorem update_proctitle_safe:
  assumes "length (dm_carbons d) \<le> 8" "length (srv_backends (dm_server d)) = length (dm_carbons d)"
    "length (dm_samplers d) \<le> 8" "length (config_name d) \<le> 255" "NUL \<notin> set (config_name d)" "title_ready (dm_title d)"
  shows "\<exists>t z. update_proctitle d = Inr (d\<lparr>dm_title := t\<rparr>) \<and> title_ready t
    \<and> length (area (pt_mem t)) = length (area (pt_mem (dm_title d)))
    \<and> area (pt_mem t) = take (nat (argv_lth (dm_title d) - 2)) (title_text ''brubeck'' (title_line d)) @ NUL # z"
  by (rule update_proctitle_total [OF assms])

definition demo_daemon :: "(string \<times> slab_ptr) list daemon" where
  "demo_daemon =
     \<lparr>dm_server = (one_backend ''b'')\<lparr>srv_stats := \<lparr>stat_freq = 10, st_live = zero_stats, st_sample = zero_stats\<rparr>\<rparr>,
      dm_carbons = [(plaintext_ops, demo_carbon)],
      dm_samplers = [Statsd \<lparr>st_sampler = idle_sampler, worker_count = 1, mmsg_count = 1\<rparr>],
      dump_path = Some ''dump'', config_name = ''c'', running = True, fd_signal = 3, fd_expire = 5, fd_update = 4,
      dm_threads = [BackendThread 0, WorkerThread 0 0], dm_cancelled = [], dm_log = log_zero,
      dm_title = \<lparr>pt_mem = \<lparr>area = ''brubeck -v'', argv = [Some 0, None], environ = None\<rparr>, argv0 = True, argv_lth = 10\<rparr>,
      dm_dumps = []\<rparr>"

lemma demo_daemon_ok: "registry_ok list_ck list_inv (dm_server demo_daemon)"
  by (auto simp: demo_daemon_def registry_ok_def one_backend_def list_inv_def slab_init_inv queued_def zero_stats_def
      find_str_def brubeck_hashtable_find_def list_ck_def)

theorem update_proctitle_safe_witness:
  "\<exists>t z. update_proctitle demo_daemon = Inr (demo_daemon\<lparr>dm_title := t\<rparr>) \<and> area (pt_mem t) = ''brubeck '' @ NUL # z"
proof -
  have "take 8 (title_text ''brubeck'' x) = ''brubeck ''" for x by (simp add: title_text_def)
  moreover have "nat (argv_lth (dm_title demo_daemon) - 2) = 8" by (simp add: demo_daemon_def)
  ultimately show ?thesis
    using update_proctitle_safe [of demo_daemon] by (auto simp: demo_daemon_def one_backend_def title_ready_def)
qed

end
