(* ===== verification/Http.thy ===== *)
theory Http
  imports Daemon
begin

text \<open>
  The HTTP endpoint (\<^verbatim>\<open>src/http.c\<close>): the answers to the requests libmicrohttpd hands to
  \<^verbatim>\<open>handle_request\<close>. The JSON library builds and prints the bodies and is a parameter; what matters of
  it is that \<^verbatim>\<open>json_pack\<close> refuses strings that are not UTF-8 and numbers that are not finite, and
  that \<^verbatim>\<open>json_dumps\<close> of nothing is a null pointer, of which the code takes the length.
\<close>

section \<open>Model\<close>

datatype json = JString string | JInt int | JReal double | JBool bool | JArray "json list" | JObject "(string \<times> json) list"

record http_env =
  json_utf8 :: "string \<Rightarrow> bool"
  json_text :: "json \<Rightarrow> string"
  git_version :: string
  http_pid :: int
  mhd_start :: "u16 \<Rightarrow> bool"

definition finite_d :: "double \<Rightarrow> bool" where
  "finite_d x = (case decode64 x of FFin _ _ _ \<Rightarrow> True | _ \<Rightarrow> False)"

fun packable :: "http_env \<Rightarrow> json \<Rightarrow> bool" where
  "packable env (JString s) = json_utf8 env s"
| "packable env (JReal x) = finite_d x"
| "packable env _ = True"

definition json_pack :: "http_env \<Rightarrow> (string \<times> json) list \<Rightarrow> json option" where
  "json_pack env kvs = (if list_all (\<lambda>kv. packable env (snd kv)) kvs then Some (JObject kvs) else None)"

definition json_dumps :: "http_env \<Rightarrow> json option \<Rightarrow> string res" where
  "json_dumps env j = (case j of None \<Rightarrow> Inl NullPointer | Some v \<Rightarrow> Inr (json_text env v))"

text \<open>\<^verbatim>\<open>json_array_append_new\<close> ignores a null value.\<close>

definition json_append :: "json list \<Rightarrow> json option \<Rightarrow> json list" where
  "json_append xs j = (case j of None \<Rightarrow> xs | Some v \<Rightarrow> xs @ [v])"

definition json_stat :: "stat \<Rightarrow> 'h daemon \<Rightarrow> json" where
  "json_stat st d = JInt (sint (brubeck_stats_sample st (srv_stats (dm_server d))))"

text \<open>Without \<^verbatim>\<open>BRUBECK_METRICS_FLOW\<close> there are no flow statistics.\<close>

definition flow_stats :: "'h daemon \<Rightarrow> string option" where
  "flow_stats d = None"

definition safe_lookup_metric :: "('h, slab_ptr) ck_ht \<Rightarrow> 'h daemon \<Rightarrow> string \<Rightarrow> slab_ptr option" where
  "safe_lookup_metric ck d key = brubeck_hashtable_find ck (srv_metrics (dm_server d)) key (word_of_nat (length key))"

definition http_expire_metric :: "('h, slab_ptr) ck_ht \<Rightarrow> 'h daemon \<Rightarrow> string \<Rightarrow> (string option \<times> 'h daemon) res" where
  "http_expire_metric ck d url =
     (case safe_lookup_metric ck d (drop (length ''/expire/'') url) of
        None \<Rightarrow> Inr (None, d)
      | Some metric \<Rightarrow>
          (case srv_heap (dm_server d) metric of
             None \<Rightarrow> Inl NullPointer
           | Some m \<Rightarrow> Inr (Some [], d\<lparr>dm_server := put_metric (dm_server d) metric (m\<lparr>m_expire := BRUBECK_EXPIRE_DISABLED\<rparr>)\<rparr>)))"

fun metric_types :: "brubeck_metric_t \<Rightarrow> string" where
  "metric_types MT_GAUGE = ''gauge''"
| "metric_types MT_METER = ''meter''"
| "metric_types MT_COUNTER = ''counter''"
| "metric_types MT_HISTO = ''histogram''"
| "metric_types MT_TIMER = ''timer''"
| "metric_types MT_INTERNAL_STATS = ''internal''"

definition expire_status :: "string list" where
  "expire_status = [''disabled'', ''inactive'', ''active'']"

definition send_metric :: "http_env \<Rightarrow> ('h, slab_ptr) ck_ht \<Rightarrow> 'h daemon \<Rightarrow> string \<Rightarrow> string option res" where
  "send_metric env ck d url =
     (case safe_lookup_metric ck d (drop (length ''/metric/'') url) of
        None \<Rightarrow> Inr None
      | Some metric \<Rightarrow>
          (case srv_heap (dm_server d) metric of
             None \<Rightarrow> Inl NullPointer
           | Some m \<Rightarrow>
               rbind (rd expire_status (uint (m_expire m))) (\<lambda>ex.
               rbind (json_dumps env (json_pack env
                   [(''key'', JString (cstr (m_key m))), (''type'', JString (metric_types (m_type m))),
                    (''shard'', JInt 0), (''expire'', JString ex)])) (\<lambda>jsonr. Inr (Some jsonr)))))"

text \<open>\<^verbatim>\<open>inet_ntop\<close> of the address as it lies in memory.\<close>

definition inet_ntop :: "u32 \<Rightarrow> string" where
  "inet_ntop a = (let b = (\<lambda>i. dec (unat a div 256 ^ i mod 256))
     in b 0 @ ''.'' @ b 1 @ ''.'' @ b 2 @ ''.'' @ b 3)"

fun stats_backends :: "http_env \<Rightarrow> (brubeck_backend \<times> brubeck_carbon) list \<Rightarrow> json list \<Rightarrow> json list" where
  "stats_backends env [] js = js"
| "stats_backends env ((be, c) # cs) js =
     stats_backends env cs
       (if be_type be = BACKEND_CARBON then
          json_append js (json_pack env
            [(''type'', JString ''carbon''), (''sample_freq'', JInt (be_sample_freq be)),
             (''connected'', JBool (0 \<le> out_sock c)), (''address'', JString (inet_ntop (sin_addr (out_sockaddr c)))),
             (''port'', JInt (ntohs (sin_port (out_sockaddr c)))), (''sent'', JInt (sint (c_sent c)))])
        else js)"

fun http_sampler_name :: "sampler \<Rightarrow> string" where
  "http_sampler_name s = (case smp_type (common s) of SAMPLER_STATSD \<Rightarrow> ''statsd'' | SAMPLER_STATSD_SECURE \<Rightarrow> ''statsd_secure'')"

fun stats_samplers :: "http_env \<Rightarrow> sampler list \<Rightarrow> json list \<Rightarrow> json list" where
  "stats_samplers env [] js = js"
| "stats_samplers env (s # ss) js =
     stats_samplers env ss (json_append js (json_pack env
       [(''type'', JString (http_sampler_name s)), (''sample_freq'', JReal (d_of_nat (unat (smp_current_flow (common s))))),
        (''address'', JString (inet_ntop (sin_addr (smp_addr (common s))))),
        (''port'', JInt (ntohs (sin_port (smp_addr (common s)))))]))"

definition send_stats :: "http_env \<Rightarrow> 'h daemon \<Rightarrow> string option res" where
  "send_stats env d =
     (let backends = JArray (stats_backends env (zip (srv_backends (dm_server d)) (map snd (dm_carbons d))) []);
          samplers = JArray (stats_samplers env (dm_samplers d) []);
          secure = json_pack env [(''failed'', json_stat Failed d), (''from_future'', json_stat FromFuture d),
            (''delayed'', json_stat Delayed d), (''replayed'', json_stat Replayed d)];
          stats = (case secure of None \<Rightarrow> None | Some secure \<Rightarrow> json_pack env
            [(''version'', JString (''brubeck '' @ git_version env)), (''metrics'', json_stat Metrics d), (''errors'', json_stat Errors d),
             (''unique_keys'', json_stat UniqueKeys d), (''secure'', secure), (''backends'', backends), (''samplers'', samplers)])
      in rbind (json_dumps env stats) (\<lambda>jsonr. Inr (Some jsonr)))"

definition per_second :: "stat \<Rightarrow> 'h daemon \<Rightarrow> json" where
  "per_second st d = JReal (ddiv (d_of_nat (unat (brubeck_stats_sample st (srv_stats (dm_server d)))))
     (d_of_int (stat_freq (srv_stats (dm_server d)))))"

definition send_ping :: "http_env \<Rightarrow> 'h daemon \<Rightarrow> string option res" where
  "send_ping env d =
     (let status = (if list_all carbon_is_connected (map snd (dm_carbons d)) then ''OK'' else ''ERROR (backend disconnected)'')
      in rbind (json_dumps env (json_pack env
           [(''version'', JString (''brubeck '' @ git_version env)), (''pid'', JInt (http_pid env)), (''status'', JString status),
            (''metrics_per_second'', per_second Metrics d), (''errors_per_second'', per_second Errors d),
            (''unique_keys'', json_stat UniqueKeys d)])) (\<lambda>jsonr. Inr (Some jsonr)))"

record http_response =
  status :: nat
  headers :: "(string \<times> string) list"
  body :: string

definition handle_request :: "http_env \<Rightarrow> ('h, slab_ptr) ck_ht \<Rightarrow> 'h daemon \<Rightarrow> string \<Rightarrow> string \<Rightarrow> (http_response \<times> 'h daemon) res" where
  "handle_request env ck d url meth =
     rbind
       (if meth = ''GET'' then
          if url = ''/_ping'' \<or> url = ''/ping'' then rbind (send_ping env d) (\<lambda>r. Inr (r, d))
          else if url = ''/stats'' then rbind (send_stats env d) (\<lambda>r. Inr (r, d))
          else if url = ''/flow_stats'' then Inr (flow_stats d, d)
          else rbind (starts_with (url @ [NUL]) (''/metric/'' @ [NUL])) (\<lambda>b.
            if b then rbind (send_metric env ck d url) (\<lambda>r. Inr (r, d)) else Inr (None, d))
        else if meth = ''POST'' then
          rbind (starts_with (url @ [NUL]) (''/expire/'' @ [NUL])) (\<lambda>b.
            if b then http_expire_metric ck d url else Inr (None, d))
        else Inr (None, d))
       (\<lambda>(response, d).
          Inr (case response of
                 None \<Rightarrow> \<lparr>status = 404, headers = [(''Connection'', ''close'')], body = ''404 not found''\<rparr>
               | Some r \<Rightarrow> \<lparr>status = 200, headers = [(''Connection'', ''close''), (''Content-Type'', ''application/json'')], body = r\<rparr>,
               d))"

text \<open>
  \<^verbatim>\<open>atoi\<close>: blanks, a sign and digits; a number that does not fit is undefined. The port is an
  unsigned number of 16 bits.
\<close>

definition is_blank :: "char \<Rightarrow> bool" where
  "is_blank c \<longleftrightarrow> c = CHR '' '' \<or> (9::nat) \<le> of_char c \<and> (of_char c :: nat) \<le> 13"

definition atoi :: "string \<Rightarrow> int res" where
  "atoi s =
     (let s = dropWhile is_blank s;
          neg = (s \<noteq> [] \<and> hd s = CHR ''-'');
          s = (if s \<noteq> [] \<and> (hd s = CHR ''-'' \<or> hd s = CHR ''+'') then tl s else s);
          v = int (num 0 (takeWhile is_digit s));
          v = (if neg then - v else v)
      in if - (2 ^ 31) \<le> v \<and> v < 2 ^ 31 then Inr v else Inl BadConversion)"

definition strrchr :: "string \<Rightarrow> char \<Rightarrow> string option" where
  "strrchr s c = (if c \<in> set s then Some (c # rev (takeWhile (\<lambda>x. x \<noteq> c) (rev s))) else None)"

definition brubeck_http_endpoint_init :: "http_env \<Rightarrow> string \<Rightarrow> 'h daemon \<Rightarrow> 'h daemon res" where
  "brubeck_http_endpoint_init env listen d =
     (let port = (case strrchr listen (CHR '':'') of None \<Rightarrow> listen | Some p \<Rightarrow> tl p) in
      rbind (atoi port) (\<lambda>n.
        if mhd_start env (word_of_int n) then Inr (splunk (''event=http_server listen='' @ port) d)
        else Inl (Die ''failed to start HTTP endpoint'')))"

section \<open>Answers\<close>

definition ascii :: "string \<Rightarrow> bool" where
  "ascii s \<longleftrightarrow> (\<forall>c\<in>set s. (of_char c :: nat) < 128)"

text \<open>
  When every body can be built: ASCII is UTF-8, the keys of the metrics are, and the sampling period
  has been set.
\<close>

definition web_ready :: "http_env \<Rightarrow> 'h daemon \<Rightarrow> bool" where
  "web_ready env d \<longleftrightarrow> (\<forall>s. ascii s \<longrightarrow> json_utf8 env s) \<and> json_utf8 env (''brubeck '' @ git_version env)
     \<and> (\<forall>p m. srv_heap (dm_server d) p = Some m \<longrightarrow> json_utf8 env (cstr (m_key m)))
     \<and> 0 < stat_freq (srv_stats (dm_server d)) \<and> stat_freq (srv_stats (dm_server d)) < 2 ^ 31"

lemma per_second_finite:
  assumes "0 < stat_freq (srv_stats (dm_server d))" "stat_freq (srv_stats (dm_server d)) < 2 ^ 31"
  shows "packable env (per_second st d)"
proof -
  define a where "a = unat (brubeck_stats_sample st (srv_stats (dm_server d)))"
  define b where "b = nat (stat_freq (srv_stats (dm_server d)))"
  have a: "a < 2 ^ 32" unfolding a_def using unsigned_less [of "brubeck_stats_sample st (srv_stats (dm_server d))", where ?'a = nat] by simp
  have b: "b < 2 ^ 53" "0 < b" using assms by (simp_all add: b_def)
  obtain m e where x: "decode64 (d_of_nat a) = FFin False m e" "real m * 2 powi e = real a"
    by (rule decode_d_of_nat [of a]) (use a in auto)
  obtain n f where y: "decode64 (d_of_nat b) = FFin False n f" "real n * 2 powi f = real b"
    by (rule decode_d_of_nat [of b]) (use b in auto)
  have "0 < n" using y(2) b(2) by (cases n) auto
  then obtain N D where d: "fp_div binary64 (FFin False m e) (FFin False n f) = fp_round binary64 False N D" "0 < D"
    "real N / real D = real a / real b" using fp_div_nonneg [of n binary64 m e f] x(2) y(2) by metis
  have "real N / real D \<le> real a / 1" unfolding d(3) by (rule divide_left_mono) (use b(2) in simp_all)
  also have "\<dots> = real a" by simp
  also have "\<dots> \<le> 2 powi 32" using a by simp
  finally have "upto (encode64 (fp_round binary64 False N D)) (2 powi 32)" by (rule encode_upto [OF d(2)]) simp_all
  then have "finite_d (ddiv (d_of_nat a) (d_of_nat b))"
    unfolding ddiv_def x(1) y(1) d(1) upto_def finite_d_def by auto
  with assms show ?thesis by (simp add: per_second_def d_of_int_def a_def b_def)
qed

lemma send_ping_total:
  assumes "web_ready env d"
  shows "\<exists>t. send_ping env d = Inr (Some t)"
proof -
  have "json_utf8 env ''OK'' \<and> json_utf8 env ''ERROR (backend disconnected)''"
    using assms by (simp add: web_ready_def ascii_def)
  then show ?thesis
    using assms per_second_finite [of d env]
    by (simp add: send_ping_def json_pack_def json_dumps_def web_ready_def json_stat_def)
qed

lemma send_stats_total: "web_ready env d \<Longrightarrow> \<exists>t. send_stats env d = Inr (Some t)"
  by (simp add: send_stats_def json_pack_def json_dumps_def web_ready_def json_stat_def)

definition metric_json :: "brubeck_metric \<Rightarrow> json" where
  "metric_json m = JObject [(''key'', JString (cstr (m_key m))), (''type'', JString (metric_types (m_type m))),
     (''shard'', JInt 0), (''expire'', JString (expire_status ! unat (m_expire m)))]"

lemma expire_cases: "(x::u8) \<le> 2 \<Longrightarrow> x = 0 \<or> x = 1 \<or> x = 2"
proof -
  assume "x \<le> 2"
  then have "unat x = unat (0::u8) \<or> unat x = unat (1::u8) \<or> unat x = unat (2::u8)" by (auto simp: word_le_nat_alt)
  then show ?thesis by (simp only: word_unat_eq_iff)
qed

lemma send_metric_found:
  assumes "web_ready env d" "srv_heap (dm_server d) p = Some m" "wf_metric m"
    "safe_lookup_metric ck d (drop (length ''/metric/'') url) = Some p"
  shows "send_metric env ck d url = Inr (Some (json_text env (metric_json m)))"
proof -
  have "m_expire m \<le> 2" using assms(3) by (simp add: wf_metric_def)
  then have x: "m_expire m = 0 \<or> m_expire m = 1 \<or> m_expire m = 2" by (rule expire_cases)
  then have e: "rd expire_status (uint (m_expire m)) = Inr (expire_status ! unat (m_expire m))"
    by (auto simp: rd_def expire_status_def)
  have "ascii (expire_status ! unat (m_expire m))" using x by (auto simp: expire_status_def ascii_def)
  moreover have "ascii (metric_types (m_type m))" by (cases "m_type m") (simp_all add: ascii_def)
  ultimately have "json_pack env [(''key'', JString (cstr (m_key m))), (''type'', JString (metric_types (m_type m))),
     (''shard'', JInt 0), (''expire'', JString (expire_status ! unat (m_expire m)))] = Some (metric_json m)"
    using assms(1,2) unfolding web_ready_def json_pack_def metric_json_def by (simp del: split_paired_All)
  then show ?thesis using assms(2,4) e by (simp only: send_metric_def option.case rbind_simps json_dumps_def)
qed

lemma prefix_drop: "prefix p s \<Longrightarrow> s = p @ drop (length p) s"
  by (auto simp: prefix_def)

text \<open>The key a request names after \<open>pre\<close>, if it is registered, with its metric.\<close>

definition named :: "('h, slab_ptr) ck_ht \<Rightarrow> 'h daemon \<Rightarrow> string \<Rightarrow> string \<Rightarrow> slab_ptr option" where
  "named ck d pre url = (if prefix pre url then find_str ck (srv_metrics (dm_server d)) (drop (length pre) url) else None)"

definition served :: "('h, slab_ptr) ck_ht \<Rightarrow> 'h daemon \<Rightarrow> string \<Rightarrow> string \<Rightarrow> bool" where
  "served ck d url meth \<longleftrightarrow>
     meth = ''GET'' \<and> (url \<in> {''/_ping'', ''/ping'', ''/stats''} \<or> named ck d ''/metric/'' url \<noteq> None)
     \<or> meth = ''POST'' \<and> named ck d ''/expire/'' url \<noteq> None"

definition disable :: "slab_ptr \<Rightarrow> 'h daemon \<Rightarrow> 'h daemon" where
  "disable p d = d\<lparr>dm_server := put_metric (dm_server d) p ((the (srv_heap (dm_server d) p))\<lparr>m_expire := BRUBECK_EXPIRE_DISABLED\<rparr>)\<rparr>"

lemma named_heap:
  assumes "registry_ok ck tinv (dm_server d)" "length url < 2 ^ 16" "named ck d pre url = Some p"
  shows "\<exists>m. srv_heap (dm_server d) p = Some m \<and> wf_metric m"
proof -
  have "short_key (drop (length pre) url)" using assms(2) by (simp add: short_key_def)
  moreover have "find_str ck (srv_metrics (dm_server d)) (drop (length pre) url) = Some p"
    using assms(3) by (simp add: named_def split: if_splits)
  ultimately show ?thesis using registry_okD(5,9) [OF assms(1)] by blast
qed

lemma handle_get:
  assumes "registry_ok ck tinv (dm_server d)" "web_ready env d" "NUL \<notin> set url" "length url < 2 ^ 16"
  shows "\<exists>r. handle_request env ck d url ''GET'' = Inr (r, d) \<and> status r = (if served ck d url ''GET'' then 200 else 404)
    \<and> (\<forall>p. named ck d ''/metric/'' url = Some p \<longrightarrow>
         body r = json_text env (metric_json (the (srv_heap (dm_server d) p))))"
proof (cases "url \<in> {''/_ping'', ''/ping'', ''/stats'', ''/flow_stats''}")
  case True
  obtain t u where "send_ping env d = Inr (Some t)" "send_stats env d = Inr (Some u)"
    using send_ping_total [OF assms(2)] send_stats_total [OF assms(2)] by blast
  with True show ?thesis by (auto simp: handle_request_def served_def named_def flow_stats_def)
next
  case False
  have s: "starts_with (url @ [NUL]) (''/metric/'' @ [NUL]) = Inr (prefix ''/metric/'' url)"
    by (rule starts_with_prefix) (use assms(3) in simp_all)
  have look: "safe_lookup_metric ck d (drop (length ''/metric/'') url) = named ck d ''/metric/'' url" if "prefix ''/metric/'' url"
    using that by (simp add: safe_lookup_metric_def named_def find_str_def)
  show ?thesis
  proof (cases "named ck d ''/metric/'' url")
    case None
    have "rbind (starts_with (url @ [NUL]) (''/metric/'' @ [NUL])) (\<lambda>b.
        if b then rbind (send_metric env ck d url) (\<lambda>r. Inr (r, d)) else Inr (None, d)) = Inr (None, d)"
      unfolding s rbind_simps using look None by (simp add: send_metric_def)
    with False None show ?thesis by (simp add: handle_request_def served_def)
  next
    case (Some p)
    then have pre: "prefix ''/metric/'' url" by (simp add: named_def split: if_splits)
    obtain m where m: "srv_heap (dm_server d) p = Some m" "wf_metric m"
      using named_heap [OF assms(1,4) Some] by blast
    have "send_metric env ck d url = Inr (Some (json_text env (metric_json m)))"
      by (rule send_metric_found [OF assms(2) m]) (use look [OF pre] Some in simp)
    with False Some m pre s show ?thesis by (simp add: handle_request_def served_def)
  qed
qed

lemma handle_post:
  assumes "registry_ok ck tinv (dm_server d)" "NUL \<notin> set url" "length url < 2 ^ 16"
  shows "\<exists>r. handle_request env ck d url ''POST'' = Inr (r, case named ck d ''/expire/'' url of None \<Rightarrow> d | Some p \<Rightarrow> disable p d)
    \<and> status r = (if served ck d url ''POST'' then 200 else 404)"
proof -
  have s: "starts_with (url @ [NUL]) (''/expire/'' @ [NUL]) = Inr (prefix ''/expire/'' url)"
    by (rule starts_with_prefix) (use assms(2) in simp_all)
  have look: "safe_lookup_metric ck d (drop (length ''/expire/'') url) = named ck d ''/expire/'' url" if "prefix ''/expire/'' url"
    using that by (simp add: safe_lookup_metric_def named_def find_str_def)
  show ?thesis
  proof (cases "named ck d ''/expire/'' url")
    case None
    have "rbind (starts_with (url @ [NUL]) (''/expire/'' @ [NUL])) (\<lambda>b.
        if b then http_expire_metric ck d url else Inr (None, d)) = Inr (None, d)"
      unfolding s rbind_simps using look None by (simp add: http_expire_metric_def)
    with None show ?thesis by (simp add: handle_request_def served_def)
  next
    case (Some p)
    then have pre: "prefix ''/expire/'' url" by (simp add: named_def split: if_splits)
    obtain m where m: "srv_heap (dm_server d) p = Some m" using named_heap [OF assms(1,3) Some] by blast
    have "http_expire_metric ck d url = Inr (Some [], disable p d)"
      using look [OF pre] Some m by (simp add: http_expire_metric_def disable_def)
    with Some pre s show ?thesis by (simp add: handle_request_def served_def)
  qed
qed

lemma disable_ok:
  assumes "registry_ok ck tinv (dm_server d)" "length url < 2 ^ 16" "named ck d pre url = Some p"
  shows "registry_ok ck tinv (dm_server (disable p d))"
proof -
  obtain m where m: "srv_heap (dm_server d) p = Some m" "wf_metric m" using named_heap [OF assms] by blast
  then have "wf_metric (m\<lparr>m_expire := BRUBECK_EXPIRE_DISABLED\<rparr>)" by (simp add: wf_metric_def)
  with put_ok [OF assms(1) m(1)] m(1) show ?thesis by (simp add: disable_def)
qed

section \<open>Properties\<close>

text \<open>
  C15. A daemon that can build its bodies (\<open>web_ready\<close>: the keys of all metrics are UTF-8, and the
  sampling period has been set, to a positive number that fits an \<^verbatim>\<open>int\<close>) answers every request:
  with 200 exactly for the ping and statistics pages, for \<^verbatim>\<open>GET /metric/\<close> and \<^verbatim>\<open>POST /expire/\<close> of a
  registered key, with 404 otherwise. The body for a metric describes it. Only \<^verbatim>\<open>POST /expire/\<close> of a
  registered key changes the daemon: it disables that metric and nothing else, and the registry
  stays consistent. Without these conditions a request can crash the daemon, see
  \<open>ping_without_period\<close> and \<open>metric_page_not_utf8\<close> below.
\<close>

theorem http_requests:
  assumes "registry_ok ck tinv (dm_server d)" "web_ready env d" "NUL \<notin> set url" "length url < 2 ^ 16"
  shows "\<exists>r d'. handle_request env ck d url meth = Inr (r, d') \<and> status r = (if served ck d url meth then 200 else 404)
    \<and> d' = (case named ck d ''/expire/'' url of Some p \<Rightarrow> if meth = ''POST'' then disable p d else d | None \<Rightarrow> d)
    \<and> registry_ok ck tinv (dm_server d')
    \<and> (\<forall>p. meth = ''GET'' \<longrightarrow> named ck d ''/metric/'' url = Some p \<longrightarrow>
         body r = json_text env (metric_json (the (srv_heap (dm_server d) p))))"
proof -
  consider "meth = ''GET''" | "meth = ''POST''" | "meth \<noteq> ''GET''" "meth \<noteq> ''POST''" by blast
  then show ?thesis
  proof cases
    case 1
    with handle_get [OF assms] assms(1) show ?thesis by (auto split: option.splits simp del: split_paired_All)
  next
    case 2
    from handle_post [OF assms(1,3,4), of env] obtain r where
      "handle_request env ck d url ''POST'' = Inr (r, case named ck d ''/expire/'' url of None \<Rightarrow> d | Some p \<Rightarrow> disable p d)"
      "status r = (if served ck d url ''POST'' then 200 else 404)" by blast
    with 2 disable_ok [OF assms(1,4)] assms(1) show ?thesis
      by (cases "named ck d ''/expire/'' url") (simp_all del: split_paired_All)
  next
    case 3
    with assms(1) show ?thesis by (simp add: handle_request_def served_def split: option.splits)
  qed
qed

definition demo_env :: http_env where
  "demo_env = \<lparr>json_utf8 = (\<lambda>s. True), json_text = (\<lambda>j. ''{}''), git_version = ''0'', http_pid = 1, mhd_start = (\<lambda>p. True)\<rparr>"

theorem http_requests_witness:
  "\<exists>p s. brubeck_metric_find list_ck (dm_server demo_daemon) ''x'' MT_METER = Inr (Some p, s)
   \<and> (let d = demo_daemon\<lparr>dm_server := s\<rparr> in
      (\<exists>r. handle_request demo_env list_ck d ''/ping'' ''GET'' = Inr (r, d) \<and> status r = 200)
    \<and> (\<exists>r. handle_request demo_env list_ck d ''/expire/y'' ''POST'' = Inr (r, d) \<and> status r = 404)
    \<and> (\<exists>r d'. handle_request demo_env list_ck d ''/expire/x'' ''POST'' = Inr (r, d') \<and> status r = 200
         \<and> srv_heap (dm_server d') p = Some ((blank_metric ''x'' MT_METER)\<lparr>m_expire := BRUBECK_EXPIRE_DISABLED\<rparr>)))"
proof -
  let ?s = "dm_server demo_daemon"
  have e: "\<not> at_capacity ?s" "srv_heap ?s = Map.empty" "find_str list_ck (srv_metrics ?s) k = None" for k
    by (simp_all add: demo_daemon_def one_backend_def find_str_def brubeck_hashtable_find_def list_ck_def)
  obtain p s where s: "brubeck_metric_find list_ck ?s ''x'' MT_METER = Inr (Some p, s)" "find_spec list_ck list_inv ?s ''x'' MT_METER p s"
    using metric_find_ok [OF list_table.ck_table_axioms demo_daemon_ok e(1), of "''x''" MT_METER] by auto
  let ?d = "demo_daemon\<lparr>dm_server := s\<rparr>"
  have r: "registry_ok list_ck list_inv (dm_server ?d)" and st: "stat_freq (srv_stats s) = 10"
    and h: "srv_heap s p = Some (blank_metric ''x'' MT_METER)"
    and f: "\<And>k. length k < 9 \<Longrightarrow> find_str list_ck (srv_metrics s) k = (if k = ''x'' then Some p else None)"
    using s(2) e(3) by (simp_all add: find_spec_def short_key_def brubeck_stats_inc_def demo_daemon_def)
  have w: "web_ready demo_env ?d" using st by (simp add: web_ready_def demo_env_def)
  have n: "named list_ck ?d ''/expire/'' ''/expire/x'' = Some p" "named list_ck ?d ''/expire/'' ''/expire/y'' = None"
    "named list_ck ?d ''/expire/'' ''/ping'' = None"
    by (simp_all add: named_def f)
  show ?thesis
    using s(1) http_requests [OF r w, of "''/ping''" "''GET''"] http_requests [OF r w, of "''/expire/x''" "''POST''"]
      http_requests [OF r w, of "''/expire/y''" "''POST''"]
    by (auto simp: served_def n disable_def put_metric_def h)
qed

text \<open>
  A request can crash the daemon: the ping page while the sampling period is zero, as it is until
  \<^verbatim>\<open>brubeck_internal__init\<close> has run, and the page of a metric whose key is not UTF-8. In both cases
  \<^verbatim>\<open>json_pack\<close> gives nothing and the length of a null string is taken.
\<close>

lemma ping_without_period:
  assumes "stat_freq (srv_stats (dm_server d)) = 0"
  shows "handle_request env ck d ''/ping'' ''GET'' = Inl NullPointer"
proof -
  have z: "decode64 (d_of_nat 0) = FFin False 0 (emin binary64)"
    unfolding d_of_nat_def by (subst decode64_encode64) (simp_all add: fp_round_def emin_le_emax)
  have "\<not> finite_d (ddiv x (d_of_nat 0))" for x
    by (cases "decode64 x") (simp_all add: finite_d_def ddiv_def z decode64_encode64)
  then have "\<not> packable env (per_second Metrics d)" using assms by (simp add: per_second_def d_of_int_def)
  then have "send_ping env d = Inl NullPointer" unfolding send_ping_def json_pack_def by (simp add: json_dumps_def)
  then show ?thesis by (simp add: handle_request_def)
qed

lemma metric_page_not_utf8:
  assumes "registry_ok ck tinv (dm_server d)" "NUL \<notin> set url" "length url < 2 ^ 16" "named ck d ''/metric/'' url = Some p"
    "\<not> json_utf8 env (cstr (m_key (the (srv_heap (dm_server d) p))))"
  shows "handle_request env ck d url ''GET'' = Inl NullPointer"
proof -
  have pre: "prefix ''/metric/'' url" using assms(4) by (simp add: named_def split: if_splits)
  have s: "starts_with (url @ [NUL]) (''/metric/'' @ [NUL]) = Inr (prefix ''/metric/'' url)"
    by (rule starts_with_prefix) (use assms(2) in simp_all)
  obtain m where m: "srv_heap (dm_server d) p = Some m" "wf_metric m" using named_heap [OF assms(1,3,4)] by blast
  have look: "safe_lookup_metric ck d (drop (length ''/metric/'') url) = Some p"
    using assms(4) pre by (simp add: safe_lookup_metric_def named_def find_str_def)
  have "m_expire m = 0 \<or> m_expire m = 1 \<or> m_expire m = 2" using m(2) by (intro expire_cases) (simp add: wf_metric_def)
  then have "rd expire_status (uint (m_expire m)) = Inr (expire_status ! unat (m_expire m))"
    by (auto simp: rd_def expire_status_def)
  then have "send_metric env ck d url = Inl NullPointer"
    using assms(5) m(1) unfolding send_metric_def look by (simp add: json_pack_def json_dumps_def)
  with pre s show ?thesis by (auto simp: handle_request_def)
qed

end
