(* ===== verification/Server.thy ===== *)
theory Server
  imports Http
begin

text \<open>
  Start, main loop and end of the daemon (second part of \<^verbatim>\<open>src/server.c\<close>, and \<^verbatim>\<open>brubeck.c\<close>): reading the
  configuration, starting the backends, the samplers and their threads, and the loop around
  \<^verbatim>\<open>poll\<close>.
\<close>

section \<open>Loading\<close>

text \<open>
  What the daemon finds around it: the libraries, the configuration files, the answers of the kernel
  to each sampler and backend, the contents of freshly allocated memory, and which threads can
  be created.
\<close>

record ('h, 'j) host =
  h_ck :: "('h, slab_ptr) ck_ht"
  h_json :: "'j jansson"
  h_load :: "string \<Rightarrow> 'j option"
  h_resolve :: "string \<Rightarrow> addrinfo list option"
  h_sock :: "nat \<Rightarrow> sock_kernel"
  h_net :: "nat \<Rightarrow> carbon_net"
  h_sampler_mem :: "nat \<Rightarrow> brubeck_sampler"
  h_pickle_mem :: "nat \<Rightarrow> string"
  h_libm_log :: "double \<Rightarrow> double"
  h_spawn :: "thread \<Rightarrow> bool"
  h_timerfd :: "int \<Rightarrow> int"
  h_settime :: "int \<Rightarrow> bool"
  h_sigmask :: bool
  h_signalfd :: int
  h_web :: http_env
  h_environ_malloc :: bool
  h_environ_strdup :: "nat \<Rightarrow> bool"
  h_fopen_log :: "nat \<Rightarrow> bool"
  h_fopen_dump :: "string \<Rightarrow> bool"

definition spawn :: "('h, 'j) host \<Rightarrow> string \<Rightarrow> thread \<Rightarrow> thread list \<Rightarrow> thread list res" where
  "spawn host msg t ts = (if h_spawn host t then Inr (ts @ [t]) else Inl (Die msg))"

definition brubeck_backend_run_threaded :: "('h, 'j) host \<Rightarrow> nat \<Rightarrow> thread list \<Rightarrow> thread list res" where
  "brubeck_backend_run_threaded host n ts = spawn host ''failed to start backend thread'' (BackendThread n) ts"

fun spawn_all :: "('h, 'j) host \<Rightarrow> string \<Rightarrow> thread list \<Rightarrow> thread list \<Rightarrow> thread list res" where
  "spawn_all host msg [] ts = Inr ts"
| "spawn_all host msg (x # xs) ts = rbind (spawn host msg x ts) (spawn_all host msg xs)"

definition run_worker_threads :: "('h, 'j) host \<Rightarrow> nat \<Rightarrow> brubeck_statsd \<Rightarrow> thread list \<Rightarrow> thread list res" where
  "run_worker_threads host n statsd ts =
     spawn_all host ''failed to start sampler thread'' (map (WorkerThread n) [0..<unat (worker_count statsd)]) ts"

text \<open>\<^verbatim>\<open>json_string_value(json_object_get(b, "type"))\<close>\<close>

definition json_type :: "('h, 'j) host \<Rightarrow> 'j \<Rightarrow> string option" where
  "json_type host b = (case j_get (h_json host) b ''type'' of None \<Rightarrow> None | Some v \<Rightarrow> j_string (h_json host) v)"

definition shown :: "string option \<Rightarrow> string" where
  "shown t = (case t of None \<Rightarrow> ''(null)'' | Some s \<Rightarrow> s)"

text \<open>The arrays of backends and samplers have eight elements; a ninth is written behind them.\<close>

abbreviation max_backends :: nat where
  "max_backends \<equiv> 8"

fun load_backends :: "('h, 'j) host \<Rightarrow> 'j list \<Rightarrow> 'h daemon \<Rightarrow> 'h daemon res" where
  "load_backends host [] d = Inr d"
| "load_backends host (b # bs) d =
     rbind
       (if json_type host b = Some ''carbon'' then
          let n = length (srv_backends (dm_server d)) in
          rbind (brubeck_carbon_new (h_json host) (h_resolve host) (h_net host n) (h_pickle_mem host n) b (int n)) (\<lambda>(backend, ops, c).
          rbind (brubeck_backend_run_threaded host n (dm_threads d)) (\<lambda>ts.
            if n < max_backends then
              Inr (d\<lparr>dm_server := (dm_server d)\<lparr>srv_backends := srv_backends (dm_server d) @ [backend]\<rparr>,
                     dm_carbons := dm_carbons d @ [(ops, c)], dm_threads := ts\<rparr>)
            else Inl OutOfBounds))
        else Inr (splunk (''backend='' @ shown (json_type host b) @ '' event=invalid_backend'') d))
       (load_backends host bs)"

definition start_sampler :: "('h, 'j) host \<Rightarrow> 'j \<Rightarrow> nat \<Rightarrow> thread list \<Rightarrow> (sampler \<times> thread list) option res" where
  "start_sampler host s n ts =
     (let J = h_json host; mem = h_sampler_mem host n; k = h_sock host n in
      if json_type host s = Some ''statsd'' then
        rbind (brubeck_statsd_new J (h_resolve host) k mem s) (\<lambda>std.
        rbind (run_worker_threads host n std ts) (\<lambda>ts. Inr (Some (Statsd std, ts))))
      else if json_type host s = Some ''statsd-secure'' then
        rbind (brubeck_statsd_secure_new J (h_resolve host) k (h_libm_log host) mem s) (\<lambda>std.
        rbind (spawn host ''failed to start sampler thread'' (SecureThread n) ts) (\<lambda>ts. Inr (Some (Secure std, ts))))
      else Inr None)"

fun load_samplers :: "('h, 'j) host \<Rightarrow> 'j list \<Rightarrow> 'h daemon \<Rightarrow> 'h daemon res" where
  "load_samplers host [] d = Inr d"
| "load_samplers host (s # ss) d =
     rbind (start_sampler host s (length (dm_samplers d)) (dm_threads d)) (\<lambda>r.
     rbind
       (case r of
          None \<Rightarrow> Inr (splunk (''sampler='' @ shown (json_type host s) @ '' event=invalid_sampler'') d)
        | Some (x, ts) \<Rightarrow>
            if length (dm_samplers d) < max_backends then Inr (d\<lparr>dm_samplers := dm_samplers d @ [x], dm_threads := ts\<rparr>)
            else Inl OutOfBounds)
       (load_samplers host ss))"

definition load_timerfd :: "('h, 'j) host \<Rightarrow> int \<Rightarrow> int res" where
  "load_timerfd host interval =
     (if h_timerfd host interval < 0 then Inl (Die ''failed to create timer'')
      else if \<not> h_settime host interval then Inl (Die ''failed to set system timer'')
      else Inr (h_timerfd host interval))"

definition load_signalfd :: "('h, 'j) host \<Rightarrow> int res" where
  "load_signalfd host =
     (if \<not> h_sigmask host then Inl (Die ''failed to sigprocmask the needed signals'') else Inr (h_signalfd host))"

definition get_config_name :: "string \<Rightarrow> string" where
  "get_config_name full_path =
     (let config_name = (case strrchr full_path (CHR ''/'') of Some f \<Rightarrow> tl f | None \<Rightarrow> full_path)
      in case strrchr config_name (CHR ''.'') of
           Some ext \<Rightarrow> take (length config_name - length ext) config_name
         | None \<Rightarrow> config_name)"

text \<open>\<^verbatim>\<open>1 << capacity\<close> on a signed integer.\<close>

definition table_size :: "int \<Rightarrow> u64 res" where
  "table_size capacity = (if 0 \<le> capacity \<and> capacity < 31 then Inr (2 ^ nat capacity) else Inl BadShift)"

definition zero_daemon :: "string \<Rightarrow> string \<Rightarrow> string \<Rightarrow> int \<Rightarrow> int \<Rightarrow> 'h \<Rightarrow> gh_log \<Rightarrow> proctitle \<Rightarrow> 'h daemon" where
  "zero_daemon name dump path fds fdu ht lg pt =
     \<lparr>dm_server = \<lparr>srv_name = name, srv_slab = brubeck_slab_init \<lparr>current = [], total_alloc = 0\<rparr>, srv_metrics = ht,
        srv_heap = Map.empty, at_capacity = False, srv_backends = [],
        srv_stats = \<lparr>stat_freq = 0, st_live = zero_stats, st_sample = zero_stats\<rparr>\<rparr>,
      dm_carbons = [], dm_samplers = [], dump_path = Some dump, config_name = get_config_name path, running = False,
      fd_signal = fds, fd_expire = - 1, fd_update = fdu, dm_threads = [], dm_cancelled = [], dm_log = gh_log_set_instance name lg,
      dm_title = pt, dm_dumps = []\<rparr>"

definition start_http :: "('h, 'j) host \<Rightarrow> string option \<Rightarrow> 'h daemon \<Rightarrow> 'h daemon res" where
  "start_http host http d = (case http of None \<Rightarrow> Inr d | Some listen \<Rightarrow> brubeck_http_endpoint_init (h_web host) listen d)"

definition load_config :: "('h, 'j) host \<Rightarrow> string \<Rightarrow> int \<Rightarrow> int \<Rightarrow> gh_log \<Rightarrow> proctitle \<Rightarrow> 'h daemon res" where
  "load_config host path fds fdu lg pt =
     (let J = h_json host in
      case h_load host path of
        None \<Rightarrow> Inl (Die ''failed to load config file'')
      | Some cfg \<Rightarrow>
          rbind (unpack_opt (j_string J) J cfg ''server_name'' ''brubeck'') (\<lambda>name.
          rbind (unpack (j_string J) J cfg ''dumpfile'') (\<lambda>dump.
          rbind (unpack (j_int J) J cfg ''capacity'') (\<lambda>capacity.
          rbind (unpack Some J cfg ''backends'') (\<lambda>backends.
          rbind (unpack Some J cfg ''samplers'') (\<lambda>samplers.
          rbind (unpack_opt (\<lambda>v. map_option Some (j_string J v)) J cfg ''http'' None) (\<lambda>http.
          rbind (unpack_opt (j_int J) J cfg ''expire'' 0) (\<lambda>expire.
          rbind (table_size capacity) (\<lambda>sz.
            case brubeck_hashtable_new (h_ck host) sz of
              None \<Rightarrow> Inl (Die ''failed to initialize hash table'')
            | Some ht \<Rightarrow>
                rbind (load_backends host (j_elems J backends) (zero_daemon name dump path fds fdu ht lg pt)) (\<lambda>d.
                rbind (load_samplers host (j_elems J samplers) d) (\<lambda>d.
                rbind (start_http host http d) (\<lambda>d.
                rbind (if expire \<noteq> 0 then load_timerfd host expire else Inr (- 1)) (\<lambda>fd.
                  Inr (d\<lparr>fd_expire := fd\<rparr>))))))))))))))"

definition brubeck_server_init :: "('h, 'j) host \<Rightarrow> string \<Rightarrow> gh_log \<Rightarrow> proctitle \<Rightarrow> 'h daemon res" where
  "brubeck_server_init host path lg pt =
     rbind (load_signalfd host) (\<lambda>fds.
     rbind (load_timerfd host 1) (\<lambda>fdu.
     rbind (load_config host path fds fdu lg pt) (\<lambda>d.
     rbind (brubeck_internal_init (h_ck host) (dm_server d)) (\<lambda>s. Inr (d\<lparr>dm_server := s\<rparr>)))))"

section \<open>Running\<close>

text \<open>
  A return of \<^verbatim>\<open>poll\<close>: which descriptors are readable, and what reading each of them gives; \<open>None\<close> is
  a failed call. A timer delivers 8 bytes, the signal descriptor a structure of 128 bytes.
\<close>

record wakeup =
  woken :: "bool list"
  read_signal :: "int \<times> int"
  read_update :: int
  read_expire :: int

record pollfd =
  pfd_fd :: int
  revents :: bool

definition timer_elapsed :: "pollfd \<Rightarrow> int \<Rightarrow> bool" where
  "timer_elapsed fd s \<longleftrightarrow> revents fd \<and> s = 8"

definition signal_triggered :: "pollfd \<Rightarrow> int \<times> int \<Rightarrow> int" where
  "signal_triggered fd = (\<lambda>(s, ssi_signo). if revents fd \<and> s = 128 then ssi_signo else - 1)"

text \<open>The descriptors of the loop; the third is only polled when metrics expire.\<close>

definition server_fds :: "'h daemon \<Rightarrow> pollfd list \<times> nat" where
  "server_fds d =
     (let fds = [\<lparr>pfd_fd = fd_signal d, revents = False\<rparr>, \<lparr>pfd_fd = fd_update d, revents = False\<rparr>]
      in if 0 \<le> fd_expire d then (fds @ [\<lparr>pfd_fd = fd_expire d, revents = False\<rparr>], 3)
         else (fds @ [\<lparr>pfd_fd = 0, revents = False\<rparr>], 2))"

definition poll :: "bool list \<Rightarrow> pollfd list \<times> nat \<Rightarrow> pollfd list" where
  "poll ws = (\<lambda>(fds, nfd).
     map (\<lambda>i. if i < nfd then (fds ! i)\<lparr>revents := i < length ws \<and> ws ! i\<rparr> else fds ! i) [0..<length fds])"

abbreviation SIGHUP :: int where "SIGHUP \<equiv> 1"
abbreviation SIGINT :: int where "SIGINT \<equiv> 2"
abbreviation SIGUSR2 :: int where "SIGUSR2 \<equiv> 12"
abbreviation SIGTERM :: int where "SIGTERM \<equiv> 15"

definition handle_signal :: "('h, 'j) host \<Rightarrow> int \<Rightarrow> 'h daemon \<Rightarrow> 'h daemon res" where
  "handle_signal host signo d =
     (if signo = SIGHUP then Inr (splunk ''event=reload_log'' (d\<lparr>dm_log := gh_log_reopen (h_fopen_log host) (dm_log d)\<rparr>))
      else if signo = SIGUSR2 then dump_all_metrics (h_ck host) (h_fopen_dump host) d
      else if signo = SIGINT \<or> signo = SIGTERM then Inr (d\<lparr>running := False\<rparr>)
      else Inr d)"

definition server_turn :: "('h, 'j) host \<Rightarrow> wakeup option \<Rightarrow> 'h daemon \<Rightarrow> 'h daemon res" where
  "server_turn host ev d =
     (case ev of
        None \<Rightarrow> Inr d
      | Some w \<Rightarrow>
          let fds = poll (woken w) (server_fds d) in
          rbind (handle_signal host (signal_triggered (fds ! 0) (read_signal w)) d) (\<lambda>d.
          rbind (if timer_elapsed (fds ! 1) (read_update w) then update_proctitle (update_flows d) else Inr d) (\<lambda>d.
            if timer_elapsed (fds ! 2) (read_expire w) then
              rbind (expire_metrics (h_ck host) (dm_server d)) (\<lambda>s. Inr ((splunk ''event=expire_metrics'' d)\<lparr>dm_server := s\<rparr>))
            else Inr d)))"

text \<open>The loop on the answers of \<^verbatim>\<open>poll\<close> to come; without a further answer it waits.\<close>

fun server_loop :: "('h, 'j) host \<Rightarrow> wakeup option list \<Rightarrow> 'h daemon \<Rightarrow> 'h daemon res" where
  "server_loop host [] d = (if running d then Inl Blocked else Inr d)"
| "server_loop host (ev # evs) d = (if running d then rbind (server_turn host ev d) (server_loop host evs) else Inr d)"

text \<open>
  Calls of \<^verbatim>\<open>pthread_cancel\<close>, as the list of threads they were made for: nothing waits for these
  threads, which end at their next cancellation point.
\<close>

definition cancel :: "thread list \<Rightarrow> thread list \<Rightarrow> thread list" where
  "cancel ts requests = requests @ ts"

text \<open>The threads of a sampler of each kind, and its callback \<^verbatim>\<open>shutdown\<close>.\<close>

definition statsd_threads :: "nat \<Rightarrow> brubeck_statsd \<Rightarrow> thread list" where
  "statsd_threads n s = map (WorkerThread n) [0..<unat (worker_count s)]"

definition secure_threads :: "nat \<Rightarrow> thread list" where
  "secure_threads n = [SecureThread n]"

fun shutdown_sampler :: "nat \<Rightarrow> sampler \<Rightarrow> thread list \<Rightarrow> thread list" where
  "shutdown_sampler n (Statsd s) requests = cancel (statsd_threads n s) requests"
| "shutdown_sampler n (Secure s) requests = cancel (secure_threads n) requests"

fun shutdown_samplers :: "nat \<Rightarrow> sampler list \<Rightarrow> thread list \<Rightarrow> thread list" where
  "shutdown_samplers n [] requests = requests"
| "shutdown_samplers n (s # ss) requests = shutdown_samplers (Suc n) ss (shutdown_sampler n s requests)"

definition brubeck_server_run :: "('h, 'j) host \<Rightarrow> wakeup option list \<Rightarrow> 'h daemon \<Rightarrow> ('h daemon \<times> int) res" where
  "brubeck_server_run host evs d =
     rbind (server_loop host evs (splunk ''event=listening'' (d\<lparr>running := True\<rparr>))) (\<lambda>d.
       let requests = cancel (map BackendThread [0..<length (srv_backends (dm_server d))]) (dm_cancelled d);
           requests = shutdown_samplers 0 (dm_samplers d) requests
       in Inr (splunk ''event=shutdown'' (d\<lparr>dm_cancelled := requests\<rparr>), 0))"

section \<open>The program\<close>

text \<open>The options \<^verbatim>\<open>getopt_long\<close> reports, in their order.\<close>

datatype cli_option = OptLog string | OptConfig string | OptVersion | OptUnknown

datatype cli = CliExit int | CliRun "string option" string

fun parse_options :: "cli_option list \<Rightarrow> string option \<Rightarrow> string \<Rightarrow> cli" where
  "parse_options [] log_file config_file = CliRun log_file config_file"
| "parse_options (OptLog f # opts) log_file config_file = parse_options opts (Some f) config_file"
| "parse_options (OptConfig f # opts) log_file config_file = parse_options opts log_file f"
| "parse_options (OptVersion # opts) log_file config_file = CliExit 0"
| "parse_options (OptUnknown # opts) log_file config_file = CliExit 1"

definition brubeck_main :: "('h, 'j) host \<Rightarrow> cli_option list \<Rightarrow> string list \<Rightarrow> string list \<Rightarrow> wakeup option list \<Rightarrow>
    ('h daemon option \<times> int) res" where
  "brubeck_main host opts args env evs =
     (case parse_options opts None ''config.default.json'' of
        CliExit n \<Rightarrow> Inr (None, n)
      | CliRun log_file config_file \<Rightarrow>
          rbind (initproctitle (h_environ_malloc host) (h_environ_strdup host) (length args) (env_pointers args env) (start_memory args env)) (\<lambda>pt.
          rbind (brubeck_server_init host config_file (gh_log_open (h_fopen_log host) log_file log_zero) pt) (\<lambda>d.
          rbind (brubeck_server_run host evs d) (\<lambda>(d, r). Inr (Some d, r)))))"

text \<open>Options that only name files are taken one by one, the last of each kind counts.\<close>

lemma last_file: "last (a # b # xs) = last (b # xs)"
  by simp

lemma parse_options_files:
  "OptVersion \<notin> set xs \<Longrightarrow> OptUnknown \<notin> set xs \<Longrightarrow>
   parse_options (xs @ ys) log_file config_file =
     parse_options ys (last (log_file # [Some f. OptLog f \<leftarrow> xs])) (last (config_file # [f. OptConfig f \<leftarrow> xs]))"
proof (induction xs arbitrary: log_file config_file)
  case (Cons x xs)
  then show ?case by (cases x) (simp_all add: last_file del: last.simps)
qed simp

section \<open>The invariant of the daemon\<close>

fun sampler_threads :: "nat \<Rightarrow> sampler \<Rightarrow> thread list" where
  "sampler_threads n (Statsd s) = statsd_threads n s"
| "sampler_threads n (Secure s) = secure_threads n"

fun samplers_threads :: "nat \<Rightarrow> sampler list \<Rightarrow> thread list" where
  "samplers_threads n [] = []"
| "samplers_threads n (s # ss) = sampler_threads n s @ samplers_threads (Suc n) ss"

definition all_threads :: "'h daemon \<Rightarrow> thread list" where
  "all_threads d = map BackendThread [0..<length (srv_backends (dm_server d))] @ samplers_threads 0 (dm_samplers d)"

text \<open>What the start of the daemon establishes and the main loop keeps.\<close>

definition daemon_ok :: "('h, 'j) host \<Rightarrow> ('h \<Rightarrow> bool) \<Rightarrow> 'h daemon \<Rightarrow> bool" where
  "daemon_ok host tinv d \<longleftrightarrow> registry_ok (h_ck host) tinv (dm_server d) \<and> \<not> at_capacity (dm_server d)
     \<and> length (dm_carbons d) = length (srv_backends (dm_server d)) \<and> length (dm_carbons d) \<le> max_backends
     \<and> length (dm_samplers d) \<le> max_backends \<and> dm_threads d = all_threads d \<and> dm_cancelled d = []"

definition title_ok :: "'h daemon \<Rightarrow> bool" where
  "title_ok d \<longleftrightarrow> length (config_name d) \<le> 255 \<and> NUL \<notin> set (config_name d) \<and> title_ready (dm_title d)"

lemma samplers_threads_snoc: "samplers_threads n (ss @ [x]) = samplers_threads n ss @ sampler_threads (n + length ss) x"
  by (induction ss arbitrary: n) simp_all

lemma shutdown_sampler_cancel: "shutdown_sampler n s requests = cancel (sampler_threads n s) requests"
  by (cases s) simp_all

lemma shutdown_samplers_cancel: "shutdown_samplers n ss requests = cancel (samplers_threads n ss) requests"
  by (induction ss arbitrary: n requests) (simp_all add: cancel_def shutdown_sampler_cancel)

lemma map_upd_threads: "samplers_threads n (map (upd_common f) ss) = samplers_threads n ss"
proof (induction ss arbitrary: n)
  case (Cons s ss)
  have "sampler_threads n (upd_common f s) = sampler_threads n s" for n by (cases s) (simp_all add: statsd_threads_def)
  with Cons show ?case by simp
qed simp

section \<open>Turns of the main loop\<close>

lemma dump_fold:
  "\<forall>p\<in>set ps. heap p \<noteq> None \<Longrightarrow> fold (\<lambda>mt r. rbind r (dump_metric heap mt)) ps (Inr out) =
     Inr (out @ concat (map (\<lambda>p. cstr (m_key (the (heap p))) @ ''|'' @ METRIC_NAMES (m_type (the (heap p))) @ [LF]) ps))"
proof (induction ps arbitrary: out)
  case (Cons p ps)
  then obtain m where "heap p = Some m" by auto
  with Cons show ?case by (simp add: dump_metric_def)
qed simp

lemma dump_total:
  assumes ck: "ck_table ck tinv" and ok: "registry_ok ck tinv (dm_server d)"
  shows "\<exists>lg dumps. dump_all_metrics ck fop d = Inr (d\<lparr>dm_log := lg, dm_dumps := dumps\<rparr>)"
proof -
  have "\<forall>p\<in>set (map snd (ck_entries ck (srv_metrics (dm_server d)))). srv_heap (dm_server d) p \<noteq> None"
  proof
    fix p assume "p \<in> set (map snd (ck_entries ck (srv_metrics (dm_server d))))"
    then obtain k where "(k, p) \<in> set (ck_entries ck (srv_metrics (dm_server d)))" by auto
    with table_metrics(2) [OF ck ok] registry_okD(9) [OF ok] show "srv_heap (dm_server d) p \<noteq> None" by blast
  qed
  note f = dump_fold [OF this, of "[]"]
  have keep: "d\<lparr>dm_log := x\<rparr> = d\<lparr>dm_log := x, dm_dumps := dm_dumps d\<rparr>" for x by simp
  show ?thesis
  proof (cases "\<exists>path. dump_path d = Some path \<and> fop path")
    case True
    then obtain path where "dump_path d = Some path" "fop path" by blast
    with f have "\<exists>lg x. dump_all_metrics ck fop d = Inr (d\<lparr>dm_log := lg, dm_dumps := x\<rparr>)"
      unfolding dump_all_metrics_def Let_def brubeck_hashtable_foreach_def splunk_def by simp blast
    then show ?thesis .
  next
    case False
    then have "\<exists>lg. dump_all_metrics ck fop d = Inr (d\<lparr>dm_log := lg\<rparr>)"
      unfolding dump_all_metrics_def Let_def splunk_def by (cases "dump_path d") (simp_all, blast+)
    with keep show ?thesis by metis
  qed
qed

text \<open>A wakeup that ends the loop: a complete SIGINT or SIGTERM.\<close>

definition stops :: "wakeup option \<Rightarrow> bool" where
  "stops ev \<longleftrightarrow> (case ev of None \<Rightarrow> False
     | Some w \<Rightarrow> woken w \<noteq> [] \<and> hd (woken w) \<and> fst (read_signal w) = 128 \<and> snd (read_signal w) \<in> {SIGINT, SIGTERM})"

lemma poll_signal: "signal_triggered (poll ws (server_fds d) ! 0) (n, sig) = (if ws \<noteq> [] \<and> hd ws \<and> n = 128 then sig else - 1)"
  by (cases ws) (auto simp: server_fds_def poll_def signal_triggered_def Let_def)

lemma handle_signal_total:
  assumes ck: "ck_table (h_ck host) tinv" and ok: "daemon_ok host tinv d" "title_ok d"
  shows "\<exists>d'. handle_signal host sig d = Inr d' \<and> daemon_ok host tinv d' \<and> title_ok d'
    \<and> running d' = (running d \<and> sig \<notin> {SIGINT, SIGTERM}) \<and> dm_server d' = dm_server d \<and> dm_threads d' = dm_threads d"
proof -
  have reg: "registry_ok (h_ck host) tinv (dm_server d)" using ok by (simp add: daemon_ok_def)
  obtain lg dumps where "dump_all_metrics (h_ck host) (h_fopen_dump host) d = Inr (d\<lparr>dm_log := lg, dm_dumps := dumps\<rparr>)"
    using dump_total [OF ck reg] by blast
  with ok show ?thesis by (simp add: handle_signal_def daemon_ok_def title_ok_def all_threads_def splunk_def)
qed

lemma tick_total:
  assumes "daemon_ok host tinv d" "title_ok d"
  shows "\<exists>d'. update_proctitle (update_flows d) = Inr d' \<and> daemon_ok host tinv d' \<and> title_ok d'
    \<and> running d' = running d \<and> dm_server d' = dm_server d \<and> dm_threads d' = dm_threads d"
proof -
  let ?d = "update_flows d"
  have f: "dm_server ?d = dm_server d" "dm_carbons ?d = dm_carbons d" "length (dm_samplers ?d) = length (dm_samplers d)"
    "config_name ?d = config_name d" "dm_title ?d = dm_title d" "running ?d = running d" "dm_threads ?d = dm_threads d" "dm_cancelled ?d = dm_cancelled d"
    "samplers_threads 0 (dm_samplers ?d) = samplers_threads 0 (dm_samplers d)"
    by (simp_all add: update_flows_def map_upd_threads)
  have "length (dm_carbons ?d) \<le> 8" "length (srv_backends (dm_server ?d)) = length (dm_carbons ?d)"
    "length (dm_samplers ?d) \<le> 8" "length (config_name ?d) \<le> 255" "NUL \<notin> set (config_name ?d)" "title_ready (dm_title ?d)"
    using assms unfolding f daemon_ok_def title_ok_def by simp_all
  from update_proctitle_total [OF this] obtain t where t: "update_proctitle ?d = Inr (?d\<lparr>dm_title := t\<rparr>)" "title_ready t" by blast
  have "dm_server (?d\<lparr>dm_title := t\<rparr>) = dm_server d" "running (?d\<lparr>dm_title := t\<rparr>) = running d"
    "dm_threads (?d\<lparr>dm_title := t\<rparr>) = dm_threads d"
    "daemon_ok host tinv (?d\<lparr>dm_title := t\<rparr>)" "title_ok (?d\<lparr>dm_title := t\<rparr>)"
    using assms t(2) by (simp_all add: f daemon_ok_def title_ok_def all_threads_def)
  with t(1) show ?thesis by blast
qed

lemma expire_total:
  assumes ck: "ck_table (h_ck host) tinv" and ok: "daemon_ok host tinv d" "title_ok d"
  shows "\<exists>s. expire_metrics (h_ck host) (dm_server d) = Inr s \<and> daemon_ok host tinv ((splunk m d)\<lparr>dm_server := s\<rparr>)
    \<and> title_ok ((splunk m d)\<lparr>dm_server := s\<rparr>)"
proof -
  have "registry_ok (h_ck host) tinv (dm_server d)" using ok(1) by (simp add: daemon_ok_def)
  then obtain heap where h: "expire_metrics (h_ck host) (dm_server d) = Inr ((dm_server d)\<lparr>srv_heap := heap\<rparr>)"
    "registry_ok (h_ck host) tinv ((dm_server d)\<lparr>srv_heap := heap\<rparr>)" by (rule expire_metrics_ok [OF ck]) blast
  have "daemon_ok host tinv ((splunk m d)\<lparr>dm_server := (dm_server d)\<lparr>srv_heap := heap\<rparr>\<rparr>)"
    "title_ok ((splunk m d)\<lparr>dm_server := (dm_server d)\<lparr>srv_heap := heap\<rparr>\<rparr>)"
    using ok h(2) by (simp_all add: daemon_ok_def title_ok_def all_threads_def)
  with h(1) show ?thesis by blast
qed

lemma server_turn_total:
  assumes ck: "ck_table (h_ck host) tinv" and ok: "daemon_ok host tinv d" "title_ok d"
  shows "\<exists>d'. server_turn host ev d = Inr d' \<and> daemon_ok host tinv d' \<and> title_ok d' \<and> running d' = (running d \<and> \<not> stops ev)
    \<and> dm_threads d' = dm_threads d"
proof (cases ev)
  case (Some w)
  obtain n sig where rs: "read_signal w = (n, sig)" by force
  define fds where "fds = poll (woken w) (server_fds d)"
  define signo where "signo = signal_triggered (fds ! 0) (read_signal w)"
  have sg: "signo \<in> {SIGINT, SIGTERM} \<longleftrightarrow> stops ev"
    unfolding signo_def fds_def rs poll_signal stops_def Some by (auto simp: rs)
  obtain d1 where d1: "handle_signal host signo d = Inr d1" "daemon_ok host tinv d1" "title_ok d1"
    "running d1 = (running d \<and> \<not> stops ev)" "dm_threads d1 = dm_threads d" using handle_signal_total [OF assms, of signo] sg by blast
  obtain d2 where d2: "(if timer_elapsed (fds ! 1) (read_update w) then update_proctitle (update_flows d1) else Inr d1) = Inr d2"
    "daemon_ok host tinv d2" "title_ok d2" "running d2 = running d1" "dm_threads d2 = dm_threads d1"
    using tick_total [OF d1(2,3)] d1(2,3) by (cases "timer_elapsed (fds ! 1) (read_update w)") auto
  obtain s where s: "expire_metrics (h_ck host) (dm_server d2) = Inr s"
    "daemon_ok host tinv ((splunk ''event=expire_metrics'' d2)\<lparr>dm_server := s\<rparr>)"
    "title_ok ((splunk ''event=expire_metrics'' d2)\<lparr>dm_server := s\<rparr>)"
    using expire_total [OF ck d2(2,3), of "''event=expire_metrics''"] by blast
  have "server_turn host ev d = (if timer_elapsed (fds ! 2) (read_expire w)
      then Inr ((splunk ''event=expire_metrics'' d2)\<lparr>dm_server := s\<rparr>) else Inr d2)"
    unfolding server_turn_def Some option.case Let_def fds_def [symmetric] signo_def [symmetric] d1(1) rbind_simps d2(1) s(1) ..
  then show ?thesis using d1(4,5) d2(2-5) s(2,3) by simp
qed (use ok in \<open>simp add: server_turn_def stops_def\<close>)

lemma server_loop_ends:
  assumes ck: "ck_table (h_ck host) tinv"
  shows "daemon_ok host tinv d \<Longrightarrow> title_ok d \<Longrightarrow> running d \<Longrightarrow>
    (if \<exists>ev\<in>set evs. stops ev
     then \<exists>d'. server_loop host evs d = Inr d' \<and> daemon_ok host tinv d' \<and> title_ok d' \<and> \<not> running d' \<and> dm_threads d' = dm_threads d
     else server_loop host evs d = Inl Blocked)"
proof (induction evs arbitrary: d)
  case (Cons ev evs)
  obtain d1 where d1: "server_turn host ev d = Inr d1" "daemon_ok host tinv d1" "title_ok d1" "running d1 = (running d \<and> \<not> stops ev)" "dm_threads d1 = dm_threads d"
    using server_turn_total [OF ck Cons.prems(1,2)] by blast
  have l: "server_loop host (ev # evs) d = server_loop host evs d1" using Cons.prems(3) d1(1) by simp
  show ?case
  proof (cases "stops ev")
    case True
    with d1 have "server_loop host evs d1 = Inr d1" by (cases evs) auto
    with True l d1 show ?thesis by auto
  next
    case False
    with Cons.IH [OF d1(2,3)] Cons.prems(3) d1(4,5) show ?thesis unfolding l by (auto split: if_splits)
  qed
qed simp

lemma server_run_ends:
  assumes ck: "ck_table (h_ck host) tinv" and ok: "daemon_ok host tinv d" "title_ok d"
  shows "if \<exists>ev\<in>set evs. stops ev
    then \<exists>d'. brubeck_server_run host evs d = Inr (d', 0) \<and> dm_threads d' = dm_threads d \<and> dm_threads d' = all_threads d' \<and> dm_cancelled d' = dm_threads d'
      \<and> \<not> running d' \<and> registry_ok (h_ck host) tinv (dm_server d')
    else brubeck_server_run host evs d = Inl Blocked"
proof -
  let ?d = "splunk ''event=listening'' (d\<lparr>running := True\<rparr>)"
  have "daemon_ok host tinv ?d" "title_ok ?d" "running ?d" using ok by (simp_all add: daemon_ok_def title_ok_def all_threads_def)
  from server_loop_ends [OF ck this, of evs] show ?thesis
  proof (cases "\<exists>ev\<in>set evs. stops ev")
    case True
    with server_loop_ends [OF ck \<open>daemon_ok host tinv ?d\<close> \<open>title_ok ?d\<close> \<open>running ?d\<close>, of evs] obtain d' where
      d': "server_loop host evs ?d = Inr d'" "daemon_ok host tinv d'" "\<not> running d'" "dm_threads d' = dm_threads d" by auto
    have "shutdown_samplers 0 (dm_samplers d') (cancel (map BackendThread [0..<length (srv_backends (dm_server d'))]) (dm_cancelled d'))
        = dm_threads d'"
      using d'(2) by (simp add: shutdown_samplers_cancel cancel_def daemon_ok_def all_threads_def)
    with True d' show ?thesis by (simp add: brubeck_server_run_def daemon_ok_def all_threads_def)
  qed (simp add: brubeck_server_run_def)
qed

section \<open>Start\<close>

text \<open>A registry without metrics, whose backends are still to be added.\<close>

definition fresh :: "('h, 'j) host \<Rightarrow> ('h \<Rightarrow> bool) \<Rightarrow> 'h brubeck_server \<Rightarrow> bool" where
  "fresh host tinv s \<longleftrightarrow> tinv (srv_metrics s) \<and> ck_entries (h_ck host) (srv_metrics s) = [] \<and> slab_inv (srv_slab s)
     \<and> srv_heap s = Map.empty \<and> \<not> at_capacity s \<and> (\<forall>be\<in>set (srv_backends s). be_queue be = [])
     \<and> n_unique_keys (st_live (srv_stats s)) = 0"

definition loading :: "('h, 'j) host \<Rightarrow> ('h \<Rightarrow> bool) \<Rightarrow> 'h daemon \<Rightarrow> bool" where
  "loading host tinv d \<longleftrightarrow> fresh host tinv (dm_server d) \<and> length (dm_carbons d) = length (srv_backends (dm_server d))
     \<and> length (dm_carbons d) \<le> max_backends \<and> length (dm_samplers d) \<le> max_backends \<and> dm_threads d = all_threads d \<and> dm_cancelled d = []"

text \<open>What loading backends and samplers leaves as it is.\<close>

definition same_settings :: "'h daemon \<Rightarrow> 'h daemon \<Rightarrow> bool" where
  "same_settings d d' \<longleftrightarrow> config_name d' = config_name d \<and> dump_path d' = dump_path d \<and> dm_title d' = dm_title d
     \<and> srv_name (dm_server d') = srv_name (dm_server d)"

lemma fresh_find:
  assumes "ck_table (h_ck host) tinv" "fresh host tinv s" "short_key k"
  shows "find_str (h_ck host) (srv_metrics s) k = None"
  using assms ck_table.get_entries [OF assms(1), of "srv_metrics s" k] by (simp add: fresh_def short_str(1))

lemma fresh_registry:
  assumes "ck_table (h_ck host) tinv" "fresh host tinv s" "srv_backends s \<noteq> []"
  shows "registry_ok (h_ck host) tinv s"
proof -
  have q: "queued s = []" using assms(2) by (auto simp: queued_def fresh_def)
  show ?thesis using assms(2,3) fresh_find [OF assms(1,2)] unfolding registry_ok_def q by (simp add: fresh_def)
qed

lemma spawn_all_threads: "spawn_all host msg xs ts = Inr ts' \<Longrightarrow> ts' = ts @ xs"
proof (induction xs arbitrary: ts)
  case (Cons x xs)
  then have "spawn_all host msg xs (ts @ [x]) = Inr ts'" by (simp add: rbind_Inr_iff spawn_def split: if_splits)
  from Cons.IH [OF this] show ?case by simp
qed simp

lemma carbon_new_queue: "brubeck_carbon_new J g net mem b n = Inr (be, ops, c) \<Longrightarrow> be_queue be = []"
  by (auto simp: brubeck_carbon_new_def rbind_Inr_iff)

lemma load_backends_loading:
  "load_backends host bs d = Inr d' \<Longrightarrow> loading host tinv d \<Longrightarrow> dm_samplers d = [] \<Longrightarrow>
   loading host tinv d' \<and> dm_samplers d' = [] \<and> same_settings d d'"
proof (induction bs arbitrary: d)
  case (Cons b bs)
  show ?case
  proof (cases "json_type host b = Some ''carbon''")
    case True
    let ?n = "length (srv_backends (dm_server d))"
    from True Cons.prems(1) obtain be ops c ts where
      n: "brubeck_carbon_new (h_json host) (h_resolve host) (h_net host ?n) (h_pickle_mem host ?n) b (int ?n) = Inr (be, ops, c)"
      "brubeck_backend_run_threaded host ?n (dm_threads d) = Inr ts" "?n < max_backends"
      "load_backends host bs (d\<lparr>dm_server := (dm_server d)\<lparr>srv_backends := srv_backends (dm_server d) @ [be]\<rparr>,
         dm_carbons := dm_carbons d @ [(ops, c)], dm_threads := ts\<rparr>) = Inr d'"
      by (auto simp: Let_def rbind_Inr_iff split: if_splits)
    have "ts = dm_threads d @ [BackendThread ?n]"
      using n(2) by (simp add: brubeck_backend_run_threaded_def spawn_def split: if_splits)
    with Cons.prems(2,3) n(3) carbon_new_queue [OF n(1)] Cons.IH [OF n(4)] show ?thesis
      by (simp add: loading_def fresh_def all_threads_def same_settings_def)
  next
    case False
    with Cons.prems(1) have "load_backends host bs (splunk (''backend='' @ shown (json_type host b) @ '' event=invalid_backend'') d) = Inr d'"
      by simp
    from Cons.IH [OF this] Cons.prems(2,3) show ?thesis by (simp add: loading_def all_threads_def same_settings_def)
  qed
qed (simp add: same_settings_def)

lemma start_sampler_threads:
  assumes "start_sampler host s n ts = Inr (Some (x, ts'))"
  shows "ts' = ts @ sampler_threads n x"
  using assms unfolding start_sampler_def Let_def
  by (auto simp: rbind_Inr_iff run_worker_threads_def spawn_def statsd_threads_def secure_threads_def dest: spawn_all_threads split: if_splits)

lemma load_samplers_loading:
  "load_samplers host ss d = Inr d' \<Longrightarrow> loading host tinv d \<Longrightarrow>
   loading host tinv d' \<and> dm_server d' = dm_server d \<and> same_settings d d'"
proof (induction ss arbitrary: d)
  case (Cons s ss)
  from Cons.prems(1) obtain r where r: "start_sampler host s (length (dm_samplers d)) (dm_threads d) = Inr r"
    by (auto simp: rbind_Inr_iff)
  show ?case
  proof (cases r)
    case None
    with r Cons.prems(1) have "load_samplers host ss (splunk (''sampler='' @ shown (json_type host s) @ '' event=invalid_sampler'') d) = Inr d'"
      by simp
    from Cons.IH [OF this] Cons.prems(2) show ?thesis by (simp add: loading_def all_threads_def same_settings_def)
  next
    case (Some xt)
    obtain x ts where xt: "xt = (x, ts)" by force
    with r Some Cons.prems(1) have l: "load_samplers host ss (d\<lparr>dm_samplers := dm_samplers d @ [x], dm_threads := ts\<rparr>) = Inr d'"
      "length (dm_samplers d) < max_backends" by (simp_all split: if_splits)
    have "ts = dm_threads d @ sampler_threads (length (dm_samplers d)) x"
      using r Some xt by (simp add: start_sampler_threads)
    with Cons.IH [OF l(1)] Cons.prems(2) l(2) show ?thesis
      by (simp add: loading_def all_threads_def samplers_threads_snoc same_settings_def)
  qed
qed (simp add: same_settings_def)

lemma start_http_log:
  assumes "start_http host http d = Inr d'"
  shows "\<exists>l. d' = d\<lparr>dm_log := l\<rparr>"
proof (cases http)
  case None
  then have "d' = d\<lparr>dm_log := dm_log d\<rparr>" using assms by (simp add: start_http_def)
  then show ?thesis ..
qed (use assms in \<open>auto simp: start_http_def brubeck_http_endpoint_init_def Let_def rbind_Inr_iff splunk_def split: if_splits\<close>)

lemma load_config_loading:
  assumes ck: "ck_table (h_ck host) tinv" and l: "load_config host path fds fdu lg pt = Inr d"
  shows "loading host tinv d \<and> config_name d = get_config_name path \<and> dm_title d = pt"
proof -
  from l obtain name dump ht sz bs ss http fd d1 d2 d3 where
    ht: "ck_init (h_ck host) sz = Some ht"
    and d1: "load_backends host bs (zero_daemon name dump path fds fdu ht lg pt) = Inr d1"
    and d2: "load_samplers host ss d1 = Inr d2"
    and d3: "start_http host http d2 = Inr d3"
    and d: "d = d3\<lparr>fd_expire := fd\<rparr>"
    by (auto simp: load_config_def Let_def rbind_Inr_iff brubeck_hashtable_new_def split: option.splits)
  from d3 obtain l where d3': "d3 = d2\<lparr>dm_log := l\<rparr>"
    using start_http_log by blast
  have "loading host tinv (zero_daemon name dump path fds fdu ht lg pt)"
    using ck_table.init_tinv [OF ck ht] ck_table.init_empty [OF ck ht]
    by (simp add: loading_def fresh_def zero_daemon_def all_threads_def slab_init_inv zero_stats_def)
  with load_backends_loading [OF d1] have "loading host tinv d1" "same_settings (zero_daemon name dump path fds fdu ht lg pt) d1"
    by (simp_all add: zero_daemon_def)
  with load_samplers_loading [OF d2, of tinv] show ?thesis
    by (simp add: d d3' loading_def all_threads_def same_settings_def zero_daemon_def)
qed

lemma server_init_daemon_ok:
  assumes ck: "ck_table (h_ck host) tinv" and run: "brubeck_server_init host path lg pt = Inr d"
    and name: "length (srv_name (dm_server d)) \<le> 4031"
  shows "daemon_ok host tinv d \<and> config_name d = get_config_name path \<and> dm_title d = pt
    \<and> keys_of (h_ck host) (dm_server d) = {srv_name (dm_server d)}
    \<and> (\<exists>be\<in>set (srv_backends (dm_server d)). stat_freq (srv_stats (dm_server d)) = be_sample_freq be)"
proof -
  from run obtain fds fdu d1 s where d1: "load_config host path fds fdu lg pt = Inr d1"
    and s: "brubeck_internal_init (h_ck host) (dm_server d1) = Inr s" and d: "d = d1\<lparr>dm_server := s\<rparr>"
    by (auto simp: brubeck_server_init_def rbind_Inr_iff)
  note L = load_config_loading [OF ck d1]
  let ?s = "dm_server d1"
  have fr: "fresh host tinv ?s" using L by (simp add: loading_def)
  show ?thesis
  proof (cases "length (srv_name ?s) \<le> 4031")
    case True
    then have sk: "short_key (srv_name ?s)" by (simp add: short_key_def)
    note none = fresh_find [OF ck fr sk]
    have "srv_backends ?s \<noteq> []"
      using internal_init_no_backend [OF ck _ _ _ _ none True] s fr by (auto simp: fresh_def)
    note reg = fresh_registry [OF ck fr this]
    obtain s' p be where s': "brubeck_internal_init (h_ck host) ?s = Inr s'" "registry_ok (h_ck host) tinv s'"
      "\<forall>j. short_key j \<longrightarrow> find_str (h_ck host) (srv_metrics s') j = (if j = srv_name ?s then Some p else find_str (h_ck host) (srv_metrics ?s) j)"
      "be \<in> set (srv_backends s')" "stat_freq (srv_stats s') = be_sample_freq be"
      "srv_name s' = srv_name ?s" "length (srv_backends s') = length (srv_backends ?s)" "at_capacity s' = at_capacity ?s"
      by (rule internal_init_total [OF ck reg none True]) blast
    then have eq: "s' = s" using s by simp
    have "keys_of (h_ck host) s = {srv_name s}"
      using s'(3,6) fresh_find [OF ck fr] sk by (auto simp: keys_of_def eq split: if_splits)
    with L s'(2,4-8) fr show ?thesis by (auto simp: d eq daemon_ok_def loading_def all_threads_def fresh_def)
  qed (use name internal_init_name [OF s] d in auto)
qed

text \<open>The ninth backend of a configuration is stored behind the array.\<close>

lemma ninth_backend_overflows:
  assumes "length (srv_backends (dm_server d)) = max_backends" "json_type host b = Some ''carbon''"
    "brubeck_carbon_new (h_json host) (h_resolve host) (h_net host max_backends) (h_pickle_mem host max_backends) b (int max_backends) = Inr (be, ops, c)"
    "h_spawn host (BackendThread max_backends)"
  shows "load_backends host (b # bs) d = Inl OutOfBounds"
  using assms by (simp add: Let_def brubeck_backend_run_threaded_def spawn_def)

text \<open>The name of the configuration is the file name without its directory and its last extension.\<close>

lemma strrchr_last: "c \<notin> set t \<Longrightarrow> strrchr (s @ c # t) c = Some (c # t)"
proof -
  assume "c \<notin> set t"
  then have "takeWhile (\<lambda>x. x \<noteq> c) (rev t @ c # rev s) = rev t" by (subst takeWhile_append2) auto
  then show ?thesis by (simp add: strrchr_def)
qed

lemma get_config_name_base:
  assumes "CHR ''/'' \<notin> set (base @ ext)" "CHR ''.'' \<notin> set ext"
  shows "get_config_name (dir @ CHR ''/'' # base @ CHR ''.'' # ext) = base"
proof -
  have "strrchr (dir @ CHR ''/'' # (base @ CHR ''.'' # ext)) (CHR ''/'') = Some (CHR ''/'' # base @ CHR ''.'' # ext)"
    using assms(1) by (intro strrchr_last) auto
  with strrchr_last [OF assms(2), of base] show ?thesis by (simp add: get_config_name_def)
qed

section \<open>Properties\<close>

text \<open>
  C14. A daemon that starts is consistent: the registry holds exactly the server's own metric, at one
  to eight backends and at most eight samplers, whose threads, and no others, run; the sampling
  period of the internal statistics is that of a backend.
\<close>

theorem server_init_ok:
  assumes "ck_table (h_ck host) tinv" "brubeck_server_init host path lg pt = Inr d" "length (srv_name (dm_server d)) \<le> 4031"
  shows "daemon_ok host tinv d \<and> config_name d = get_config_name path
    \<and> keys_of (h_ck host) (dm_server d) = {srv_name (dm_server d)}
    \<and> (\<exists>be\<in>set (srv_backends (dm_server d)). stat_freq (srv_stats (dm_server d)) = be_sample_freq be)"
  using server_init_daemon_ok [OF assms] by blast

fun demo_get :: "json \<Rightarrow> string \<Rightarrow> json option" where
  "demo_get (JObject kvs) k = map_of kvs k"
| "demo_get _ k = None"

definition demo_json :: "json jansson" where
  "demo_json = \<lparr>j_get = demo_get, j_string = (\<lambda>j. case j of JString s \<Rightarrow> Some s | _ \<Rightarrow> None),
     j_int = (\<lambda>j. case j of JInt i \<Rightarrow> Some i | _ \<Rightarrow> None), j_bool = (\<lambda>j. case j of JBool b \<Rightarrow> Some b | _ \<Rightarrow> None),
     j_iter = (\<lambda>j. case j of JObject kvs \<Rightarrow> kvs | _ \<Rightarrow> []), j_elems = (\<lambda>j. case j of JArray xs \<Rightarrow> xs | _ \<Rightarrow> [])\<rparr>"

definition demo_config :: json where
  "demo_config = JObject [(''dumpfile'', JString ''d''), (''capacity'', JInt 4),
     (''backends'', JArray [JObject [(''type'', JString ''carbon''), (''address'', JString ''a''), (''port'', JInt 2003), (''frequency'', JInt 10)]]),
     (''samplers'', JArray [JObject [(''type'', JString ''statsd''), (''address'', JString ''a''), (''port'', JInt 8126), (''workers'', JInt 1)]])]"

definition demo_host :: "((string \<times> slab_ptr) list, json) host" where
  "demo_host = \<lparr>h_ck = list_ck, h_json = demo_json, h_load = (\<lambda>p. Some demo_config),
     h_resolve = (\<lambda>u. Some [\<lparr>ai_family = AF_INET, ai_addrlen = 16, ai_addr = \<lparr>sin_family = AF_INET, sin_port = 0, sin_addr = 0\<rparr>\<rparr>]),
     h_sock = (\<lambda>n. \<lparr>k_socket = 5, k_setopt = (\<lambda>fd opt. True), k_bind = (\<lambda>fd a. True)\<rparr>),
     h_net = (\<lambda>n. c_net demo_carbon), h_sampler_mem = (\<lambda>n. idle_sampler), h_pickle_mem = (\<lambda>n. []), h_libm_log = (\<lambda>x. x),
     h_spawn = (\<lambda>t. True), h_timerfd = (\<lambda>i. 4), h_settime = (\<lambda>i. True), h_sigmask = True, h_signalfd = 3, h_web = demo_env,
     h_environ_malloc = True, h_environ_strdup = (\<lambda>n. True), h_fopen_log = (\<lambda>n. True), h_fopen_dump = (\<lambda>p. True)\<rparr>"

lemma demo_loads:
  "\<exists>d. load_config demo_host path 3 4 lg pt = Inr d \<and> srv_backends (dm_server d) \<noteq> [] \<and> srv_name (dm_server d) = ''brubeck''"
  by (simp add: load_config_def demo_host_def demo_json_def demo_config_def unpack_def unpack_opt_def table_size_def
      brubeck_hashtable_new_def list_ck_def json_type_def brubeck_carbon_new_def url_to_inaddr2_def zero_daemon_def
      brubeck_backend_run_threaded_def spawn_def start_sampler_def brubeck_statsd_new_def brubeck_sampler_init_inet_def
      brubeck_sampler_socket_def sock_enlarge_in_def sock_setreuse_def run_worker_threads_def start_http_def Let_def)

lemma demo_starts:
  "\<exists>d. brubeck_server_init demo_host path lg pt = Inr d \<and> srv_name (dm_server d) = ''brubeck''"
proof -
  have ck: "ck_table (h_ck demo_host) list_inv" using list_table.ck_table_axioms by (simp add: demo_host_def)
  obtain d where d: "load_config demo_host path 3 4 lg pt = Inr d" "srv_backends (dm_server d) \<noteq> []" "srv_name (dm_server d) = ''brubeck''"
    using demo_loads by blast
  have fr: "fresh demo_host list_inv (dm_server d)" using load_config_loading [OF ck d(1)] by (simp add: loading_def)
  have n: "length (srv_name (dm_server d)) \<le> 4031" "short_key (srv_name (dm_server d))" using d(3) by (simp_all add: short_key_def)
  obtain s where "brubeck_internal_init (h_ck demo_host) (dm_server d) = Inr s"
    by (rule internal_init_total [OF ck fresh_registry [OF ck fr d(2)] fresh_find [OF ck fr n(2)] n(1)])
  moreover from this have "srv_name s = ''brubeck''" using internal_init_name d(3) by metis
  ultimately show ?thesis
    using d(1) by (simp add: brubeck_server_init_def load_signalfd_def load_timerfd_def demo_host_def)
qed

theorem server_init_ok_witness:
  "\<exists>d. brubeck_server_init demo_host ''etc/b.json'' log_zero (dm_title demo_daemon) = Inr d \<and> daemon_ok demo_host list_inv d
     \<and> config_name d = ''b''"
proof -
  obtain d where d: "brubeck_server_init demo_host ''etc/b.json'' log_zero (dm_title demo_daemon) = Inr d"
    "srv_name (dm_server d) = ''brubeck''" using demo_starts by blast
  have ck: "ck_table (h_ck demo_host) list_inv" using list_table.ck_table_axioms by (simp add: demo_host_def)
  have "get_config_name ''etc/b.json'' = ''b''" by (simp add: get_config_name_def strrchr_def)
  with server_init_ok [OF ck d(1)] d show ?thesis by simp
qed

text \<open>
  The main loop ends exactly when a SIGINT or SIGTERM has been read completely: it goes on over
  failed polls, short reads, other signals and timers without failing; when it ends, it has asked
  every thread it created to end, each once, and the registry is consistent.
\<close>

theorem server_run_stops:
  assumes "ck_table (h_ck host) tinv" "daemon_ok host tinv d" "title_ok d"
  shows "if \<exists>ev\<in>set evs. stops ev
    then \<exists>d'. brubeck_server_run host evs d = Inr (d', 0) \<and> dm_threads d' = dm_threads d \<and> dm_threads d' = all_threads d' \<and> dm_cancelled d' = dm_threads d'
      \<and> \<not> running d' \<and> registry_ok (h_ck host) tinv (dm_server d')
    else brubeck_server_run host evs d = Inl Blocked"
  by (rule server_run_ends [OF assms])

definition sigterm :: "wakeup option" where
  "sigterm = Some \<lparr>woken = [True, True, False], read_signal = (128, SIGTERM), read_update = 8, read_expire = 0\<rparr>"

theorem server_run_stops_witness:
  "(\<exists>d'. brubeck_server_run demo_host [None, sigterm] demo_daemon = Inr (d', 0) \<and> dm_cancelled d' = [BackendThread 0, WorkerThread 0 0])
   \<and> brubeck_server_run demo_host [None] demo_daemon = Inl Blocked"
proof -
  have ck: "ck_table (h_ck demo_host) list_inv" using list_table.ck_table_axioms by (simp add: demo_host_def)
  have r: "registry_ok (h_ck demo_host) list_inv (dm_server demo_daemon)" using demo_daemon_ok by (simp add: demo_host_def)
  have d: "daemon_ok demo_host list_inv demo_daemon"
    unfolding daemon_ok_def by (intro conjI r) (simp_all add: demo_daemon_def one_backend_def all_threads_def statsd_threads_def)
  have t: "title_ok demo_daemon" by (simp add: title_ok_def title_ready_def demo_daemon_def)
  show ?thesis
    using server_run_stops [OF ck d t, of "[None, sigterm]"] server_run_stops [OF ck d t, of "[None]"]
    by (auto simp: stops_def sigterm_def demo_daemon_def)
qed

end
