(* ===== verification/System.thy ===== *)
theory System
  imports Server
begin

text \<open>
  The daemon as a whole: the main loop, the workers of the samplers, the threads of the backends and
  the HTTP endpoint take turns on the shared state. A step is one turn of one of them, and the
  turns come in any order. The turns are those of the component theories; the spin lock of a
  metric, the lock of the table and the compare-and-swap of the queues are what makes them atomic
  for each other's data.
\<close>

section \<open>Steps\<close>

text \<open>
  The packets the daemon is meant for: a line's key fits its slab page, and the first line
  does not start with a colon.
\<close>

definition benign :: "(double \<Rightarrow> double \<Rightarrow> double) \<Rightarrow> string \<Rightarrow> bool" where
  "benign pw p \<longleftrightarrow> no_colon p \<and> (\<forall>l\<in>set (split_lines p). \<forall>msg. line_msg pw l = Some msg \<longrightarrow> length (msg_key msg) \<le> 4031)"

fun benign_event :: "(double \<Rightarrow> double \<Rightarrow> double) \<Rightarrow> recv_event \<Rightarrow> bool" where
  "benign_event pw (RecvData p) \<longleftrightarrow> benign pw (take (MAX_PACKET_SIZE - 1) p)"
| "benign_event pw _ \<longleftrightarrow> True"

fun benign_events :: "(double \<Rightarrow> double \<Rightarrow> double) \<Rightarrow> mmsg_event \<Rightarrow> nat \<Rightarrow> bool" where
  "benign_events pw (MmsgData ps) n \<longleftrightarrow> length ps \<le> n \<and> (\<forall>p\<in>set ps. benign pw (take (MAX_PACKET_SIZE - 1) p))"
| "benign_events pw _ n \<longleftrightarrow> True"

fun benign_secure :: "(double \<Rightarrow> double \<Rightarrow> double) \<Rightarrow> recv_event \<Rightarrow> bool" where
  "benign_secure pw (RecvData p) \<longleftrightarrow>
     (let p = take (SECURE_PACKET_SIZE - 1) p
      in starts_ok (take MIN_PACKET_SIZE p) (drop MIN_PACKET_SIZE p) \<and> benign pw (drop MIN_PACKET_SIZE p))"
| "benign_secure pw _ \<longleftrightarrow> True"

text \<open>
  The system: the shared state of the daemon, and the packet buffers that each receiving thread
  has for itself. A thread takes its turn on the kernel's answer to its blocking call; the kernel
  fills at most the slots it is given.
\<close>

datatype worker_mem = Buffer string | Slots "slot list"

record 'h system =
  sys_daemon :: "'h daemon"
  sys_mem :: "thread \<Rightarrow> worker_mem"

inductive daemon_step :: "('h, 'j) host \<Rightarrow> (double \<Rightarrow> double \<Rightarrow> double) \<Rightarrow> (string \<Rightarrow> string \<Rightarrow> string) \<Rightarrow> 'h system \<Rightarrow> 'h system \<Rightarrow> bool"
  for host pw hmac where
  receive_one: "\<lbrakk>i < length (dm_samplers d); dm_samplers d ! i = Statsd st; t \<in> set (sampler_threads i (Statsd st));
     mem t = Buffer buffer; benign_event pw ev;
     recvmsg_turn pw (h_ck host) ev (buffer, st_sampler st, dm_server d) = Inr (buffer', smp, s)\<rbrakk>
   \<Longrightarrow> daemon_step host pw hmac \<lparr>sys_daemon = d, sys_mem = mem\<rparr>
         \<lparr>sys_daemon = d\<lparr>dm_samplers := (dm_samplers d)[i := Statsd (st\<lparr>st_sampler := smp\<rparr>)], dm_server := s\<rparr>, sys_mem = mem(t := Buffer buffer')\<rparr>"
| receive_many: "\<lbrakk>i < length (dm_samplers d); dm_samplers d ! i = Statsd st; t \<in> set (sampler_threads i (Statsd st));
     mem t = Slots slots; benign_events pw ev (length slots);
     recvmmsg_turn pw (h_ck host) ev (slots, st_sampler st, dm_server d) = Inr (slots', smp, s)\<rbrakk>
   \<Longrightarrow> daemon_step host pw hmac \<lparr>sys_daemon = d, sys_mem = mem\<rparr>
         \<lparr>sys_daemon = d\<lparr>dm_samplers := (dm_samplers d)[i := Statsd (st\<lparr>st_sampler := smp\<rparr>)], dm_server := s\<rparr>, sys_mem = mem(t := Slots slots')\<rparr>"
| receive_secure: "\<lbrakk>i < length (dm_samplers d); dm_samplers d ! i = Secure sec; t \<in> set (sampler_threads i (Secure sec));
     mem t = Buffer buffer; benign_secure pw ev;
     secure_turn pw (h_ck host) hmac now ev (buffer, sec, dm_server d) = Inr (buffer', sec', s)\<rbrakk>
   \<Longrightarrow> daemon_step host pw hmac \<lparr>sys_daemon = d, sys_mem = mem\<rparr>
         \<lparr>sys_daemon = d\<lparr>dm_samplers := (dm_samplers d)[i := Secure sec'], dm_server := s\<rparr>, sys_mem = mem(t := Buffer buffer')\<rparr>"
| sample: "\<lbrakk>i < length (dm_carbons d); dm_carbons d ! i = (ops, c);
     backend_thread_turn ops now (srv_backends (dm_server d) ! i) (srv_heap (dm_server d)) (srv_stats (dm_server d)) c
       = Inr (be, heap, stats, c')\<rbrakk>
   \<Longrightarrow> daemon_step host pw hmac \<lparr>sys_daemon = d, sys_mem = mem\<rparr>
         \<lparr>sys_daemon = d\<lparr>dm_carbons := (dm_carbons d)[i := (ops, c')],
            dm_server := (dm_server d)\<lparr>srv_backends := (srv_backends (dm_server d))[i := be], srv_stats := stats, srv_heap := heap\<rparr>\<rparr>, sys_mem = mem\<rparr>"
| main_loop: "\<lbrakk>running d; server_turn host ev d = Inr d'\<rbrakk>
   \<Longrightarrow> daemon_step host pw hmac \<lparr>sys_daemon = d, sys_mem = mem\<rparr> \<lparr>sys_daemon = d', sys_mem = mem\<rparr>"
| request: "\<lbrakk>NUL \<notin> set url; length url < 2 ^ 16; handle_request (h_web host) (h_ck host) d url meth = Inr (r, d')\<rbrakk>
   \<Longrightarrow> daemon_step host pw hmac \<lparr>sys_daemon = d, sys_mem = mem\<rparr> \<lparr>sys_daemon = d', sys_mem = mem\<rparr>"

inductive_cases daemon_stepE: "daemon_step host pw hmac sy sy'"

text \<open>The memory of a receiving thread, and the system at its start, on fresh memory \<open>fresh_mem\<close>.\<close>

fun thread_mem_ok :: "sampler \<Rightarrow> worker_mem \<Rightarrow> bool" where
  "thread_mem_ok (Statsd st) (Slots slots) \<longleftrightarrow> list_all slot_ok slots \<and> length slots = unat (mmsg_count st)"
| "thread_mem_ok (Statsd st) (Buffer b) \<longleftrightarrow> length b = MAX_PACKET_SIZE"
| "thread_mem_ok (Secure sec) (Buffer b) \<longleftrightarrow> length b = SECURE_PACKET_SIZE"
| "thread_mem_ok (Secure sec) (Slots slots) \<longleftrightarrow> False"

fun thread_mem :: "(nat \<Rightarrow> string) \<Rightarrow> sampler \<Rightarrow> worker_mem" where
  "thread_mem mem (Statsd st) = (if mmsg_count st > 1 then Slots (recvmmsg_slots mem st) else Buffer (mem 0))"
| "thread_mem mem (Secure sec) = Buffer (mem 0)"

fun sampler_of :: "thread \<Rightarrow> nat" where
  "sampler_of (WorkerThread i j) = i"
| "sampler_of (SecureThread i) = i"
| "sampler_of (BackendThread i) = i"

definition start_system :: "(thread \<Rightarrow> nat \<Rightarrow> string) \<Rightarrow> 'h daemon \<Rightarrow> 'h system" where
  "start_system fresh_mem d =
     \<lparr>sys_daemon = d\<lparr>running := True\<rparr>, sys_mem = (\<lambda>t. thread_mem (fresh_mem t) (dm_samplers d ! sampler_of t))\<rparr>"

definition mem_ok :: "sampler list \<Rightarrow> (thread \<Rightarrow> worker_mem) \<Rightarrow> bool" where
  "mem_ok ss mem \<longleftrightarrow> (\<forall>i<length ss. \<forall>t\<in>set (sampler_threads i (ss ! i)). thread_mem_ok (ss ! i) (mem t))"

definition system_ok :: "('h, 'j) host \<Rightarrow> ('h \<Rightarrow> bool) \<Rightarrow> 'h system \<Rightarrow> bool" where
  "system_ok host tinv sy \<longleftrightarrow> daemon_ok host tinv (sys_daemon sy) \<and> title_ok (sys_daemon sy) \<and> mem_ok (dm_samplers (sys_daemon sy)) (sys_mem sy)"

section \<open>Samplers\<close>

lemma metric_new_length:
  assumes "brubeck_metric_new ck s k t = Inr (r, s')"
  shows "length (srv_backends s') = length (srv_backends s)"
proof -
  from assms obtain p s1 where p: "new_metric s k t = Inr (p, s1)" unfolding brubeck_metric_new_def rbind_Inr_iff by auto
  then have "srv_backends s1 = srv_backends s" unfolding new_metric_def rbind_Inr_iff by (auto split: if_splits)
  moreover obtain ht okb where "brubeck_hashtable_insert ck (srv_metrics s1) k (word_of_nat (length k)) p = (ht, okb)" by force
  ultimately show ?thesis
    using assms p unfolding brubeck_metric_new_def by (auto simp: Let_def rbind_Inr_iff register_metric_def split: if_splits)
qed

lemma metric_find_length:
  "brubeck_metric_find ck s k t = Inr (r, s') \<Longrightarrow> length (srv_backends s') = length (srv_backends s)"
  by (auto simp: brubeck_metric_find_def metric_new_length split: option.splits if_splits)

lemma handle_msg_length:
  assumes "handle_msg ck r s = Inr s'"
  shows "length (srv_backends s') = length (srv_backends s)"
proof (cases r)
  case None
  then show ?thesis using assms by (auto simp: handle_msg_def)
next
  case (Some msg)
  let ?s = "s\<lparr>srv_stats := brubeck_stats_inc Metrics (srv_stats s)\<rparr>"
  from assms Some obtain q s1 where f: "brubeck_metric_find ck ?s (msg_key msg) (msg_type msg) = Inr (q, s1)"
    by (auto simp: handle_msg_def record_msg_def Let_def rbind_Inr_iff)
  with assms Some metric_find_length [OF f] show ?thesis
    by (auto simp: handle_msg_def record_msg_def Let_def rbind_Inr_iff split: option.splits)
qed

lemma handle_lines_length: "handle_lines pw ck ls s = Inr s' \<Longrightarrow> length (srv_backends s') = length (srv_backends s)"
  by (induction ls arbitrary: s) (auto simp: rbind_Inr_iff dest!: handle_msg_length)

text \<open>The part of the invariant that concerns the registry.\<close>

definition core_ok :: "('h, slab_ptr) ck_ht \<Rightarrow> ('h \<Rightarrow> bool) \<Rightarrow> nat \<Rightarrow> 'h brubeck_server \<Rightarrow> bool" where
  "core_ok ck tinv n s \<longleftrightarrow> registry_ok ck tinv s \<and> \<not> at_capacity s \<and> length (srv_backends s) = n"

lemma handle_lines_core:
  assumes "ck_table ck tinv" "core_ok ck tinv n s" "handle_lines pw ck ls s = Inr s'"
    "\<forall>l\<in>set ls. \<forall>msg. line_msg pw l = Some msg \<longrightarrow> length (msg_key msg) \<le> 4031"
  shows "core_ok ck tinv n s'"
  using handle_lines_refines [OF assms(1) _ _ assms(4), of s] assms(2,3) handle_lines_length [OF assms(3)]
  by (auto simp: core_ok_def refines_def split: sum.splits)

lemma count_core: "core_ok ck tinv n s \<Longrightarrow> st \<noteq> UniqueKeys \<Longrightarrow> core_ok ck tinv n (count_stat st s)"
  by (simp add: core_ok_def count_stat_def inc_ok)

lemma errors_core: "core_ok ck tinv n s \<Longrightarrow> core_ok ck tinv n ((count_error ^^ k) s)"
  by (induction k) (simp_all add: core_ok_def count_error_def inc_ok)

lemma recvmsg_core:
  assumes "ck_table ck tinv" "core_ok ck tinv n s" "length buffer = MAX_PACKET_SIZE" "benign_event pw ev"
    "recvmsg_turn pw ck ev (buffer, smp, s) = Inr (buffer', smp', s')"
  shows "core_ok ck tinv n s'" "length buffer' = MAX_PACKET_SIZE"
proof -
  have "\<forall>p\<in>set (packets [ev]). no_colon p"
    using assms(4) by (cases ev) (auto simp: packets_def map_filter_simps benign_def no_colon_def take_Cons' split: if_splits)
  from recvmsg_turn_event [OF assms(3) this, of pw ck smp s] assms(5)
  have h: "handle_event pw ck ev s = Inr s'" "length buffer' = MAX_PACKET_SIZE" by (cases "handle_event pw ck ev s"; auto)+
  show "core_ok ck tinv n s'"
  proof (cases ev)
    case (RecvData p)
    with h assms(4) handle_lines_core [OF assms(1,2)] show ?thesis
      by (auto simp: handle_event_def datagram_lines_def benign_def)
  next
    case RecvAgain
    with h assms(2) show ?thesis by (simp add: handle_event_def)
  next
    case RecvFailed
    with h errors_core [OF assms(2), of 1] show ?thesis by (simp add: handle_event_def)
  qed
  show "length buffer' = MAX_PACKET_SIZE" by (rule h(2))
qed

lemma recvmmsg_core:
  assumes "ck_table ck tinv" "core_ok ck tinv n s" "list_all slot_ok slots" "benign_events pw ev (length slots)"
    "recvmmsg_turn pw ck ev (slots, smp, s) = Inr (slots', smp', s')"
  shows "core_ok ck tinv n s' \<and> list_all slot_ok slots' \<and> length slots' = length slots"
proof (cases ev)
  case (MmsgData ps)
  have nc: "\<forall>p\<in>set ps. no_colon p" and len: "length ps \<le> length slots"
    using assms(4) MmsgData by (auto simp: benign_def no_colon_def take_Cons' split: if_splits)
  have "\<forall>l\<in>set (concat (map datagram_lines ps)). \<forall>msg. line_msg pw l = Some msg \<longrightarrow> length (msg_key msg) \<le> 4031"
    using assms(4) MmsgData by (auto simp: benign_def datagram_lines_def)
  note core = handle_lines_core [OF assms(1,2) _ this]
  obtain slots1 where s1: "list_all slot_ok slots1" "length slots1 = length slots"
    "\<forall>s. parse_slots pw ck (fill_slots ps slots) s =
      rbind (handle_lines pw ck (concat (map datagram_lines ps)) s) (\<lambda>s. Inr (slots1, (count_error ^^ stale ps slots) s))"
    using parse_slots_lines [OF assms(3) nc len, of pw ck] by blast
  with assms(5) MmsgData obtain s2 where "handle_lines pw ck (concat (map datagram_lines ps)) s = Inr s2"
    "s' = (count_error ^^ stale ps slots) s2" "slots' = slots1"
    by (auto simp: recvmmsg_turn_def Let_def rbind_Inr_iff)
  with core errors_core s1(1,2) show ?thesis by blast
next
  case MmsgAgain
  with assms(2,3,5) show ?thesis by (simp add: recvmmsg_turn_def)
next
  case MmsgFailed
  with assms(3,5) errors_core [OF assms(2), of 1] show ?thesis by (auto simp: recvmmsg_turn_def)
qed

lemma verify_token_server:
  "verify_token now b s st = Inr (s', st', ok) \<Longrightarrow> s' = s \<or> (\<exists>x. x \<noteq> UniqueKeys \<and> s' = count_stat x s)"
  by (auto simp: verify_token_def Let_def rbind_Inr_iff split: if_splits prod.splits)

lemma secure_turn_length:
  assumes "length buffer = SECURE_PACKET_SIZE" "secure_turn pw ck hmac now ev (buffer, sec, s) = Inr (buffer', sec', s')"
  shows "length buffer' = SECURE_PACKET_SIZE"
proof (cases ev)
  case (RecvData p)
  obtain b n where b: "receive (SECURE_PACKET_SIZE - 1) buffer p = (b, n)" by force
  then have "length b = SECURE_PACKET_SIZE" using assms(1) by (auto simp: receive_def Let_def)
  with assms(2) RecvData b show ?thesis
    by (auto simp: secure_turn_def Let_def rbind_Inr_iff dest: packet_loop_length split: if_splits)
qed (use assms in \<open>simp_all add: secure_turn_def\<close>)

lemma secure_core:
  assumes ck: "ck_table ck tinv" and core: "core_ok ck tinv n s" and len: "length buffer = SECURE_PACKET_SIZE"
    and hm: "\<forall>k m. length (hmac k m) = SHA_SIZE" and ev: "benign_secure pw ev"
    and t: "secure_turn pw ck hmac now ev (buffer, sec, s) = Inr (buffer', sec', s')"
  shows "core_ok ck tinv n s'"
proof (cases ev)
  case (RecvData p)
  define p' where "p' = take (SECURE_PACKET_SIZE - 1) p"
  have p': "starts_ok (take MIN_PACKET_SIZE p') (drop MIN_PACKET_SIZE p')" "benign pw (drop MIN_PACKET_SIZE p')"
    using ev [unfolded RecvData benign_secure.simps Let_def] unfolding p'_def by blast+
  have sp: "secure_spec pw ck hmac now p' (inflow_inc sec) s = Inr (sec', s')"
    using secure_turn_spec [OF len hm p'_def p'(1), of pw ck now sec s] t RecvData by simp
  show ?thesis
  proof (cases "length p' < MIN_PACKET_SIZE \<or> take SHA_SIZE p' \<noteq> hmac (hmac_key (inflow_inc sec)) (drop SHA_SIZE p')")
    case True
    with sp have "s' = count_stat Failed s" by (auto simp: secure_spec_def split: if_splits)
    with count_core [OF core, of Failed] show ?thesis by simp
  next
    case False
    with sp obtain s1 st1 ok where v: "verify_token now p' s (inflow_inc sec) = Inr (s1, st1, ok)"
      "(if ok then rbind (handle_lines pw ck (split_lines (drop MIN_PACKET_SIZE p')) s1) (\<lambda>s. Inr (st1, s)) else Inr (st1, s1)) = Inr (sec', s')"
      by (auto simp: secure_spec_def rbind_Inr_iff)
    have s1: "core_ok ck tinv n s1" using verify_token_server [OF v(1)] core count_core by blast
    show ?thesis
    proof (cases ok)
      case True
      with v(2) have "handle_lines pw ck (split_lines (drop MIN_PACKET_SIZE p')) s1 = Inr s'" by (auto simp: rbind_Inr_iff)
      with handle_lines_core [OF ck s1] p'(2) show ?thesis by (auto simp: benign_def)
    qed (use v(2) s1 in auto)
  qed
next
  case RecvAgain
  with t core show ?thesis by (simp add: secure_turn_def)
next
  case RecvFailed
  with t count_core [OF core, of Errors] show ?thesis by (auto simp: secure_turn_def)
qed

section \<open>Backends\<close>

text \<open>Sampling a metric keeps its key, its well-formedness and the number of unique keys.\<close>

lemma metric_sample_kept:
  assumes "brubeck_metric_sample fr stats m = Inr (es, stats', m')"
  shows "m_key m' = m_key m" "m_key_len m' = m_key_len m"
    "m_expire m' = m_expire m \<or> m_expire m' = BRUBECK_EXPIRE_ACTIVE" "m_type m = MT_INTERNAL_STATS \<Longrightarrow> as_other m"
  using assms
  by (auto simp: brubeck_metric_sample_def gauge_sample_def meter_sample_def counter_sample_def histogram_sample_def
      brubeck_internal_sample_def rbind_Inr_iff Let_def split: brubeck_metric_t.splits if_splits)

lemma metric_sample_keeps:
  assumes "brubeck_metric_sample fr stats m = Inr (es, stats', m')"
  shows "keeps m m'"
proof -
  note k = metric_sample_kept [OF assms]
  have "wf_metric m'" if w: "wf_metric m"
  proof -
    have "metric_ok m" using w k(4) by (simp add: wf_metric_def metric_ok_def)
    with metric_sample_total [of m fr stats] assms have "metric_ok m'" by auto
    with w k(3) show ?thesis by (auto simp: wf_metric_def metric_ok_def)
  qed
  with k(1,2) show ?thesis by (simp add: keeps_def)
qed

lemma internal_loop_unique:
  "internal_loop room m xs stats = Inr (es, stats') \<Longrightarrow> get_stat UniqueKeys (st_live stats') = get_stat UniqueKeys (st_live stats)"
proof (induction xs arbitrary: stats es)
  case (Cons x xs)
  obtain st suffix where x: "x = (st, suffix)" by (cases x)
  obtain v stats1 where t: "take_stat st stats = (v, stats1)" by force
  then have "get_stat UniqueKeys (st_live stats1) = get_stat UniqueKeys (st_live stats)" by (auto simp: take_stat_def Let_def)
  with Cons t x show ?case by (auto simp: rbind_Inr_iff)
qed simp

lemma metric_sample_unique:
  assumes "brubeck_metric_sample fr stats m = Inr (es, stats', m')"
  shows "get_stat UniqueKeys (st_live stats') = get_stat UniqueKeys (st_live stats)"
proof (cases "m_type m = MT_INTERNAL_STATS")
  case True
  with assms show ?thesis
    by (auto simp: brubeck_metric_sample_def brubeck_internal_sample_def rbind_Inr_iff Let_def dest: internal_loop_unique split: if_splits)
next
  case False
  with assms have "stats' = stats"
    by (auto simp: brubeck_metric_sample_def gauge_sample_def meter_sample_def counter_sample_def rbind_Inr_iff split: brubeck_metric_t.splits)
  then show ?thesis by simp
qed

lemma collect_keeps:
  "collect fr q heap stats = Inr (es, heap', stats') \<Longrightarrow>
   same_keys heap heap' \<and> get_stat UniqueKeys (st_live stats') = get_stat UniqueKeys (st_live stats)"
proof (induction q arbitrary: heap stats es)
  case (Cons p q)
  from Cons.prems obtain m where m: "heap p = Some m" by (auto split: option.splits)
  show ?case
  proof (cases "m_expire m > BRUBECK_EXPIRE_DISABLED")
    case True
    with Cons.prems m obtain es1 stats1 m1 es2 where
      s: "brubeck_metric_sample fr stats m = Inr (es1, stats1, m1)" "collect fr q (heap(p \<mapsto> m1)) stats1 = Inr (es2, heap', stats')"
      by (auto simp: rbind_Inr_iff)
    have "same_keys heap (heap(p \<mapsto> m1))" by (rule same_keys_upd [where m = m]) (use m metric_sample_keeps [OF s(1)] in simp_all)
    with Cons.IH [OF s(2)] same_keys_trans metric_sample_unique [OF s(1)] show ?thesis by metis
  qed (use Cons m in simp)
qed simp

lemma backend_turn_keeps:
  assumes "backend_thread_turn ops now be heap stats c = Inr (be', heap', stats', c')"
  shows "be_queue be' = be_queue be" "same_keys heap heap'"
    "get_stat UniqueKeys (st_live stats') = get_stat UniqueKeys (st_live stats)"
proof -
  from assms obtain c1 r where c1: "op_connect ops c = Inr (c1, r)" by (auto simp: backend_thread_turn_def rbind_Inr_iff)
  have "be_queue be' = be_queue be \<and> same_keys heap heap' \<and> get_stat UniqueKeys (st_live stats') = get_stat UniqueKeys (st_live stats)"
  proof (cases "r = 0")
    case False
    with assms c1 show ?thesis by (simp add: backend_thread_turn_def)
  next
    case True
    with assms c1 obtain c2 where "sample_queue ops (be\<lparr>be_tick_time := now\<rparr>) (be_queue be) heap stats c1 = Inr (heap', stats', c2)"
      "be' = be\<lparr>be_tick_time := now\<rparr>"
      by (auto simp: backend_thread_turn_def Let_def rbind_Inr_iff split: option.splits)
    then show ?thesis unfolding sample_queue_iff using collect_keeps by auto
  qed
  then show "be_queue be' = be_queue be" "same_keys heap heap'"
    "get_stat UniqueKeys (st_live stats') = get_stat UniqueKeys (st_live stats)" by blast+
qed

lemma registry_ok_backends:
  assumes ok: "registry_ok ck tinv s" and b: "map be_queue bs = map be_queue (srv_backends s)"
    and u: "n_unique_keys (st_live st) = n_unique_keys (st_live (srv_stats s))"
  shows "registry_ok ck tinv (s\<lparr>srv_backends := bs, srv_stats := st\<rparr>)"
proof -
  let ?s = "s\<lparr>srv_backends := bs, srv_stats := st\<rparr>"
  have len: "length bs = length (srv_backends s)" using arg_cong [OF b, of length] by simp
  have sh: "brubeck_metric_shard ?s = brubeck_metric_shard s" by (rule ext, rule shard_cong) (simp_all add: len)
  have q: "be_queue (bs ! i) = be_queue (srv_backends s ! i)" if "i < length (srv_backends s)" for i
    using arg_cong [OF b, of "\<lambda>xs. xs ! i"] that len by simp
  have qd: "queued ?s = queued s" by (simp add: queued_def b)
  have ne: "bs \<noteq> []" using registry_okD(3) [OF ok] len by auto
  have lt: "i < length (srv_backends s)" if "brubeck_metric_shard s m = Inr i" for m i
    using that by (auto simp: brubeck_metric_shard_def rbind_Inr_iff split: if_splits)
  have "(\<exists>i. brubeck_metric_shard s m = Inr i \<and> p \<in> set (be_queue (bs ! i)))"
    if "\<exists>i. brubeck_metric_shard s m = Inr i \<and> p \<in> set (be_queue (srv_backends s ! i))" for m p
    using that q lt by metis
  then show ?thesis
    using ok ne unfolding registry_ok_def sh qd by (simp add: u del: split_paired_All split_paired_Ex) metis
qed

section \<open>The invariant\<close>

lemma samplers_threads_update:
  "i < length ss \<Longrightarrow> (\<And>n. sampler_threads n x = sampler_threads n (ss ! i)) \<Longrightarrow>
   samplers_threads n (ss[i := x]) = samplers_threads n ss"
proof (induction ss arbitrary: i n)
  case (Cons s ss)
  then show ?case by (cases i) simp_all
qed simp

lemma sampler_step_ok:
  assumes "daemon_ok host tinv d" "title_ok d" "i < length (dm_samplers d)"
    "\<And>n. sampler_threads n x = sampler_threads n (dm_samplers d ! i)"
    "core_ok (h_ck host) tinv (length (srv_backends (dm_server d))) s"
  shows "daemon_ok host tinv (d\<lparr>dm_samplers := (dm_samplers d)[i := x], dm_server := s\<rparr>)
    \<and> title_ok (d\<lparr>dm_samplers := (dm_samplers d)[i := x], dm_server := s\<rparr>)"
  using assms samplers_threads_update [OF assms(3), of x 0]
  by (simp add: daemon_ok_def title_ok_def core_ok_def all_threads_def)

lemma sample_step_ok:
  assumes ok: "daemon_ok host tinv d" "title_ok d" and i: "i < length (dm_carbons d)"
    and t: "backend_thread_turn ops now (srv_backends (dm_server d) ! i) (srv_heap (dm_server d)) (srv_stats (dm_server d)) c
       = Inr (be, heap, stats, c')"
  defines "d' \<equiv> d\<lparr>dm_carbons := (dm_carbons d)[i := (ops, c')],
         dm_server := (dm_server d)\<lparr>srv_backends := (srv_backends (dm_server d))[i := be], srv_stats := stats, srv_heap := heap\<rparr>\<rparr>"
  shows "daemon_ok host tinv d' \<and> title_ok d'"
proof -
  let ?s = "dm_server d"
  note k = backend_turn_keeps [OF t]
  have ok': "registry_ok (h_ck host) tinv ?s" "i < length (srv_backends ?s)" using ok(1) i by (simp_all add: daemon_ok_def)
  have "map be_queue ((srv_backends ?s)[i := be]) = map be_queue (srv_backends ?s)"
    using k(1) ok'(2) by (simp add: map_update list_update_same_conv)
  from registry_ok_backends [OF ok'(1) this, of stats] k(3)
  have "registry_ok (h_ck host) tinv (?s\<lparr>srv_backends := (srv_backends ?s)[i := be], srv_stats := stats\<rparr>)"
    by (simp add: get_stat.simps)
  from heap_ok [OF this, of heap] k(2)
  have "registry_ok (h_ck host) tinv (?s\<lparr>srv_backends := (srv_backends ?s)[i := be], srv_stats := stats, srv_heap := heap\<rparr>)" by simp
  with ok show ?thesis by (simp add: d'_def daemon_ok_def title_ok_def all_threads_def)
qed

lemma request_ok:
  assumes ok: "daemon_ok host tinv d" "title_ok d" and u: "NUL \<notin> set url" "length url < 2 ^ 16"
    and r: "handle_request (h_web host) (h_ck host) d url meth = Inr (r, d')"
  shows "daemon_ok host tinv d' \<and> title_ok d'"
proof -
  have reg: "registry_ok (h_ck host) tinv (dm_server d)" using ok(1) by (simp add: daemon_ok_def)
  show ?thesis
  proof (cases "meth = ''POST''")
    case True
    with handle_post [OF reg u, of "h_web host"] r have
      d': "d' = (case named (h_ck host) d ''/expire/'' url of None \<Rightarrow> d | Some p \<Rightarrow> disable p d)" by auto
    show ?thesis
    proof (cases "named (h_ck host) d ''/expire/'' url")
      case (Some p)
      with disable_ok [OF reg u(2) Some] ok d' show ?thesis
        by (simp add: disable_def daemon_ok_def title_ok_def all_threads_def)
    qed (use d' ok in simp)
  next
    case False
    then have "d' = d" using r by (auto simp: handle_request_def rbind_Inr_iff split: if_splits)
    with ok show ?thesis by simp
  qed
qed

text \<open>The memory of the threads depends on the kind of their sampler only.\<close>

fun same_kind :: "sampler \<Rightarrow> sampler \<Rightarrow> bool" where
  "same_kind (Statsd a) (Statsd b) \<longleftrightarrow> mmsg_count a = mmsg_count b \<and> worker_count a = worker_count b"
| "same_kind (Secure a) (Secure b) \<longleftrightarrow> True"
| "same_kind _ _ \<longleftrightarrow> False"

lemma same_kindD:
  assumes "same_kind a b"
  shows "sampler_threads n a = sampler_threads n b" "thread_mem_ok a m = thread_mem_ok b m"
  using assms by (cases a; cases b; cases m; simp add: statsd_threads_def secure_threads_def)+

lemma same_kind_refl [simp]: "same_kind a a" "same_kind a (upd_common f a)" "same_kind (upd_common f a) a"
  by (cases a; simp)+

lemma mem_ok_kinds:
  assumes "list_all2 same_kind ss ss'" "mem_ok ss mem"
  shows "mem_ok ss' mem"
  unfolding mem_ok_def
proof (intro allI impI ballI)
  fix i t assume i: "i < length ss'" and t: "t \<in> set (sampler_threads i (ss' ! i))"
  have "i < length ss" "same_kind (ss ! i) (ss' ! i)" using assms(1) i by (simp_all add: list_all2_conv_all_nth)
  with assms(2) t show "thread_mem_ok (ss' ! i) (mem t)" using same_kindD [of "ss ! i" "ss' ! i"] by (auto simp: mem_ok_def)
qed

lemma sampler_of_thread: "t \<in> set (sampler_threads n s) \<Longrightarrow> sampler_of t = n"
  by (cases s) (auto simp: statsd_threads_def secure_threads_def)

lemma mem_ok_turn:
  assumes "mem_ok ss mem" "i < length ss" "same_kind (ss ! i) x" "t \<in> set (sampler_threads i (ss ! i))" "thread_mem_ok (ss ! i) m"
  shows "mem_ok (ss[i := x]) (mem(t := m))"
proof -
  have "mem_ok ss (mem(t := m))" unfolding mem_ok_def
  proof (intro allI impI ballI)
    fix j u assume j: "j < length ss" "u \<in> set (sampler_threads j (ss ! j))"
    show "thread_mem_ok (ss ! j) ((mem(t := m)) u)"
      using assms(1,4,5) j sampler_of_thread [OF assms(4)] sampler_of_thread [OF j(2)] by (cases "u = t") (auto simp: mem_ok_def)
  qed
  moreover have "list_all2 same_kind ss (ss[i := x])"
    using assms(2,3) by (simp add: list_all2_conv_all_nth nth_list_update)
  ultimately show ?thesis using mem_ok_kinds by blast
qed

lemma handle_signal_samplers: "handle_signal host signo d = Inr d' \<Longrightarrow> dm_samplers d' = dm_samplers d"
  by (auto simp: handle_signal_def dump_all_metrics_def Let_def rbind_Inr_iff splunk_def split: if_splits option.splits)

lemma update_proctitle_samplers: "update_proctitle d = Inr d' \<Longrightarrow> dm_samplers d' = dm_samplers d"
  by (auto simp: update_proctitle_def rbind_Inr_iff)

lemma server_turn_kinds:
  assumes "server_turn host ev d = Inr d'"
  shows "list_all2 same_kind (dm_samplers d) (dm_samplers d')"
proof (cases ev)
  case None
  with assms show ?thesis by (simp add: server_turn_def list.rel_refl)
next
  case (Some w)
  define fds where "fds = poll (woken w) (server_fds d)"
  from assms obtain d1 d2 where d1: "handle_signal host (signal_triggered (fds ! 0) (read_signal w)) d = Inr d1"
    and d2: "(if timer_elapsed (fds ! 1) (read_update w) then update_proctitle (update_flows d1) else Inr d1) = Inr d2"
    and d3: "(if timer_elapsed (fds ! 2) (read_expire w) then rbind (expire_metrics (h_ck host) (dm_server d2))
        (\<lambda>s. Inr ((splunk ''event=expire_metrics'' d2)\<lparr>dm_server := s\<rparr>)) else Inr d2) = Inr d'"
    unfolding server_turn_def Some option.case Let_def fds_def [symmetric] rbind_Inr_iff by blast
  have d': "dm_samplers d' = dm_samplers d2" using d3 by (auto simp: rbind_Inr_iff split: if_splits)
  have "dm_samplers d2 = dm_samplers d1 \<or> dm_samplers d2 = dm_samplers (update_flows d1)"
    using d2 update_proctitle_samplers by (auto split: if_splits)
  then show ?thesis
    using handle_signal_samplers [OF d1] d' by (auto simp: update_flows_def list.rel_refl list.rel_map)
qed

lemma request_samplers: "handle_request env ck d url meth = Inr (r, d') \<Longrightarrow> dm_samplers d' = dm_samplers d"
  by (auto simp: handle_request_def http_expire_metric_def rbind_Inr_iff split: if_splits option.splits)

lemma turn_ok:
  assumes ok: "daemon_ok host tinv d" "title_ok d" "mem_ok (dm_samplers d) mem"
    and i: "i < length (dm_samplers d)" "same_kind (dm_samplers d ! i) x" "t \<in> set (sampler_threads i (dm_samplers d ! i))"
      "thread_mem_ok (dm_samplers d ! i) m"
    and s: "core_ok (h_ck host) tinv (length (srv_backends (dm_server d))) s"
  shows "system_ok host tinv \<lparr>sys_daemon = d\<lparr>dm_samplers := (dm_samplers d)[i := x], dm_server := s\<rparr>, sys_mem = mem(t := m)\<rparr>"
  using sampler_step_ok [OF ok(1,2) i(1) _ s, of x] same_kindD(1) [OF i(2)] mem_ok_turn [OF ok(3) i] by (simp add: system_ok_def)

lemma daemon_step_ok:
  assumes ck: "ck_table (h_ck host) tinv" and hm: "\<forall>k m. length (hmac k m) = SHA_SIZE"
    and st: "daemon_step host pw hmac sy sy'" and ok: "system_ok host tinv sy"
  shows "system_ok host tinv sy'"
proof -
  note ok = ok [unfolded system_ok_def]
  have core: "core_ok (h_ck host) tinv (length (srv_backends (dm_server (sys_daemon sy)))) (dm_server (sys_daemon sy))"
    using ok by (simp add: daemon_ok_def core_ok_def)
  from st show ?thesis
  proof cases
    case (receive_one i d sd t mem buffer ev buffer' smp s)
    then have len: "length buffer = MAX_PACKET_SIZE" using ok by (force simp: mem_ok_def)
    from recvmsg_core [OF ck core len receive_one(7)] receive_one ok show ?thesis
      by (auto intro!: turn_ok)
  next
    case (receive_many i d sd t mem slots ev slots' smp s)
    then have sl: "list_all slot_ok slots \<and> length slots = unat (mmsg_count sd)" using ok by (force simp: mem_ok_def)
    from recvmmsg_core [OF ck core conjunct1 [OF sl] receive_many(7)] receive_many ok sl show ?thesis
      by (auto intro!: turn_ok)
  next
    case (receive_secure i d sec t mem buffer ev now buffer' sec' s)
    then have len: "length buffer = SECURE_PACKET_SIZE" using ok by (force simp: mem_ok_def)
    from secure_core [OF ck core len hm receive_secure(7)] secure_turn_length [OF len] receive_secure ok show ?thesis
      by (auto intro!: turn_ok)
  next
    case (sample i d ops c now be heap stats c' mem)
    then show ?thesis using sample_step_ok [of host tinv d i ops now c be heap stats c'] ok by (simp add: system_ok_def)
  next
    case (main_loop d ev d' mem)
    with server_turn_total [OF ck, of d ev] server_turn_kinds [of host ev d d'] mem_ok_kinds ok show ?thesis
      by (auto simp: system_ok_def)
  next
    case (request url d meth r d' mem)
    with request_ok [of host tinv d url meth r d'] request_samplers [of "h_web host" "h_ck host" d url meth r d'] ok show ?thesis by (simp add: system_ok_def)
  qed
qed

lemma daemon_steps_ok:
  assumes "(daemon_step host pw hmac)\<^sup>*\<^sup>* sy sy'" "ck_table (h_ck host) tinv" "\<forall>k m. length (hmac k m) = SHA_SIZE" "system_ok host tinv sy"
  shows "system_ok host tinv sy'"
proof -
  have "inv_system (daemon_step host pw hmac) (system_ok host tinv)"
    by (rule inv_system.intro) (rule daemon_step_ok [OF assms(2,3)])
  from inv_system.run_keeps [OF this assms(1,4)] show ?thesis .
qed

lemma start_system_ok:
  assumes "daemon_ok host tinv d" "title_ok d" "\<forall>i j n. length (fresh_mem (WorkerThread i j) n) = MAX_PACKET_SIZE"
    "\<forall>i n. length (fresh_mem (SecureThread i) n) = SECURE_PACKET_SIZE"
  shows "system_ok host tinv (start_system fresh_mem d)"
proof -
  have "thread_mem_ok (dm_samplers d ! i) (thread_mem (fresh_mem t) (dm_samplers d ! sampler_of t))"
    if "t \<in> set (sampler_threads i (dm_samplers d ! i))" for i t
  proof (cases "dm_samplers d ! i")
    case (Statsd st)
    with that obtain j where t: "t = WorkerThread i j" by (auto simp: statsd_threads_def)
    with Statsd recvmmsg_slots_ok [of "fresh_mem t" st] assms(3) show ?thesis by (simp add: recvmmsg_slots_def)
  next
    case (Secure sec)
    with that assms(4) show ?thesis by (auto simp: secure_threads_def)
  qed
  then have "mem_ok (dm_samplers d) (sys_mem (start_system fresh_mem d))" by (simp add: mem_ok_def start_system_def)
  with assms(1,2) show ?thesis by (simp add: system_ok_def start_system_def daemon_ok_def title_ok_def all_threads_def)
qed

section \<open>From a datagram to a backend\<close>

text \<open>A meter in the queue is reported once with its value, and starts again from zero.\<close>

lemma collect_meter:
  assumes "collect fr q heap stats = Inr (es, heap', stats')" "distinct q" "p \<in> set q" "heap p = Some m"
    "m_type m = MT_METER" "m_expire m > BRUBECK_EXPIRE_DISABLED"
  shows "\<exists>es1 es2. es = es1 @ (cstr (m_key m), as_value m) # es2 \<and> heap' p = Some (m\<lparr>as_value := 0\<rparr>)"
  using assms
proof (induction q arbitrary: heap stats es)
  case (Cons mt q)
  have other: "heap' p = heap p" if "collect fr q heap stats = Inr (es, heap', stats')" "p \<notin> set q" for heap stats es
    using that
  proof (induction q arbitrary: heap stats es)
    case (Cons mt q)
    then show ?case by (fastforce simp: rbind_Inr_iff split: option.splits if_splits)
  qed simp
  show ?case
  proof (cases "mt = p")
    case True
    with Cons.prems obtain es2 where "collect fr q (heap(p \<mapsto> m\<lparr>as_value := 0\<rparr>)) stats = Inr (es2, heap', stats')"
      "es = (cstr (m_key m), as_value m) # es2"
      by (auto simp: rbind_Inr_iff brubeck_metric_sample_def meter_sample_def)
    with other [of "heap(p \<mapsto> m\<lparr>as_value := 0\<rparr>)"] True Cons.prems(2) show ?thesis by (auto intro: exI [of _ "[]"])
  next
    case False
    from Cons.prems(1) obtain m1 where m1: "heap mt = Some m1" by (auto split: option.splits)
    show ?thesis
    proof (cases "m_expire m1 > BRUBECK_EXPIRE_DISABLED")
      case True
      with Cons.prems(1) m1 obtain es1 stats1 m2 es2 where
        s: "collect fr q (heap(mt \<mapsto> m2)) stats1 = Inr (es2, heap', stats')" "es = es1 @ es2"
        by (auto simp: rbind_Inr_iff)
      from Cons.IH [OF s(1)] Cons.prems(2-) False obtain a b where
        "es2 = a @ (cstr (m_key m), as_value m) # b" "heap' p = Some (m\<lparr>as_value := 0\<rparr>)" by auto
      with s(2) show ?thesis by (intro exI [of _ "es1 @ a"] exI [of _ b]) simp
    next
      case disabled: False
      with Cons m1 False show ?thesis by simp
    qed
  qed
qed simp

text \<open>A meter after a datagram with one more value for it.\<close>

lemma meter_text_recorded:
  assumes ck: "ck_table ck tinv" and ok: "registry_ok ck tinv s" "\<not> at_capacity s"
    and key: "plain_key key" "key \<noteq> []" "length key \<le> 4031" "LF \<notin> set key"
    and len: "length (statsd_text key [] n MT_METER None) < MAX_PACKET_SIZE" "length buffer = MAX_PACKET_SIZE"
    and n: "a + n < 2 ^ 53"
    and old: "case view ck s key of None \<Rightarrow> a = 0 | Some m \<Rightarrow> m_type m = MT_METER \<and> as_value m = d_of_nat a"
  shows "\<exists>buffer' smp' s' m. recvmsg_turn pw ck (RecvData (statsd_text key [] n MT_METER None)) (buffer, smp, s) = Inr (buffer', smp', s')
    \<and> registry_ok ck tinv s' \<and> view ck s' = (view ck s)(key \<mapsto> m) \<and> m_type m = MT_METER \<and> m_expire m = BRUBECK_EXPIRE_ACTIVE
    \<and> as_value m = d_of_nat (a + n) \<and> length (srv_backends s') = length (srv_backends s)"
proof -
  let ?p = "statsd_text key [] n MT_METER None"
  define m0 where "m0 = (case view ck s key of None \<Rightarrow> blank_metric key MT_METER | Some m \<Rightarrow> m\<lparr>m_expire := BRUBECK_EXPIRE_ACTIVE\<rparr>)"
  have m0: "m_type m0 = MT_METER" "m_expire m0 = BRUBECK_EXPIRE_ACTIVE" "as_value m0 = d_of_nat a"
    using old by (auto simp: m0_def blank_metric_def d_of_nat_0 split: option.splits)
  have msg: "line_msg pw ?p = text_msg pw key [] n MT_METER None" by (rule line_msg_text) (use key(1) n in auto)
  have "LF \<notin> set (dec n)" using dec_digits [of n] by (auto simp: is_digit_def)
  moreover have "hd key \<noteq> CHR '':''" using key(1) hd_in_set [OF key(2)] by (auto simp: plain_key_def)
  ultimately have lf: "LF \<notin> set ?p" "?p \<noteq> []" "no_colon ?p"
    using key(2,4) by (simp_all add: statsd_text_def no_colon_def hd_append)
  then have ls: "datagram_lines ?p = [?p]" using len(1) by (simp add: datagram_lines_def split_lines_simps)
  have "dmul (d_of_nat n) (d_of_nat 1) = d_of_nat (n * 1)" by (rule dmul_of_nat) (use n in simp_all)
  then have "brubeck_metric_record m0 (d_of_nat n) (d_of_nat 1) 0 = Inr (m0\<lparr>as_value := d_of_nat (a + n)\<rparr>)"
    using dadd_of_nat [OF n] m0 by (simp add: brubeck_metric_record_def meter_record_def)
  then have sp: "spec_lines pw [?p] (view ck s) = Inr ((view ck s)(key \<mapsto> m0\<lparr>as_value := d_of_nat (a + n)\<rparr>))"
    by (cases "view ck s key") (simp_all add: msg text_msg_def spec_msg_def Let_def m0_def)
  have "refines ck tinv 1 0 s (handle_lines pw ck [?p] s) (spec_lines pw [?p] (view ck s))"
    using handle_lines_refines [OF ck ok, of "[?p]" pw] key(3) by (simp add: msg text_msg_def)
  then obtain s' where s': "handle_lines pw ck [?p] s = Inr s'" "registry_ok ck tinv s'"
    "view ck s' = (view ck s)(key \<mapsto> m0\<lparr>as_value := d_of_nat (a + n)\<rparr>)" unfolding sp by (auto simp: refines_def)
  have "\<forall>d\<in>set (packets [RecvData ?p]). no_colon d" using lf(3) by (simp add: packets_def map_filter_simps)
  from recvmsg_turn_event [OF len(2) this, of pw ck smp s] s'(1) obtain b' f where
    "recvmsg_turn pw ck (RecvData ?p) (buffer, smp, s) = Inr (b', f, s')" by (auto simp: handle_event_def ls)
  with s'(2,3) m0 handle_lines_length [OF s'(1)] show ?thesis
    by (intro exI [of _ b'] exI [of _ f] exI [of _ s'] exI [of _ "m0\<lparr>as_value := d_of_nat (a + n)\<rparr>"]) simp
qed

lemma shard_hash:
  assumes "wf_metric m" "brubeck_metric_shard s m = Inr i"
  shows "\<exists>h. CityHash32 (m_key m @ [NUL]) (word_of_nat (length (m_key m))) = Inr h \<and> i = unat h mod length (srv_backends s)"
proof -
  have k: "length (m_key m) = unat (m_key_len m)" using assms(1) by (simp add: wf_metric_def)
  then have u: "(ucast (m_key_len m) :: u64) = word_of_nat (length (m_key m))" by simp
  have "length (m_key m) < 2 ^ 64" using k unsigned_less [of "m_key_len m", where ?'a = nat] by simp
  then obtain h where h: "CityHash32 (m_key m @ [NUL]) (word_of_nat (length (m_key m))) = Inr h"
    using CityHash32_prefix [of "m_key m"] by blast
  show ?thesis
  proof (cases "1 < length (srv_backends s)")
    case True
    with assms(2) h u show ?thesis by (auto simp: brubeck_metric_shard_def split: if_splits)
  next
    case False
    then have "srv_backends s \<noteq> []" "i = 0" using assms(2) by (auto simp: brubeck_metric_shard_def split: if_splits)
    moreover from this have "length (srv_backends s) = 1" using False by (simp add: le_antisym Suc_leI)
    ultimately have "length (srv_backends s) = 1" "i = 0" by simp_all
    with h show ?thesis by simp
  qed
qed

lemma view_queued:
  assumes "registry_ok ck tinv s" "view ck s key = Some m"
  shows "\<exists>i p h. i < length (srv_backends s) \<and> CityHash32 (key @ [NUL]) (word_of_nat (length key)) = Inr h
    \<and> i = unat h mod length (srv_backends s)
    \<and> p \<in> set (be_queue (srv_backends s ! i)) \<and> distinct (be_queue (srv_backends s ! i))
    \<and> srv_heap s p = Some m \<and> m_key m = key \<and> find_str ck (srv_metrics s) key = Some p \<and> short_key key"
proof -
  from assms(2) obtain p where p: "short_key key" "find_str ck (srv_metrics s) key = Some p" "srv_heap s p = Some m"
    by (auto simp: view_def bind_eq_Some_conv split: if_splits)
  from registry_okD(9) [OF assms(1) p(1,2)] p(3) obtain i where
    i: "m_key m = key" "brubeck_metric_shard s m = Inr i" "p \<in> set (be_queue (srv_backends s ! i))" by auto
  have lt: "i < length (srv_backends s)" using i(2) by (auto simp: brubeck_metric_shard_def rbind_Inr_iff split: if_splits)
  have "distinct (be_queue (srv_backends s ! i))"
    using registry_okD(6) [OF assms(1)] lt by (auto simp: queued_def distinct_concat_iff)
  with p i lt shard_hash [OF registry_okD(5) [OF assms(1) p(3)] i(2)] show ?thesis by blast
qed

text \<open>The queue of a backend can be sampled when the metrics of all keys can.\<close>

lemma view_collects:
  assumes "registry_ok ck tinv s" "i < length (srv_backends s)" "\<forall>k m. view ck s k = Some m \<longrightarrow> metric_ok m"
  shows "\<exists>es heap stats. collect (be_sample_freq (srv_backends s ! i)) (be_queue (srv_backends s ! i)) (srv_heap s) (srv_stats s)
    = Inr (es, heap, stats)"
proof -
  let ?be = "srv_backends s ! i"
  have "\<exists>m. srv_heap s p = Some m \<and> metric_ok m" if "p \<in> set (be_queue ?be)" for p
  proof -
    have "p \<in> set (queued s)" using that assms(2) by (auto simp: queued_def)
    then obtain k where k: "short_key k" "find_str ck (srv_metrics s) k = Some p" using registry_okD(7) [OF assms(1)] by blast
    then obtain m where m: "srv_heap s p = Some m" using registry_okD(9) [OF assms(1)] by blast
    then have "view ck s k = Some m" using k by (simp add: view_def)
    with m assms(3) show ?thesis by blast
  qed
  then show ?thesis using collect_total [of "be_queue ?be" "srv_heap s"] by (metis prod_cases3)
qed

end
