(* ===== verification/Expiry.thy ===== *)
theory Expiry
  imports System
begin

text \<open>
  The life of a metric between two rounds of the pruner (\<^verbatim>\<open>expire_metric\<close> of \<^verbatim>\<open>src/server.c\<close>): lookups by
  the samplers (\<^verbatim>\<open>brubeck_metric_find\<close> of \<^verbatim>\<open>src/metric.c\<close>) and samplings by the backend threads come in
  any order. A lookup makes a metric active again; sampling does so for the internal metric alone
  (\<^verbatim>\<open>brubeck_internal__sample\<close> of \<^verbatim>\<open>src/internal_sampler.c\<close>).
\<close>

section \<open>Model\<close>

text \<open>What happens to the registry between the rounds; \<open>SampledBy i\<close> is a sampling of the queue of backend \<open>i\<close>.\<close>

datatype life_event = LookedUp string brubeck_metric_t | SampledBy nat

fun life_step :: "('h, slab_ptr) ck_ht \<Rightarrow> life_event \<Rightarrow> 'h brubeck_server \<Rightarrow> 'h brubeck_server res" where
  "life_step ck (LookedUp key t) s = rbind (brubeck_metric_find ck s key t) (\<lambda>(_, s). Inr s)"
| "life_step ck (SampledBy i) s =
     (let be = srv_backends s ! i in
      rbind (collect (be_sample_freq be) (be_queue be) (srv_heap s) (srv_stats s)) (\<lambda>(_, heap, stats).
        Inr (s\<lparr>srv_stats := stats, srv_heap := heap\<rparr>)))"

fun life_run :: "('h, slab_ptr) ck_ht \<Rightarrow> life_event list \<Rightarrow> 'h brubeck_server \<Rightarrow> 'h brubeck_server res" where
  "life_run ck [] s = Inr s"
| "life_run ck (ev # evs) s = rbind (life_step ck ev s) (life_run ck evs)"

fun event_ok :: "nat \<Rightarrow> life_event \<Rightarrow> bool" where
  "event_ok n (LookedUp key t) \<longleftrightarrow> length key \<le> 4031 \<and> t \<noteq> MT_INTERNAL_STATS"
| "event_ok n (SampledBy i) \<longleftrightarrow> i < n"

text \<open>What an event makes of the state of expiry \<open>x\<close> of the metric \<open>key\<close>, of kind \<open>t\<close> and in the shard \<open>i\<close>.\<close>

fun revive :: "string \<Rightarrow> brubeck_metric_t \<Rightarrow> nat \<Rightarrow> life_event \<Rightarrow> u8 \<Rightarrow> u8" where
  "revive key t i (LookedUp k _) x = (if k = key then BRUBECK_EXPIRE_ACTIVE else x)"
| "revive key t i (SampledBy j) x =
     (if t = MT_INTERNAL_STATS \<and> j = i \<and> x \<noteq> BRUBECK_EXPIRE_DISABLED then BRUBECK_EXPIRE_ACTIVE else x)"

section \<open>Sampling a queue\<close>

lemma collect_other: "collect fr q heap stats = Inr (es, heap', stats') \<Longrightarrow> p \<notin> set q \<Longrightarrow> heap' p = heap p"
proof (induction q arbitrary: heap stats es)
  case (Cons mt q)
  then show ?case by (fastforce simp: rbind_Inr_iff split: option.splits if_splits)
qed simp

lemma sample_expire:
  assumes "brubeck_metric_sample fr stats m = Inr (es, stats', m')"
  shows "m_type m' = m_type m" "m_expire m' = (if m_type m = MT_INTERNAL_STATS then BRUBECK_EXPIRE_ACTIVE else m_expire m)"
  using assms
  by (auto simp: brubeck_metric_sample_def gauge_sample_def meter_sample_def counter_sample_def histogram_sample_def
      brubeck_internal_sample_def rbind_Inr_iff Let_def split: brubeck_metric_t.splits if_splits)

lemma collect_expire:
  assumes "collect fr q heap stats = Inr (es, heap', stats')" "distinct q" "p \<in> set q" "heap p = Some m"
  shows "\<exists>m'. heap' p = Some m' \<and> m_type m' = m_type m \<and> keeps m m'
    \<and> m_expire m' = (if m_type m = MT_INTERNAL_STATS \<and> m_expire m \<noteq> 0 then BRUBECK_EXPIRE_ACTIVE else m_expire m)"
  using assms
proof (induction q arbitrary: heap stats es)
  case (Cons mt q)
  from Cons.prems(1) obtain m1 where m1: "heap mt = Some m1" by (auto split: option.splits)
  show ?case
  proof (cases "m_expire m1 > BRUBECK_EXPIRE_DISABLED")
    case True
    with Cons.prems(1) m1 obtain es1 stats1 m2 es2 where
      s: "brubeck_metric_sample fr stats m1 = Inr (es1, stats1, m2)" "collect fr q (heap(mt \<mapsto> m2)) stats1 = Inr (es2, heap', stats')"
      by (auto simp: rbind_Inr_iff)
    show ?thesis
    proof (cases "mt = p")
      case p: True
      then have "m1 = m" "p \<notin> set q" using m1 Cons.prems(2,4) by auto
      with collect_other [OF s(2), of p] p have "heap' p = Some m2" by simp
      with sample_expire [OF s(1)] metric_sample_keeps [OF s(1)] True \<open>m1 = m\<close> show ?thesis by auto
    next
      case False
      with Cons.IH [OF s(2)] Cons.prems(2-4) show ?thesis by auto
    qed
  next
    case dis: False
    then have z: "m_expire m1 = 0" by (simp add: word_neq_0_conv [symmetric])
    from Cons.prems(1) m1 dis have c: "collect fr q heap stats = Inr (es, heap', stats')" by simp
    show ?thesis
    proof (cases "mt = p")
      case p: True
      then have "m1 = m" "p \<notin> set q" using m1 Cons.prems(2,4) by auto
      with collect_other [OF c, of p] z Cons.prems(4) show ?thesis by simp
    next
      case False
      with Cons.IH [OF c] Cons.prems(2-4) show ?thesis by auto
    qed
  qed
qed simp

lemma collect_disabled:
  assumes "collect fr q heap stats = Inr (es, heap', stats')" "heap p = Some m" "m_expire m = BRUBECK_EXPIRE_DISABLED"
  shows "heap' p = Some m"
  using assms
proof (induction q arbitrary: heap stats es)
  case (Cons mt q)
  from Cons.prems(1) obtain m1 where m1: "heap mt = Some m1" by (auto split: option.splits)
  show ?case
  proof (cases "m_expire m1 > BRUBECK_EXPIRE_DISABLED")
    case True
    with Cons.prems(1) m1 obtain es1 stats1 m2 es2 where s: "collect fr q (heap(mt \<mapsto> m2)) stats1 = Inr (es2, heap', stats')"
      by (auto simp: rbind_Inr_iff)
    have "mt \<noteq> p" using True m1 Cons.prems(2,3) by auto
    with Cons.IH [OF s] Cons.prems(2,3) show ?thesis by simp
  qed (use Cons m1 in auto)
qed simp

lemma collect_metrics_ok:
  "collect fr q heap stats = Inr (es, heap', stats') \<Longrightarrow> \<forall>p\<in>A. \<forall>m. heap p = Some m \<longrightarrow> metric_ok m \<Longrightarrow> set q \<subseteq> A \<Longrightarrow>
   \<forall>p\<in>A. \<forall>m. heap' p = Some m \<longrightarrow> metric_ok m"
proof (induction q arbitrary: heap stats es)
  case (Cons mt q)
  from Cons.prems(1) obtain m1 where m1: "heap mt = Some m1" by (auto split: option.splits)
  show ?case
  proof (cases "m_expire m1 > BRUBECK_EXPIRE_DISABLED")
    case True
    with Cons.prems(1) m1 obtain es1 stats1 m2 es2 where
      s: "brubeck_metric_sample fr stats m1 = Inr (es1, stats1, m2)" "collect fr q (heap(mt \<mapsto> m2)) stats1 = Inr (es2, heap', stats')"
      by (auto simp: rbind_Inr_iff)
    have "metric_ok m1" using Cons.prems(2,3) m1 by auto
    with metric_sample_total [of m1 fr stats] s(1) have "metric_ok m2" by auto
    then have "\<forall>p\<in>A. \<forall>m. (heap(mt \<mapsto> m2)) p = Some m \<longrightarrow> metric_ok m" using Cons.prems(2) by (simp del: split_paired_All)
    with Cons.IH [OF s(2)] Cons.prems(3) show ?thesis by (simp del: split_paired_All)
  next
    case False
    with Cons.prems(1) m1 have "collect fr q heap stats = Inr (es, heap', stats')" by simp
    from Cons.IH [OF this Cons.prems(2)] Cons.prems(3) show ?thesis by (simp del: split_paired_All)
  qed
qed (simp del: split_paired_All)

section \<open>A metric between the rounds\<close>

text \<open>The registry, with metrics that can all be sampled, and the metric that is followed.\<close>

definition intact :: "('h, slab_ptr) ck_ht \<Rightarrow> ('h \<Rightarrow> bool) \<Rightarrow> nat \<Rightarrow> 'h brubeck_server \<Rightarrow> bool" where
  "intact ck tinv n s \<longleftrightarrow> registry_ok ck tinv s \<and> \<not> at_capacity s \<and> length (srv_backends s) = n
     \<and> (\<forall>p\<in>set (queued s). \<forall>m. srv_heap s p = Some m \<longrightarrow> metric_ok m)"

definition follows :: "('h, slab_ptr) ck_ht \<Rightarrow> 'h brubeck_server \<Rightarrow> string \<Rightarrow> slab_ptr \<Rightarrow> brubeck_metric_t \<Rightarrow> nat \<Rightarrow> u8 \<Rightarrow> bool" where
  "follows ck s key p t i x \<longleftrightarrow> find_str ck (srv_metrics s) key = Some p
     \<and> (\<exists>m. srv_heap s p = Some m \<and> m_type m = t \<and> m_expire m = x \<and> brubeck_metric_shard s m = Inr i)"

lemma in_queued: "i < length (srv_backends s) \<Longrightarrow> p \<in> set (be_queue (srv_backends s ! i)) \<Longrightarrow> p \<in> set (queued s)"
  by (auto simp: queued_def)

lemma concat_place:
  "distinct (concat xss) \<Longrightarrow> i < length xss \<Longrightarrow> j < length xss \<Longrightarrow> x \<in> set (xss ! i) \<Longrightarrow> x \<in> set (xss ! j) \<Longrightarrow> i = j"
proof (induction xss arbitrary: i j)
  case (Cons xs xss)
  have "x \<in> set (xss ! k) \<Longrightarrow> k < length xss \<Longrightarrow> x \<in> set (concat xss)" for k by auto
  with Cons show ?case by (cases i; cases j) auto
qed simp

lemma follows_queued:
  assumes "registry_ok ck tinv s" "short_key key" "follows ck s key p t i x"
  shows "i < length (srv_backends s)" "p \<in> set (be_queue (srv_backends s ! i))" "p \<in> set (queued s)"
proof -
  from assms(3) obtain m where m: "find_str ck (srv_metrics s) key = Some p" "srv_heap s p = Some m" "brubeck_metric_shard s m = Inr i"
    by (auto simp: follows_def)
  show "i < length (srv_backends s)" using m(3) by (auto simp: brubeck_metric_shard_def rbind_Inr_iff split: if_splits)
  moreover show "p \<in> set (be_queue (srv_backends s ! i))" using registry_okD(9) [OF assms(1,2) m(1)] m(2,3) by auto
  ultimately show "p \<in> set (queued s)" by (rule in_queued)
qed

text \<open>A change of the metric that keeps its key keeps its place.\<close>

lemma follows_cong:
  assumes "follows ck s key p t i x" "srv_heap s p = Some m" "srv_heap s' p = Some m'" "find_str ck (srv_metrics s') key = Some p"
    "m_key m' = m_key m" "m_key_len m' = m_key_len m" "m_type m' = m_type m" "length (srv_backends s') = length (srv_backends s)"
  shows "follows ck s' key p t i (m_expire m')"
  using assms shard_cong [OF assms(5,6,8)] by (auto simp: follows_def)

lemma round_step:
  assumes "ck_table ck tinv" "intact ck tinv n s" "short_key key" "follows ck s key p t i x"
  shows "\<exists>s'. expire_metrics ck s = Inr s' \<and> intact ck tinv n s' \<and> follows ck s' key p t i (if x > BRUBECK_EXPIRE_DISABLED then x - 1 else x)"
proof -
  have ok: "registry_ok ck tinv s" using assms(2) by (simp add: intact_def)
  obtain h where h: "expire_metrics ck s = Inr (s\<lparr>srv_heap := h\<rparr>)" "registry_ok ck tinv (s\<lparr>srv_heap := h\<rparr>)"
    "\<And>p. p \<in> set (queued s) \<Longrightarrow> h p = map_option expire_once (srv_heap s p)"
    by (rule expire_metrics_ok [OF assms(1) ok]) blast
  let ?s = "s\<lparr>srv_heap := h\<rparr>"
  have q: "queued ?s = queued s" by (simp add: queued_def)
  have "metric_ok (expire_once m) = metric_ok m" for m by (simp add: metric_ok_def expire_once_def)
  then have "intact ck tinv n ?s" using assms(2) h(2,3) by (auto simp: intact_def q)
  moreover from assms(4) obtain m where m: "srv_heap s p = Some m" "m_expire m = x" by (auto simp: follows_def)
  moreover have hp: "h p = Some (expire_once m)" using h(3) [OF follows_queued(3) [OF ok assms(3,4)]] m(1) by simp
  ultimately have "follows ck ?s key p t i (m_expire (expire_once m))"
    using follows_cong [OF assms(4) m(1), of ?s "expire_once m"] assms(4) by (simp add: follows_def)
  with h(1) \<open>intact ck tinv n ?s\<close> m(2) show ?thesis by (auto simp: expire_once_def)
qed

lemma lookup_step:
  assumes "ck_table ck tinv" "intact ck tinv n s" "short_key key" "follows ck s key p t i x" "event_ok n (LookedUp k ty)"
  shows "\<exists>s'. life_step ck (LookedUp k ty) s = Inr s' \<and> intact ck tinv n s' \<and> follows ck s' key p t i (revive key t i (LookedUp k ty) x)"
proof -
  have ok: "registry_ok ck tinv s" "\<not> at_capacity s" "length k \<le> 4031" "ty \<noteq> MT_INTERNAL_STATS" "short_key k"
    using assms(2,5) by (auto simp: intact_def short_key_def)
  obtain q s' where f: "brubeck_metric_find ck s k ty = Inr (Some q, s')" "find_spec ck tinv s k ty q s'"
    using metric_find_ok [OF assms(1) ok(1-3)] by blast
  note F = f(2) [unfolded find_spec_def]
  have len: "length (srv_backends s') = length (srv_backends s)" using metric_find_length [OF f(1)] .
  from assms(4) obtain m where m: "find_str ck (srv_metrics s) key = Some p" "srv_heap s p = Some m" "m_type m = t" "m_expire m = x"
    by (auto simp: follows_def)
  have "metric_ok (blank_metric k ty)"
    using wf_blank [OF ok(5), of ty] ok(4) by (simp add: wf_metric_def metric_ok_def)
  then have "metric_ok m'" if "r \<in> set (queued s')" "srv_heap s' r = Some m'" for r m'
  proof (cases "r = q")
    case True
    show ?thesis
    proof (cases "find_str ck (srv_metrics s) k")
      case None
      with F True that(2) \<open>metric_ok (blank_metric k ty)\<close> show ?thesis by auto
    next
      case (Some r')
      with F True have r: "r = r'" by simp
      with Some F that(2) obtain m0 where m0: "srv_heap s r = Some m0" "m' = m0\<lparr>m_expire := BRUBECK_EXPIRE_ACTIVE\<rparr>" by auto
      moreover have "r \<in> set (queued s)" using that(1) Some F by auto
      ultimately show ?thesis using assms(2) by (auto simp: intact_def metric_ok_def simp del: split_paired_All)
    qed
  next
    case False
    with F have h: "srv_heap s r = Some m'" using that(2) by metis
    have "mset (queued s') = add_mset q (mset (queued s)) \<or> queued s' = queued s" using F by (auto split: option.splits)
    then have "set (queued s') \<subseteq> insert q (set (queued s))" by (metis eq_refl set_mset_add_mset_insert set_mset_mset subset_insertI)
    with False that(1) have "r \<in> set (queued s)" by blast
    with h assms(2) show ?thesis by (auto simp: intact_def simp del: split_paired_All)
  qed
  then have "\<forall>r\<in>set (queued s'). \<forall>m. srv_heap s' r = Some m \<longrightarrow> metric_ok m" by blast
  then have "intact ck tinv n s'" using F assms(2) len by (simp add: intact_def)
  moreover have "follows ck s' key p t i (revive key t i (LookedUp k ty) x)"
  proof (cases "k = key")
    case True
    with F m have "srv_heap s' p = Some (m\<lparr>m_expire := BRUBECK_EXPIRE_ACTIVE\<rparr>)" "find_str ck (srv_metrics s') key = Some p"
      using assms(3) by auto
    from follows_cong [OF assms(4) m(2) this] len True show ?thesis by simp
  next
    case False
    then have fk: "find_str ck (srv_metrics s') key = Some p" using F assms(3) m(1) by auto
    have "p \<noteq> q"
    proof
      assume "p = q"
      with F ok(5) have k: "find_str ck (srv_metrics s') k = Some p" "registry_ok ck tinv s'" by auto
      from registry_okD(9) [OF k(2) ok(5) k(1)] registry_okD(9) [OF k(2) assms(3) fk] False show False by auto
    qed
    with F m(2) have "srv_heap s' p = Some m" by metis
    from follows_cong [OF assms(4) m(2) this fk] len False m(4) show ?thesis by simp
  qed
  ultimately show ?thesis using f(1) by simp
qed

lemma sampled_step:
  assumes "intact ck tinv n s" "short_key key" "follows ck s key p t i x" "event_ok n (SampledBy j)"
  shows "\<exists>s'. life_step ck (SampledBy j) s = Inr s' \<and> intact ck tinv n s' \<and> follows ck s' key p t i (revive key t i (SampledBy j) x)"
proof -
  let ?be = "srv_backends s ! j"
  have ok: "registry_ok ck tinv s" "j < length (srv_backends s)" using assms(1,4) by (auto simp: intact_def)
  have sub: "set (be_queue ?be) \<subseteq> set (queued s)" using in_queued [OF ok(2)] by blast
  have "\<exists>m. srv_heap s r = Some m \<and> metric_ok m" if "r \<in> set (be_queue ?be)" for r
  proof -
    have r: "r \<in> set (queued s)" using sub that by blast
    then obtain k where "short_key k" "find_str ck (srv_metrics s) k = Some r" using registry_okD(7) [OF ok(1)] by blast
    then obtain m where "srv_heap s r = Some m" using registry_okD(9) [OF ok(1)] by blast
    with r assms(1) show ?thesis by (auto simp: intact_def)
  qed
  then obtain es heap stats where col: "collect (be_sample_freq ?be) (be_queue ?be) (srv_heap s) (srv_stats s) = Inr (es, heap, stats)"
    using collect_total [of "be_queue ?be" "srv_heap s"] by (metis prod_cases3)
  let ?s = "s\<lparr>srv_stats := stats, srv_heap := heap\<rparr>"
  have sk: "same_keys (srv_heap s) heap" "n_unique_keys (st_live stats) = n_unique_keys (st_live (srv_stats s))"
    using collect_keeps [OF col] by (simp_all add: get_stat.simps)
  have "registry_ok ck tinv (s\<lparr>srv_backends := srv_backends s, srv_stats := stats\<rparr>)"
    by (rule registry_ok_backends [OF ok(1)]) (use sk(2) in simp_all)
  then have "registry_ok ck tinv (s\<lparr>srv_stats := stats\<rparr>)" by simp
  from heap_ok [OF this, of heap] sk(1) have "registry_ok ck tinv ?s" by simp
  moreover have "queued ?s = queued s" by (simp add: queued_def)
  moreover have "\<forall>p\<in>set (queued s). \<forall>m. heap p = Some m \<longrightarrow> metric_ok m"
    using collect_metrics_ok [OF col _ sub] assms(1) by (simp add: intact_def)
  ultimately have int: "intact ck tinv n ?s" using assms(1) by (simp add: intact_def)
  from assms(3) obtain m where m: "find_str ck (srv_metrics s) key = Some p" "srv_heap s p = Some m" "m_type m = t" "m_expire m = x"
    by (auto simp: follows_def)
  note fq = follows_queued [OF ok(1) assms(2,3)]
  have "follows ck ?s key p t i (revive key t i (SampledBy j) x)"
  proof (cases "j = i")
    case True
    have "distinct (be_queue ?be)" using registry_okD(6) [OF ok(1)] ok(2) by (auto simp: queued_def distinct_concat_iff)
    from collect_expire [OF col this _ m(2)] fq(2) True obtain m' where
      m': "heap p = Some m'" "m_type m' = m_type m" "keeps m m'"
        "m_expire m' = (if m_type m = MT_INTERNAL_STATS \<and> m_expire m \<noteq> 0 then BRUBECK_EXPIRE_ACTIVE else m_expire m)" by blast
    from follows_cong [OF assms(3) m(2), of ?s m'] m' m True show ?thesis by (auto simp: keeps_def split: if_splits)
  next
    case False
    have "p \<notin> set (be_queue ?be)"
    proof
      assume "p \<in> set (be_queue ?be)"
      with concat_place [of "map be_queue (srv_backends s)" i j p] fq(1,2) registry_okD(6) [OF ok(1)] False ok(2) show False
        by (simp add: queued_def)
    qed
    with collect_other [OF col] m(2) have "heap p = Some m" by simp
    from follows_cong [OF assms(3) m(2), of ?s m] this m False show ?thesis by auto
  qed
  with int col show ?thesis by (simp add: Let_def)
qed

lemma life_run_follows:
  assumes "ck_table ck tinv" "intact ck tinv n s" "short_key key" "follows ck s key p t i x" "\<forall>ev\<in>set evs. event_ok n ev"
  shows "\<exists>s'. life_run ck evs s = Inr s' \<and> intact ck tinv n s' \<and> follows ck s' key p t i (fold (revive key t i) evs x)"
  using assms(2,4,5)
proof (induction evs arbitrary: s x)
  case (Cons ev evs)
  have "\<exists>s'. life_step ck ev s = Inr s' \<and> intact ck tinv n s' \<and> follows ck s' key p t i (revive key t i ev x)"
  proof (cases ev)
    case (LookedUp k ty)
    with lookup_step [OF assms(1) Cons.prems(1) assms(3) Cons.prems(2), of k ty] Cons.prems(3) show ?thesis by simp
  next
    case (SampledBy j)
    with sampled_step [OF Cons.prems(1) assms(3) Cons.prems(2), of j] Cons.prems(3) show ?thesis by simp
  qed
  then obtain s1 where "life_step ck ev s = Inr s1" "intact ck tinv n s1" "follows ck s1 key p t i (revive key t i ev x)" by blast
  with Cons.IH [of s1 "revive key t i ev x"] Cons.prems(3) show ?case by auto
qed simp

lemma fold_revive:
  "fold (revive key t i) evs x =
     (if (\<exists>ty. LookedUp key ty \<in> set evs) \<or> (t = MT_INTERNAL_STATS \<and> x \<noteq> 0 \<and> SampledBy i \<in> set evs)
      then BRUBECK_EXPIRE_ACTIVE else x)"
proof (induction evs arbitrary: x)
  case (Cons ev evs)
  show ?case by (cases ev) (auto simp: Cons.IH)
qed simp

section \<open>Properties\<close>

text \<open>
  C18. Expiry takes two rounds. Whatever lookups and samplings come between two rounds of the pruner,
  they and the second round succeed and the registry stays consistent. A metric is then inactive,
  and so still sampled, when its key was looked up in between or when it is the internal metric, was
  active and was sampled by the backend of its shard in between; otherwise it is disabled. This
  holds for the internal metric as well: two rounds between two of its samplings disable it. No
  sampling of any queue changes a metric that is disabled.
\<close>

theorem expire_two_rounds:
  assumes "ck_table ck tinv" "registry_ok ck tinv s" "\<not> at_capacity s"
    "\<forall>p\<in>set (queued s). \<forall>m. srv_heap s p = Some m \<longrightarrow> metric_ok m"
    "short_key key" "find_str ck (srv_metrics s) key = Some p" "srv_heap s p = Some m" "brubeck_metric_shard s m = Inr i"
    "\<forall>ev\<in>set evs. event_ok (length (srv_backends s)) ev"
  shows "\<exists>s1 s2 s3 m'. expire_metrics ck s = Inr s1 \<and> life_run ck evs s1 = Inr s2 \<and> expire_metrics ck s2 = Inr s3
    \<and> registry_ok ck tinv s3 \<and> find_str ck (srv_metrics s3) key = Some p \<and> srv_heap s3 p = Some m' \<and> m_type m' = m_type m
    \<and> m_expire m' =
        (if (\<exists>t. LookedUp key t \<in> set evs)
            \<or> (m_type m = MT_INTERNAL_STATS \<and> m_expire m = BRUBECK_EXPIRE_ACTIVE \<and> SampledBy i \<in> set evs)
         then BRUBECK_EXPIRE_INACTIVE else BRUBECK_EXPIRE_DISABLED)
    \<and> (m_expire m' = BRUBECK_EXPIRE_DISABLED \<longrightarrow>
        (\<forall>fr q stats es heap stats'. collect fr q (srv_heap s3) stats = Inr (es, heap, stats') \<longrightarrow> heap p = Some m'))"
proof -
  let ?n = "length (srv_backends s)" and ?t = "m_type m" and ?x = "m_expire m"
  let ?dec = "\<lambda>x::u8. if x > BRUBECK_EXPIRE_DISABLED then x - 1 else x"
  have "intact ck tinv ?n s" using assms(2-4) by (simp add: intact_def)
  moreover have "follows ck s key p ?t i ?x" using assms(6-8) by (simp add: follows_def)
  ultimately obtain s1 where s1: "expire_metrics ck s = Inr s1" "intact ck tinv ?n s1" "follows ck s1 key p ?t i (?dec ?x)"
    using round_step [OF assms(1) _ assms(5)] by blast
  from life_run_follows [OF assms(1) s1(2) assms(5) s1(3) assms(9)] obtain s2 where
    s2: "life_run ck evs s1 = Inr s2" "intact ck tinv ?n s2" "follows ck s2 key p ?t i (fold (revive key ?t i) evs (?dec ?x))" by blast
  from round_step [OF assms(1) s2(2) assms(5) s2(3)] obtain s3 where
    s3: "expire_metrics ck s2 = Inr s3" "intact ck tinv ?n s3" "follows ck s3 key p ?t i (?dec (fold (revive key ?t i) evs (?dec ?x)))" by blast
  from s3(3) obtain m' where m': "find_str ck (srv_metrics s3) key = Some p" "srv_heap s3 p = Some m'" "m_type m' = ?t"
    "m_expire m' = ?dec (fold (revive key ?t i) evs (?dec ?x))" by (auto simp: follows_def)
  have "?x \<le> BRUBECK_EXPIRE_ACTIVE" using registry_okD(5) [OF assms(2,7)] by (simp add: wf_metric_def)
  then have "?x = 0 \<or> ?x = 1 \<or> ?x = 2" by (rule expire_cases)
  then have "m_expire m' = (if (\<exists>t. LookedUp key t \<in> set evs) \<or> (?t = MT_INTERNAL_STATS \<and> ?x = BRUBECK_EXPIRE_ACTIVE \<and> SampledBy i \<in> set evs)
      then BRUBECK_EXPIRE_INACTIVE else BRUBECK_EXPIRE_DISABLED)"
    unfolding m'(4) fold_revive by auto
  moreover have "registry_ok ck tinv s3" using s3(2) by (simp add: intact_def)
  moreover have "heap p = Some m'" if "m_expire m' = BRUBECK_EXPIRE_DISABLED" "collect fr q (srv_heap s3) stats = Inr (es, heap, stats')"
    for fr q stats es heap stats' using collect_disabled [OF that(2), of p m'] m'(2) that(1) by simp
  ultimately show ?thesis using s1(1) s2(1) s3(1) m'(1-3) by blast
qed

text \<open>The registry of a fresh server, in which the internal metric is looked after.\<close>

theorem expire_two_rounds_witness:
  "\<exists>s. brubeck_internal_init list_ck (one_backend ''b'') = Inr s \<and> (\<exists>p m i. find_str list_ck (srv_metrics s) ''b'' = Some p
     \<and> (\<exists>s1 s2 s3. expire_metrics list_ck s = Inr s1 \<and> life_run list_ck [LookedUp ''hits'' MT_METER, SampledBy i] s1 = Inr s2
          \<and> expire_metrics list_ck s2 = Inr s3 \<and> srv_heap s3 p = Some m \<and> m_expire m = BRUBECK_EXPIRE_INACTIVE)
     \<and> (\<exists>s1 s3 m'. expire_metrics list_ck s = Inr s1 \<and> life_run list_ck [] s1 = Inr s1 \<and> expire_metrics list_ck s1 = Inr s3
          \<and> srv_heap s3 p = Some m' \<and> m_type m' = MT_INTERNAL_STATS \<and> m_expire m' = BRUBECK_EXPIRE_DISABLED))"
proof -
  let ?b = "one_backend ''b'' :: (string \<times> slab_ptr) list brubeck_server"
  have e: "srv_name ?b = ''b''" "find_str list_ck (srv_metrics ?b) (srv_name ?b) = None" "srv_heap ?b = Map.empty" "\<not> at_capacity ?b"
    "length (srv_backends ?b) = 1"
    by (simp_all add: one_backend_def find_str_def brubeck_hashtable_find_def list_ck_def)
  obtain s p m where s: "brubeck_internal_init list_ck ?b = Inr s" "registry_ok list_ck list_inv s"
    "\<forall>j. short_key j \<longrightarrow> find_str list_ck (srv_metrics s) j = (if j = srv_name ?b then Some p else find_str list_ck (srv_metrics ?b) j)"
    "srv_heap s p = Some m" "metric_ok m" "m_type m = MT_INTERNAL_STATS" "m_expire m = BRUBECK_EXPIRE_ACTIVE"
    "length (srv_backends s) = length (srv_backends ?b)" "at_capacity s = at_capacity ?b" "srv_heap s = (srv_heap ?b)(p \<mapsto> m)"
    by (rule internal_init_total [OF list_table.ck_table_axioms one_backend_ok e(2)]) (use e(1) in auto)
  have k: "short_key ''b''" by (simp add: short_key_def)
  have f: "find_str list_ck (srv_metrics s) ''b'' = Some p" using s(3) k e(1) by simp
  from registry_okD(9) [OF s(2) k f] s(4) obtain i where i: "brubeck_metric_shard s m = Inr i" by auto
  then have lt: "i < length (srv_backends s)" by (auto simp: brubeck_metric_shard_def rbind_Inr_iff split: if_splits)
  have ok: "\<forall>q\<in>set (queued s). \<forall>m'. srv_heap s q = Some m' \<longrightarrow> metric_ok m'" using s(5,10) e(3) by (simp del: split_paired_All)
  have cap: "\<not> at_capacity s" using s(9) e(4) by simp
  note rounds = expire_two_rounds [OF list_table.ck_table_axioms s(2) cap ok k f s(4) i]
  have "\<forall>ev\<in>set [LookedUp ''hits'' MT_METER, SampledBy i]. event_ok (length (srv_backends s)) ev" using lt by simp
  from rounds [OF this] rounds [of "[]"] show ?thesis
    unfolding s(6,7) using s(1) f by (intro exI [of _ s] conjI exI [of _ p]) (simp_all, blast+)
qed

end
