(* ===== verification/Test_Bin.thy ===== *)
theory Test_Bin
  imports Http
begin

text \<open>
  The programs that exercise the daemon (\<^verbatim>\<open>test-bin/\<close>): the sender of one authenticated packet, the
  generator of random statsd packets, and the balancer that copies every datagram to several
  daemons. The HMAC function, the resolution of dotted addresses and the kernel's answers are
  arguments; the clock and the random numbers are values that a call is given.
\<close>

section \<open>Authenticated packets\<close>

text \<open>\<^verbatim>\<open>test-bin/statsd-secure-send.c\<close>\<close>

definition HMAC_KEY :: string where
  "HMAC_KEY = ''750c783e6ab0b503eaa86e310a5db738''"

definition secure_build_packet :: "(string \<Rightarrow> string \<Rightarrow> string) \<Rightarrow> int \<Rightarrow> u32 \<Rightarrow> string \<Rightarrow> string \<Rightarrow> (string \<times> nat) res" where
  "secure_build_packet hmac tv_sec nonce buffer metric =
     (let timestamp = le_bytes 8 (unat (word_of_int tv_sec - 2 :: u64));
          nonce = le_bytes 4 (unat nonce)
      in rbind (blit buffer 0 (hmac HMAC_KEY (timestamp @ nonce @ metric))) (\<lambda>buffer.
         rbind (blit buffer SHA_SIZE timestamp) (\<lambda>buffer.
         rbind (blit buffer (SHA_SIZE + 8) nonce) (\<lambda>buffer.
         rbind (blit buffer (SHA_SIZE + 12) metric) (\<lambda>buffer.
           Inr (buffer, SHA_SIZE + 12 + length metric))))))"

text \<open>What the debugging output says of a packet.\<close>

definition hex_byte :: "nat \<Rightarrow> string" where
  "hex_byte b = [hex_str ! (b div 16 mod 16), hex_str ! (b mod 16)]"

definition secure_debug :: "string \<Rightarrow> u64 \<Rightarrow> u32 \<Rightarrow> string \<Rightarrow> string" where
  "secure_debug buffer timestamp nonce metric =
     ''HMAC: '' @ concat (map (\<lambda>c. hex_byte (of_char c)) (take SHA_SIZE buffer))
     @ LF # ''TIMESTAMP: '' @ dec (unat timestamp)
     @ LF # ''NONCE: '' @ concat (map (\<lambda>i. hex_byte (unat nonce div 256 ^ i)) [3, 2, 1, 0])
     @ LF # ''METRIC: '' @ metric @ [LF]"

text \<open>
  The main function on its arguments, \<open>argv[0]\<close> included: the datagrams it has sent, and what it has
  printed. The answer of \<^verbatim>\<open>inet_aton\<close> is \<open>None\<close> for a text that is no address; the array on the stack
  has 1024 bytes.
\<close>

definition secure_send_main :: "(string \<Rightarrow> u32 option) \<Rightarrow> int \<Rightarrow> (string \<Rightarrow> string \<Rightarrow> string) \<Rightarrow> int \<Rightarrow> u32 \<Rightarrow> string \<Rightarrow>
    string list \<Rightarrow> ((sockaddr_in \<times> string) list \<times> string) res" where
  "secure_send_main inet_aton sock hmac tv_sec nonce mem args =
     (case args of
        [_, ip, port, metric] \<Rightarrow>
          rbind (atoi port) (\<lambda>n.
            case inet_aton ip of
              None \<Rightarrow> Inl (Exit 1)
            | Some a \<Rightarrow>
                if sock < 0 then Inl (Exit 1)
                else
                  rbind (secure_build_packet hmac tv_sec nonce mem metric) (\<lambda>(buffer, len).
                    Inr ([(\<lparr>sin_family = AF_INET, sin_port = htons n, sin_addr = a\<rparr>, take len buffer)],
                         secure_debug buffer (word_of_int tv_sec - 2) nonce metric)))
      | _ \<Rightarrow> Inl (Exit (- 1)))"

section \<open>Random packets\<close>

text \<open>\<^verbatim>\<open>test-bin/udp-stress.c\<close>; \<open>r1\<close> and \<open>r2\<close> are the results of the two calls of \<^verbatim>\<open>rand\<close>.\<close>

definition stress_types :: string where
  "stress_types = ''gcCh''"

definition stress_build_packet :: "nat \<Rightarrow> nat \<Rightarrow> string \<Rightarrow> (string \<times> nat) res" where
  "stress_build_packet r1 r2 buffer =
     (let stat = r1 mod 128 in
      rbind (rd stress_types (int (stat * 0x37 mod 4))) (\<lambda>t.
        let s = ''github.test.packet.'' @ dec stat @ '':'' @ dec (r2 mod 1024) @ ''|'' @ [t] in
        rbind (blit buffer 0 (s @ [NUL])) (\<lambda>buffer. Inr (buffer, length s))))"

text \<open>
  The threads share the counter. A turn of a sending thread sends a packet, which may fail, and counts
  it in any case; a turn of the reporting thread takes the counter and prints it.
\<close>

record stress =
  st_counter :: u32
  st_network :: "string list"
  st_console :: "string list"
  st_reports :: "u32 list"

datatype stress_event = Spam nat nat string bool | Report

definition report_turn :: "stress \<Rightarrow> stress" where
  "report_turn s =
     (let reported = st_counter s in
      s\<lparr>st_counter := 0, st_reports := st_reports s @ [reported],
        st_console := st_console s @ [fmt_d (sint reported) @ '' metrics/s'' @ [LF], CHR 0x1B # ''[F'' @ CHR 0x1B # ''[J'']\<rparr>)"

definition spam_turn :: "nat \<Rightarrow> nat \<Rightarrow> string \<Rightarrow> bool \<Rightarrow> stress \<Rightarrow> stress res" where
  "spam_turn r1 r2 packet sent s =
     rbind (stress_build_packet r1 r2 packet) (\<lambda>(packet, len).
       let s = (if sent then s\<lparr>st_network := st_network s @ [take len packet]\<rparr>
                else s\<lparr>st_console := st_console s @ [''C ==> DROPPED'' @ [LF]]\<rparr>)
       in Inr (s\<lparr>st_counter := st_counter s + 1\<rparr>))"

fun stress_run :: "stress_event list \<Rightarrow> stress \<Rightarrow> stress res" where
  "stress_run [] s = Inr s"
| "stress_run (Report # es) s = stress_run es (report_turn s)"
| "stress_run (Spam r1 r2 mem sent # es) s = rbind (spam_turn r1 r2 mem sent s) (stress_run es)"

text \<open>The start: two arguments, an address and a port; the target of all packets.\<close>

definition stress_main :: "(string \<Rightarrow> u32 option) \<Rightarrow> string list \<Rightarrow> sockaddr_in res" where
  "stress_main inet_aton args =
     (case args of
        [_, ip, port] \<Rightarrow>
          rbind (atoi port) (\<lambda>n.
            case inet_aton ip of
              None \<Rightarrow> Inl (Exit 1)
            | Some a \<Rightarrow> Inr \<lparr>sin_family = AF_INET, sin_port = htons n, sin_addr = a\<rparr>)
      | _ \<Rightarrow> Inl (Exit (- 1)))"

section \<open>The balancer\<close>

text \<open>
  \<^verbatim>\<open>test-bin/balancer.c\<close>. The arrays of the outputs have four elements; the list holds those in use,
  and its length is the \<^verbatim>\<open>fanout\<close>. The state starts zeroed, as the static object does.
\<close>

abbreviation MAX_FANOUT :: nat where
  "MAX_FANOUT \<equiv> 4"

abbreviation BALANCER_PACKET_SIZE :: nat where
  "BALANCER_PACKET_SIZE \<equiv> 512"

record balancer =
  in_socket :: int
  in_addr :: sockaddr_in
  outs :: "(int \<times> sockaddr_in) list"

definition balancer_zero :: balancer where
  "balancer_zero = \<lparr>in_socket = 0, in_addr = \<lparr>sin_family = 0, sin_port = 0, sin_addr = 0\<rparr>, outs = []\<rparr>"

definition balancer_enlarge_in :: "sock_kernel \<Rightarrow> int \<Rightarrow> unit res" where
  "balancer_enlarge_in k fd = (if k_setopt k fd (SetRcvBuf LARGE_SOCK_SIZE) then Inr () else Inl (Exit 1))"

definition balancer_enlarge_out :: "sock_kernel \<Rightarrow> int \<Rightarrow> unit res" where
  "balancer_enlarge_out k fd = (if k_setopt k fd (SetSndBuf LARGE_SOCK_SIZE) then Inr () else Inl (Exit 1))"

text \<open>The address in front of the first colon, the port behind it; \<open>inet_addr\<close> cannot fail, it has a value for that.\<close>

definition init_sock :: "(string \<Rightarrow> u32) \<Rightarrow> sock_kernel \<Rightarrow> string \<Rightarrow> (sockaddr_in \<times> int) res" where
  "init_sock inet_addr k address_s =
     (if CHR '':'' \<notin> set address_s then Inl (Exit 1)
      else
        let host = takeWhile (\<lambda>c. c \<noteq> CHR '':'') address_s; port_s = dropWhile (\<lambda>c. c \<noteq> CHR '':'') address_s in
        rbind (atoi (tl port_s)) (\<lambda>port.
          if k_socket k < 0 then Inl (Exit 1)
          else Inr (\<lparr>sin_family = AF_INET, sin_port = htons port,
                     sin_addr = (if host \<noteq> ''0.0.0.0'' then inet_addr host else 0)\<rparr>, k_socket k)))"

fun add_outs :: "(string \<Rightarrow> u32) \<Rightarrow> (nat \<Rightarrow> sock_kernel) \<Rightarrow> string list \<Rightarrow> balancer \<Rightarrow> balancer res" where
  "add_outs inet_addr ks [] b = Inr b"
| "add_outs inet_addr ks (a # as) b =
     (if length (outs b) = MAX_FANOUT then Inl (Exit (- 1))
      else
        let k = ks (length (outs b)) in
        rbind (init_sock inet_addr k a) (\<lambda>(addr, sock).
        rbind (balancer_enlarge_out k sock) (\<lambda>_.
          add_outs inet_addr ks as (b\<lparr>outs := outs b @ [(sock, addr)]\<rparr>))))"

definition balancer_listen :: "(string \<Rightarrow> u32) \<Rightarrow> sock_kernel \<Rightarrow> string list \<Rightarrow> (balancer \<times> string list) res" where
  "balancer_listen inet_addr k args =
     (case args of
        a # rest \<Rightarrow>
          if a = ''--listen'' then
            (case rest of
               [] \<Rightarrow> Inl (Exit (- 1))
             | l # as \<Rightarrow>
                 rbind (init_sock inet_addr k l) (\<lambda>(addr, sock).
                 rbind (balancer_enlarge_in k sock) (\<lambda>_.
                   if k_bind k sock addr then Inr (balancer_zero\<lparr>in_socket := sock, in_addr := addr\<rparr>, as) else Inl (Exit 1))))
          else Inr (balancer_zero, args)
      | [] \<Rightarrow> Inr (balancer_zero, args))"

text \<open>The main function up to the start of its four threads, on the arguments behind the program's name.\<close>

definition balancer_main :: "(string \<Rightarrow> u32) \<Rightarrow> sock_kernel \<Rightarrow> (nat \<Rightarrow> sock_kernel) \<Rightarrow> string list \<Rightarrow> balancer res" where
  "balancer_main inet_addr k ks args =
     rbind (balancer_listen inet_addr k args) (\<lambda>(b, as).
     rbind (add_outs inet_addr ks as b) (\<lambda>b.
       if length (outs b) = 0 then Inl (Exit 1) else Inr b))"

text \<open>A turn of a worker: the datagrams it sends, each with its socket and address, and its buffer.\<close>

fun send_outs :: "string \<Rightarrow> nat \<Rightarrow> (int \<times> sockaddr_in) list \<Rightarrow> (int \<times> sockaddr_in \<times> string) list" where
  "send_outs buffer res [] = []"
| "send_outs buffer res ((sock, addr) # os) = (sock, addr, take res buffer) # send_outs buffer res os"

definition balancer_turn :: "balancer \<Rightarrow> recv_event \<Rightarrow> string \<Rightarrow> (int \<times> sockaddr_in \<times> string) list \<times> string" where
  "balancer_turn b ev buffer =
     (case ev of
        RecvData d \<Rightarrow>
          (let (buffer, res) = receive BALANCER_PACKET_SIZE buffer d
           in if res = 0 then ([], buffer) else (send_outs buffer res (outs b), buffer))
      | _ \<Rightarrow> ([], buffer))"

fun balancer_run :: "balancer \<Rightarrow> recv_event list \<Rightarrow> string \<Rightarrow> (int \<times> sockaddr_in \<times> string) list" where
  "balancer_run b [] buffer = []"
| "balancer_run b (ev # evs) buffer = (let (sent, buffer) = balancer_turn b ev buffer in sent @ balancer_run b evs buffer)"

section \<open>What the packets are\<close>

lemma blit_end:
  assumes "length p = i" "i + length s \<le> length p + length r"
  shows "blit (p @ r) i s = Inr (p @ s @ drop (length s) r)"
  using assms by (simp add: blit_def)

lemma secure_build_eq:
  assumes "length buffer = SECURE_PACKET_SIZE" "\<forall>k m. length (hmac k m) = SHA_SIZE"
    and ts_def: "ts = le_bytes 8 (unat (word_of_int tv_sec - 2 :: u64))" and nc_def: "nc = le_bytes 4 (unat nonce)"
  shows "secure_build_packet hmac tv_sec nonce buffer metric =
    (if length metric \<le> 980
     then Inr (hmac HMAC_KEY (ts @ nc @ metric) @ ts @ nc @ metric @ drop (44 + length metric) buffer, 44 + length metric)
     else Inl OutOfBounds)"
proof -
  let ?h = "hmac HMAC_KEY (ts @ nc @ metric)"
  have l: "length ?h = 32" "length ts = 8" "length nc = 4" using assms(2) by (simp_all add: ts_def nc_def)
  have "blit buffer 0 ?h = Inr (?h @ drop 32 buffer)" using l assms(1) by (simp add: blit_def)
  moreover have "blit (?h @ drop 32 buffer) SHA_SIZE ts = Inr ((?h @ ts) @ drop 40 buffer)"
    using blit_end [of ?h 32 ts "drop 32 buffer"] l assms(1) by simp
  moreover have "blit ((?h @ ts) @ drop 40 buffer) (SHA_SIZE + 8) nc = Inr ((?h @ ts @ nc) @ drop 44 buffer)"
    using blit_end [of "?h @ ts" 40 nc "drop 40 buffer"] l assms(1) by simp
  moreover have "blit ((?h @ ts @ nc) @ drop 44 buffer) (SHA_SIZE + 12) metric =
      (if length metric \<le> 980 then Inr (?h @ ts @ nc @ metric @ drop (44 + length metric) buffer) else Inl OutOfBounds)"
    using blit_end [of "?h @ ts @ nc" 44 metric "drop 44 buffer"] l assms(1)
    by (simp add: add.commute [of "length metric"]) (simp add: blit_def)
  ultimately show ?thesis
    by (simp add: secure_build_packet_def Let_def flip: ts_def nc_def)
qed

text \<open>The packet of the sender: its token is the one the sampler expects, and its timestamp is two seconds old.\<close>

lemma secure_packet_parts:
  assumes "length buffer = SECURE_PACKET_SIZE" "\<forall>k m. length (hmac k m) = SHA_SIZE" "length metric \<le> 980"
    "2 \<le> tv_sec" "tv_sec < 2 ^ 63"
  shows "\<exists>buffer' p. secure_build_packet hmac tv_sec nonce buffer metric = Inr (buffer', length p) \<and> take (length p) buffer' = p
    \<and> length p = MIN_PACKET_SIZE + length metric \<and> take SHA_SIZE p = hmac HMAC_KEY (drop SHA_SIZE p)
    \<and> drop MIN_PACKET_SIZE p = metric \<and> uint (timestamp_of p) = tv_sec - 2"
proof -
  let ?w = "word_of_int tv_sec - 2 :: u64"
  define ts where "ts = le_bytes 8 (unat ?w)"
  define nc where "nc = le_bytes 4 (unat nonce)"
  define h where "h = hmac HMAC_KEY (ts @ nc @ metric)"
  have l: "length h = 32" "length ts = 8" "length nc = 4" using assms(2) by (simp_all add: h_def ts_def nc_def)
  let ?p = "h @ ts @ nc @ metric"
  have b: "secure_build_packet hmac tv_sec nonce buffer metric = Inr (?p @ drop (44 + length metric) buffer, length ?p)"
    using secure_build_eq [OF assms(1,2) ts_def nc_def, of metric] assms(3) l by (simp flip: h_def)
  have "timestamp_of ?p = word_of_nat (of_le ts)" using l by (simp add: timestamp_of_def)
  also have "\<dots> = ?w"
    using unsigned_less [of ?w, where ?'a = nat] by (simp add: ts_def of_le_bytes word_unat_eq_iff unsigned_of_nat take_bit_eq_mod)
  also have "\<dots> = word_of_int (tv_sec - 2)" by simp
  finally have "uint (timestamp_of ?p) = tv_sec - 2"
    using assms(4,5) by (simp only: uint_word_of_int take_bit_int_eq_self) (simp add: take_bit_int_eq_self)
  with b l show ?thesis by (intro exI [of _ "?p @ drop (44 + length metric) buffer"] exI [of _ ?p]) (simp add: h_def)
qed

lemma verify_fresh:
  assumes "sec_ok n st" "0 \<le> now" "now < 2 ^ 63" "tick_filters now st = Inr st1"
    "uint (timestamp_of b) \<le> now" "now \<le> uint (timestamp_of b) + int n"
    "\<not> bloom.seen (replays st1) (nat (uint (timestamp_of b)) mod n) (token b)"
  shows "\<exists>st'. verify_token now b server st = Inr (server, st', True)"
proof -
  let ?f = "nat (uint (timestamp_of b)) mod n"
  have st1: "sec_ok n st1" using tick_filters_ok [OF assms(1,2)] assms(4) by auto
  then have f: "bloom_inv n (replays st1)" "?f < n" by (auto simp: sec_ok_def)
  obtain bl where "multibloom_check (replays st1) (int ?f) (hash_a b) (hash_b b) = Inr (bl, False)"
    using multibloom_check_abs [OF f, of "hash_a b" "hash_b b"] assms(7) by (auto simp: bloom.seen_def token_def)
  then show ?thesis unfolding verify_token_eq [OF assms(1-4)] using assms(5,6) by simp
qed

lemma inflow_inc_simps [simp]:
  "hmac_key (inflow_inc st) = hmac_key st" "replays (inflow_inc st) = replays st" "sec_now (inflow_inc st) = sec_now st"
  "sec_drift (inflow_inc st) = sec_drift st"
  by (simp_all add: inflow_inc_def)

lemma tick_inflow: "tick_filters now st = Inr st1 \<Longrightarrow> \<exists>st2. tick_filters now (inflow_inc st) = Inr st2 \<and> replays st2 = replays st1"
  by (auto simp: tick_filters_def rbind_Inr_iff split: if_splits)

lemma secure_packet_handled:
  assumes "length buffer = SECURE_PACKET_SIZE" "\<forall>k m. length (hmac k m) = SHA_SIZE" "length p < SECURE_PACKET_SIZE"
    "MIN_PACKET_SIZE \<le> length p" "take SHA_SIZE p = hmac (hmac_key st) (drop SHA_SIZE p)" "no_colon (drop MIN_PACKET_SIZE p)"
    "sec_ok n st" "0 \<le> now" "now < 2 ^ 63" "tick_filters now st = Inr st1"
    "uint (timestamp_of p) \<le> now" "now \<le> uint (timestamp_of p) + int n"
    "\<not> bloom.seen (replays st1) (nat (uint (timestamp_of p)) mod n) (token p)"
  shows "\<exists>st'. rbind (secure_turn pw ck hmac now (RecvData p) (buffer, st, server)) (\<lambda>(_, r). Inr r) =
    rbind (handle_lines pw ck (split_lines (drop MIN_PACKET_SIZE p)) server) (\<lambda>s. Inr (st', s))"
proof -
  have ok: "sec_ok n (inflow_inc st)" using assms(7) by (simp add: sec_ok_def)
  obtain st2 where st2: "tick_filters now (inflow_inc st) = Inr st2" "replays st2 = replays st1" using tick_inflow [OF assms(10)] by blast
  then obtain st' where "verify_token now p server (inflow_inc st) = Inr (server, st', True)"
    using verify_fresh [OF ok assms(8,9) st2(1) assms(11,12)] assms(13) by auto
  moreover have "starts_ok (take MIN_PACKET_SIZE p) (drop MIN_PACKET_SIZE p)" using assms(6) by (auto simp: starts_ok_def no_colon_def)
  ultimately show ?thesis
    using secure_turn_spec [OF assms(1,2), of p p pw ck now st server] assms(3-5) by (auto simp: secure_spec_def)
qed

definition stress_msg :: "nat \<Rightarrow> nat \<Rightarrow> brubeck_statsd_msg" where
  "stress_msg r1 r2 =
     (let stat = r1 mod 128; key = ''github.test.packet.'' @ dec stat in
      \<lparr>msg_key = key, msg_key_len = word_of_nat (length key), msg_type = [MT_GAUGE, MT_METER, MT_COUNTER, MT_HISTO] ! (3 * stat mod 4),
        msg_value = d_of_nat (r2 mod 1024), msg_sample_freq = d_of_nat 1, msg_modifiers = 0\<rparr>)"

lemma dec_length: "n < 10 ^ Suc k \<Longrightarrow> length (dec n) \<le> Suc k"
proof (induction k arbitrary: n)
  case (Suc k)
  have "n div 10 < 10 ^ Suc k" using Suc.prems by (simp add: less_mult_imp_div_less)
  from Suc.IH [OF this] show ?case by (subst dec.simps) simp
qed (subst dec.simps, simp)

lemma plain_packet_key: "plain_key (''github.test.packet.'' @ dec n)"
proof -
  have d: "\<forall>c\<in>set (dec n). is_digit c" "dec n \<noteq> []" using dec_digits by blast+
  then have "is_digit (last (dec n))" by simp
  then have "last (dec n) \<noteq> CHR ''.''" by auto
  moreover have "NUL \<notin> set (dec n)" "CHR '':'' \<notin> set (dec n)" "CHR '' '' \<notin> set (dec n)" using d(1) by (auto simp: is_digit_def)
  ultimately show ?thesis using d(2) by (simp add: plain_key_def)
qed

lemma stress_type:
  assumes "x < 4"
  defines "t \<equiv> [MT_GAUGE, MT_METER, MT_COUNTER, MT_HISTO] ! x"
  shows "rd stress_types (int x) = Inr (hd (type_text t))" "type_text t = [hd (type_text t)]" "t \<noteq> MT_INTERNAL_STATS"
proof -
  consider "x = 0" | "x = 1" | "x = 2" | "x = 3" using assms(1) by linarith
  note x = this
  show "rd stress_types (int x) = Inr (hd (type_text t))" unfolding t_def by (cases rule: x) (simp_all add: rd_def stress_types_def)
  show "type_text t = [hd (type_text t)]" "t \<noteq> MT_INTERNAL_STATS" unfolding t_def by (cases rule: x; simp)+
qed

lemma stress_packet:
  assumes "30 \<le> length mem"
  shows "\<exists>buffer p. stress_build_packet r1 r2 mem = Inr (buffer, length p) \<and> take (length p) buffer = p \<and> length p \<le> 29
    \<and> LF \<notin> set p \<and> p \<noteq> [] \<and> no_colon p \<and> line_msg pw p = Some (stress_msg r1 r2)"
proof -
  define stat where "stat = r1 mod 128"
  define v where "v = r2 mod 1024"
  define key where "key = ''github.test.packet.'' @ dec stat"
  define t where "t = [MT_GAUGE, MT_METER, MT_COUNTER, MT_HISTO] ! (3 * stat mod 4)"
  have i: "stat * 0x37 mod 4 = 3 * stat mod 4" using mod_mult_left_eq [of 55 4 stat] by (simp add: mult.commute)
  have x: "3 * stat mod 4 < 4" by simp
  note ty = stress_type [OF x, folded t_def]
  define p where "p = statsd_text key [] v t None"
  have pt: "p = ''github.test.packet.'' @ dec stat @ '':'' @ dec v @ ''|'' @ [hd (type_text t)]"
    using ty by (simp add: p_def statsd_text_def key_def)
  have len: "length (dec stat) \<le> 3" "length (dec v) \<le> 4"
    using dec_length [of stat 2] dec_length [of v 3] by (simp_all add: stat_def v_def)
  then have lp: "length p \<le> 29" unfolding pt by simp
  have b: "stress_build_packet r1 r2 mem = Inr (p @ NUL # drop (Suc (length p)) mem, length p)"
  proof -
    have "blit mem 0 (p @ [NUL]) = Inr (p @ NUL # drop (Suc (length p)) mem)" using lp assms by (simp add: blit_def)
    then show ?thesis
      unfolding stress_build_packet_def Let_def stat_def [symmetric] v_def [symmetric] i ty(1) rbind_simps pt [symmetric] by simp
  qed
  have pk: "plain_key key" unfolding key_def by (rule plain_packet_key)
  have "v < 2 ^ 53" using mod_less_divisor [of 1024 r2] by (simp add: v_def)
  with line_msg_text [OF pk _ _ , of "[]" v t None pw] ty have m: "line_msg pw p = Some (stress_msg r1 r2)"
    by (simp add: p_def text_msg_def stress_msg_def Let_def key_def stat_def v_def t_def)
  have "LF \<notin> set (dec n)" for n using dec_digits [of n] by (auto simp: is_digit_def)
  moreover have "LF \<noteq> hd (type_text t)" using ty by (cases t) auto
  ultimately have "LF \<notin> set p" unfolding pt by simp
  moreover have "p \<noteq> []" "no_colon p" unfolding pt by (simp_all add: no_colon_def)
  ultimately show ?thesis using b lp m by (intro exI [of _ "p @ NUL # drop (Suc (length p)) mem"] exI [of _ p]) simp
qed

lemma stress_packet_turn:
  assumes "ck_table ck tinv" "registry_ok ck tinv s" "\<not> at_capacity s" "30 \<le> length mem" "length buffer = MAX_PACKET_SIZE"
  shows "\<exists>packet len. stress_build_packet r1 r2 mem = Inr (packet, len)
    \<and> (case spec_msg (stress_msg r1 r2) (view ck s) of
         Inl e \<Rightarrow> recvmsg_turn pw ck (RecvData (take len packet)) (buffer, smp, s) = Inl e
       | Inr V \<Rightarrow> \<exists>buffer' smp' s'. recvmsg_turn pw ck (RecvData (take len packet)) (buffer, smp, s) = Inr (buffer', smp', s')
           \<and> registry_ok ck tinv s' \<and> view ck s' = V
           \<and> get_stat Errors (st_live (srv_stats s')) = get_stat Errors (st_live (srv_stats s)))"
proof -
  obtain packet p where p: "stress_build_packet r1 r2 mem = Inr (packet, length p)" "take (length p) packet = p" "length p \<le> 29"
    "LF \<notin> set p" "p \<noteq> []" "no_colon p" "line_msg pw p = Some (stress_msg r1 r2)"
    using stress_packet [OF assms(4), of r1 r2 pw] by blast
  have ls: "datagram_lines p = [p]" using p(3-5) by (simp add: datagram_lines_def split_lines_simps)
  have "r1 mod 128 < 128" by simp
  then have "r1 mod 128 < 1000" by linarith
  with dec_length [of "r1 mod 128" 2] have "length (msg_key (stress_msg r1 r2)) \<le> 4031" by (simp add: stress_msg_def Let_def)
  then have "refines ck tinv 1 0 s (handle_lines pw ck [p] s) (spec_lines pw [p] (view ck s))"
    using handle_lines_refines [OF assms(1-3), of "[p]" pw] p(7) by simp
  moreover have "spec_lines pw [p] (view ck s) = spec_msg (stress_msg r1 r2) (view ck s)"
    using p(7) by (cases "spec_msg (stress_msg r1 r2) (view ck s)") simp_all
  ultimately have ref: "refines ck tinv 1 0 s (handle_lines pw ck [p] s) (spec_msg (stress_msg r1 r2) (view ck s))" by simp
  have "\<forall>d\<in>set (packets [RecvData p]). no_colon d" using p(6) by (simp add: packets_def map_filter_simps)
  from recvmsg_turn_event [OF assms(5) this, of pw ck smp s] obtain b' f where
    "recvmsg_turn pw ck (RecvData p) (buffer, smp, s) = rbind (handle_lines pw ck [p] s) (\<lambda>s'. Inr (b', f, s'))"
    by (auto simp: handle_event_def ls)
  with ref p(1,2) show ?thesis
    by (intro exI [of _ packet] exI [of _ "length p"]) (auto simp: refines_def counted_def split: sum.splits)
qed

text \<open>No packet of a sending thread is counted twice or lost by the reports.\<close>

lemma stress_run_counts:
  assumes "\<forall>r1 r2 mem sent. Spam r1 r2 mem sent \<in> set es \<longrightarrow> 30 \<le> length mem"
  shows "\<exists>s'. stress_run es s = Inr s' \<and> st_counter s' + sum_list (st_reports s') =
      st_counter s + sum_list (st_reports s) + word_of_nat (length (filter (\<lambda>e. e \<noteq> Report) es))
    \<and> length (st_network s') = length (st_network s) + length (filter (\<lambda>e. case e of Spam _ _ _ ok \<Rightarrow> ok | Report \<Rightarrow> False) es)"
  using assms
proof (induction es arbitrary: s)
  case (Cons e es)
  have "\<forall>r1 r2 mem sent. Spam r1 r2 mem sent \<in> set es \<longrightarrow> 30 \<le> length mem" using Cons.prems by auto
  note IH = Cons.IH [OF this]
  show ?case
  proof (cases e)
    case (Spam r1 r2 mem sent)
    with Cons.prems have "30 \<le> length mem" by auto
    then obtain packet len where "stress_build_packet r1 r2 mem = Inr (packet, len)" using stress_packet [of mem r1 r2] by blast
    then obtain s1 where s1: "spam_turn r1 r2 mem sent s = Inr s1" "st_counter s1 = st_counter s + 1" "st_reports s1 = st_reports s"
      "length (st_network s1) = length (st_network s) + (if sent then 1 else 0)" by (simp add: spam_turn_def Let_def)
    with Spam IH [of s1] show ?thesis by (auto simp: algebra_simps)
  next
    case Report
    with IH [of "report_turn s"] show ?thesis by (auto simp: report_turn_def Let_def)
  qed
qed simp

lemma send_outs_map: "send_outs buffer res os = map (\<lambda>(sock, addr). (sock, addr, take res buffer)) os"
  by (induction os) auto

lemma add_outs_le: "add_outs inet_addr ks as b = Inr b' \<Longrightarrow> length (outs b) \<le> MAX_FANOUT \<Longrightarrow>
    length (outs b') = length (outs b) + length as \<and> length (outs b') \<le> MAX_FANOUT \<and> in_socket b' = in_socket b"
proof (induction as arbitrary: b)
  case (Cons a as)
  from Cons.prems obtain addr sock where "add_outs inet_addr ks as (b\<lparr>outs := outs b @ [(sock, addr)]\<rparr>) = Inr b'" "length (outs b) \<noteq> MAX_FANOUT"
    by (auto simp: Let_def rbind_Inr_iff split: if_splits)
  with Cons.IH Cons.prems(2) show ?case by fastforce
qed simp

lemma balancer_turn_eq:
  assumes "length buffer = BALANCER_PACKET_SIZE"
  shows "\<exists>buffer'. length buffer' = BALANCER_PACKET_SIZE \<and> balancer_turn b ev buffer =
    (concat (map (\<lambda>d. map (\<lambda>(sock, addr). (sock, addr, d)) (outs b))
       (filter (\<lambda>d. d \<noteq> []) (map (take BALANCER_PACKET_SIZE) (packets [ev])))), buffer')"
  using assms by (cases ev) (auto simp: balancer_turn_def receive_def Let_def send_outs_map packets_def map_filter_simps min_def)

lemma balancer_run_eq:
  assumes "length buffer = BALANCER_PACKET_SIZE"
  shows "balancer_run b evs buffer = concat (map (\<lambda>d. map (\<lambda>(sock, addr). (sock, addr, d)) (outs b))
    (filter (\<lambda>d. d \<noteq> []) (map (take BALANCER_PACKET_SIZE) (packets evs))))"
  using assms
proof (induction evs arbitrary: buffer)
  case (Cons ev evs)
  have p: "packets (ev # evs) = packets [ev] @ packets evs" by (simp add: packets_def map_filter_simps split: option.splits)
  from balancer_turn_eq [OF Cons.prems, of b ev] Cons.IH show ?case unfolding p by fastforce
qed (simp add: packets_def map_filter_simps)

section \<open>Properties\<close>


definition demo_hmac :: "string \<Rightarrow> string \<Rightarrow> string" where
  "demo_hmac k m = replicate 32 (CHR ''x'')"




text \<open>
  C20. The balancer, once started, has between one and four outputs, as many as addresses were given,
  and copies: the datagrams it sends are, in their order, each non-empty datagram received, cut to 512
  bytes, once to every output.
\<close>

theorem balancer_forwards:
  assumes "balancer_main inet_addr k ks args = Inr b" "length buffer = BALANCER_PACKET_SIZE"
  shows "length (outs b) \<in> {1..MAX_FANOUT}
    \<and> length (outs b) = (if args \<noteq> [] \<and> hd args = ''--listen'' then length args - 2 else length args)
    \<and> balancer_run b evs buffer = concat (map (\<lambda>d. map (\<lambda>(sock, addr). (sock, addr, d)) (outs b))
        (filter (\<lambda>d. d \<noteq> []) (map (take BALANCER_PACKET_SIZE) (packets evs))))"
proof -
  from assms(1) obtain b0 as where l: "balancer_listen inet_addr k args = Inr (b0, as)" "add_outs inet_addr ks as b0 = Inr b" "length (outs b) \<noteq> 0"
    by (auto simp: balancer_main_def rbind_Inr_iff split: if_splits)
  have "outs b0 = [] \<and> length as = (if args \<noteq> [] \<and> hd args = ''--listen'' then length args - 2 else length args)"
    using l(1) by (auto simp: balancer_listen_def balancer_zero_def rbind_Inr_iff split: list.splits if_splits)
  with add_outs_le [OF l(2)] l(3) balancer_run_eq [OF assms(2)] show ?thesis by auto
qed

theorem balancer_forwards_witness:
  "\<exists>b. balancer_main (\<lambda>h. 1) \<lparr>k_socket = 5, k_setopt = (\<lambda>_ _. True), k_bind = (\<lambda>_ _. True)\<rparr>
       (\<lambda>n. \<lparr>k_socket = 6 + int n, k_setopt = (\<lambda>_ _. True), k_bind = (\<lambda>_ _. True)\<rparr>) [''--listen'', ''0.0.0.0:1'', ''a:2'', ''b:3''] = Inr b
     \<and> map (\<lambda>(s, a, d). (s, d)) (balancer_run b [RecvData ''x:1|c'', RecvAgain, RecvData []] (replicate 512 NUL)) =
         [(6, ''x:1|c''), (7, ''x:1|c'')]"
proof -
  obtain b where b: "balancer_main (\<lambda>h. 1) \<lparr>k_socket = 5, k_setopt = (\<lambda>_ _. True), k_bind = (\<lambda>_ _. True)\<rparr>
       (\<lambda>n. \<lparr>k_socket = 6 + int n, k_setopt = (\<lambda>_ _. True), k_bind = (\<lambda>_ _. True)\<rparr>) [''--listen'', ''0.0.0.0:1'', ''a:2'', ''b:3''] = Inr b"
    "map fst (outs b) = [6, 7]"
    by (simp add: balancer_main_def balancer_listen_def init_sock_def atoi_def balancer_enlarge_in_def balancer_enlarge_out_def
        balancer_zero_def is_blank_def is_digit_def digit_val_def)
  then obtain a1 a2 where o: "outs b = [(6, a1), (7, a2)]" by auto
  show ?thesis
    using balancer_forwards [OF b(1), of "replicate 512 NUL" "[RecvData ''x:1|c'', RecvAgain, RecvData []]"] b(1)
    by (auto simp: packets_def map_filter_simps o)
qed

text \<open>A metric of more than 980 bytes is copied over the end of the sender's array.\<close>

lemma long_metric_overflows:
  assumes "length mem = SECURE_PACKET_SIZE" "\<forall>k m. length (hmac k m) = SHA_SIZE" "980 < length metric"
  shows "secure_build_packet hmac tv_sec nonce mem metric = Inl OutOfBounds"
  using secure_build_eq [OF assms(1,2) refl refl, of tv_sec nonce metric] assms(3) by simp

text \<open>Without an address to listen on, the workers receive from descriptor 0, the standard input.\<close>

lemma balancer_without_listen:
  assumes "balancer_main inet_addr k ks (a # as) = Inr b" "a \<noteq> ''--listen''"
  shows "in_socket b = 0"
proof -
  have "add_outs inet_addr ks (a # as) balancer_zero = Inr b"
    using assms by (auto simp: balancer_main_def balancer_listen_def rbind_Inr_iff simp del: add_outs.simps split: if_splits)
  from add_outs_le [OF this] show ?thesis by (simp add: balancer_zero_def)
qed

end
