(* ===== verification/Spec2Isabelle.thy ===== *)
theory Spec2Isabelle
  imports Prelude IEEE754 Slab Bloom Histogram City Utils Net Hashtable Internal_Stats Metric Backend Registry Statsd
    Config Sampler Statsd_Worker Carbon Statsd_Secure Log Proctitle Daemon Http Server System Expiry Test_Bin
begin

text \<open>
  A verification library for brubeck, a statsd aggregator in C.

  \<^bold>\<open>The program.\<close> Samplers receive UDP packets: the statsd sampler (\<^verbatim>\<open>samplers/statsd.c\<close>) with several
  worker threads, the authenticated one (\<^verbatim>\<open>samplers/statsd-secure.c\<close>) with an HMAC and replay filters
  (\<^verbatim>\<open>bloom.c\<close>). A packet is parsed line by line; the key of a line is looked up in a hash table
  (\<^verbatim>\<open>ht.c\<close>, on ck_ht of the concurrency kit), a new key makes a metric (\<^verbatim>\<open>metric.c\<close>) in memory of the
  slab allocator (\<^verbatim>\<open>slab.c\<close>) and registers it at the backend of its shard, which CityHash (\<^verbatim>\<open>city.c\<close>)
  selects. Every metric has a kind, which says what recording a value and sampling does; timers and
  histograms keep their values (\<^verbatim>\<open>histogram.c\<close>). A backend thread (\<^verbatim>\<open>backend.c\<close>) samples the metrics of
  its queue once per period and sends the results to carbon (\<^verbatim>\<open>backends/carbon.c\<close>) as text or as a
  pickle. The daemon counts what it does and reports it as a metric of its own
  (\<^verbatim>\<open>internal_sampler.c\<close>). The main thread (\<^verbatim>\<open>server.c\<close>) reads the configuration, starts the others and
  then waits for signals and timers: it reopens the log (\<^verbatim>\<open>log.c\<close>), dumps the keys, updates the flow
  counters and the process title (\<^verbatim>\<open>setproctitle.c\<close>), expires metrics, and stops. A HTTP endpoint
  (\<^verbatim>\<open>http.c\<close>) shows statistics and metrics and disables metrics. \<^verbatim>\<open>brubeck.c\<close> is the main program,
  \<^verbatim>\<open>test-bin/\<close> holds three programs that talk to a daemon. The build is that of the Makefile on 64-bit
  Linux: \<^verbatim>\<open>NDEBUG\<close> is set, \<^verbatim>\<open>BRUBECK_METRICS_FLOW\<close> is not, HTTP support is compiled in.

  \<^bold>\<open>How C is modelled.\<close> \<open>Prelude\<close> has the vocabulary: fixed-width integers are words, buffers are lists
  of bytes with checked reads and writes, and a function that can leave an object, meet a null
  pointer, shift or convert out of range, divide by zero, or end the process returns a result of
  type \<open>'a res\<close>, whose left side is that event. Arithmetic wraps where it does in C. \<open>IEEE754\<close> has
  binary32 and binary64 as bit patterns with rounding to nearest even, so that values, sums and
  comparisons are those of the machine. A struct is a record, an enum a datatype, the heap of
  metrics a map from slab addresses. Loops are recursive functions with a termination proof; the
  endless loops of the threads are given turn by turn, on the kernel's answer to the blocking call.
  A loop that waits for the kernel runs on a list of answers and is \<open>None\<close> or \<open>Blocked\<close> when it would
  wait for ever; that it returns is stated with the condition on the answers, so no fuel is used.

  \<^bold>\<open>Theories, in the order of the layers.\<close>
  \<^item> \<open>Slab\<close>, \<open>Bloom\<close>, \<open>Histogram\<close>, \<open>City\<close>: the files of these names, completely. Blocks are disjoint,
    a filter is the textbook filter on sets of bits, histograms keep and order what was pushed, the
    hash reads inside the key.
  \<^item> \<open>Utils\<close> and \<open>Net\<close>: \<^verbatim>\<open>utils.c\<close> and \<^verbatim>\<open>utils.h\<close>: printing numbers, searching a string, writing a buffer to
    a socket, resolving an address, socket options. \<open>Config\<close>: reading a JSON object.
  \<^item> \<open>Hashtable\<close>: \<^verbatim>\<open>ht.c\<close> over the locale \<open>ck_table\<close>, the documented laws of ck_ht, with an interpretation
    on association lists. \<open>Internal_Stats\<close>: the counters of \<^verbatim>\<open>server.h\<close>.
  \<^item> \<open>Metric\<close>: recording and sampling of all kinds, with the sums in machine arithmetic. \<open>Backend\<close>: the
    lock-free push as a step relation in which the reads, stores and swaps of all threads interleave,
    the turn of the backend thread, and the locale \<open>backend_driver\<close> of what it needs of its callbacks.
  \<^item> \<open>Registry\<close>: lookup and creation of metrics over slab, table and queues, the invariant
    \<open>registry_ok\<close> and what keeps it.
  \<^item> \<open>Statsd\<close>, \<open>Sampler\<close>, \<open>Statsd_Worker\<close>, \<open>Statsd_Secure\<close>: the parsers of messages and packets, both
    receiving loops of a worker, the authenticated loop; they refine a specification that maps keys to
    metrics and a packet to its lines.
  \<^item> \<open>Carbon\<close>: both wire formats byte for byte, the pickle with a reader that inverts it; both sets of
    callbacks interpret \<open>backend_driver\<close>.
  \<^item> \<open>Log\<close>, \<open>Proctitle\<close>, \<open>Daemon\<close>, \<open>Http\<close>, \<open>Server\<close>: log, process title, the tasks of the main loop, the
    HTTP requests, start and end of the daemon, and \<^verbatim>\<open>brubeck.c\<close>.
  \<^item> \<open>System\<close>: the daemon with the packet buffers of its threads as a step relation, whose steps are the
    turns of the threads, the invariant \<open>system_ok\<close> (by the locale \<open>inv_system\<close> of \<open>Prelude\<close>, which the
    lock-free push interprets as well), and the way of a value from a datagram to a backend.
  \<^item> \<open>Expiry\<close>: two rounds of the expiry with lookups and turns of the backends between them, and which
    metrics they disable.
  \<^item> \<open>Test_Bin\<close>: the programs of \<^verbatim>\<open>test-bin/\<close>, against the samplers they talk to.
  This theory has the properties that span the components: the invariant over all interleavings of
  turns, the way of a value, and the run of the whole program.

  \<^bold>\<open>Parameters.\<close> Code outside the repository is an argument of the definitions that use it: ck_ht,
  jansson, libmicrohttpd, the HMAC of OpenSSL, the \<^verbatim>\<open>pow\<close> and \<^verbatim>\<open>log\<close> of the mathematics library,
  the resolver, and the answers of the kernel. What is assumed of them stands in the statements: the
  laws of ck_ht, the length of an HMAC, that the JSON library takes ASCII for UTF-8, and that a
  connection answers (\<open>net_ok\<close>).

  \<^bold>\<open>Bounds in the statements.\<close> Each of them is needed, and most have a theorem that shows what happens
  beyond them.
  \<^item> Keys have at most 4031 bytes, for which a metric fits its slab page; a packet can have longer ones,
    and from 4048 bytes on they overflow the page. The slab allocator itself is used with requests of
    at most 4064 bytes; beyond 4080 it hands out memory past the page.
  \<^item> A line of text for carbon holds keys of at most 995 bytes when only its own buffer is concerned, 976
    for the names a metric makes of its key; longer ones overflow the buffer of the stack. A pickle
    takes any key but writes only the first \<open>length mod 256\<close> bytes of it, so keys below 256 bytes are
    whole.
  \<^item> A value is printed as text when its magnitude, rounded to single precision, is below \<open>2 ^ 23\<close>
    (\<open>ftoa_range\<close>); from there on the C code shifts a 64-bit number by 64 or more, which is undefined
    and is \<open>BadShift\<close> here.
  \<^item> Sums of metrics are exact below \<open>2 ^ 53\<close>. Gauges are stated for absolute values and for running
    sums of positive and negative integers.
  \<^item> A first line that starts with a colon is excluded, as its parser reads in front of the packet.
  \<^item> HTTP requests are answered when \<open>web_ready\<close> holds: UTF-8 keys and a sampling period that is set.
  \<^item> An authenticated datagram whose refused HMAC has a byte from 128 on makes the logging of the HMAC
    read outside its table of digits; the specification of the gate says so as a verdict of its own.
    The filters are stated for a positive number of hashes, and the configured \<^verbatim>\<open>max_drift\<close> and
    \<^verbatim>\<open>replay_len\<close> are taken as not negative.
  \<^item> Configuration names have at most 255 bytes, the limit of a file name.

  \<^bold>\<open>Atomicity.\<close> Recording and sampling a metric are atomic because of its spin lock, an insertion because
  of the lock of the table, the counters and flow counters because of atomic additions. In \<open>System\<close> a
  whole turn of a thread is one step: turns share data only through these operations, and what a
  turn does between them concerns its own buffers. A step is a turn that returns: the invariant is
  about what such turns leave behind, on packets within the bounds above. Cancelling a thread is a
  request that is recorded (\<open>dm_cancelled\<close>); when the thread ends is not modelled.

  \<^bold>\<open>Not modelled.\<close> The scheduling of threads, sleeping and the drift of timers; signal delivery in front
  of the signal descriptor; the parsing of options in \<^verbatim>\<open>getopt_long\<close>; messages of the log outside
  \<^verbatim>\<open>server.c\<close> and \<^verbatim>\<open>http.c\<close>, and the text of \<^verbatim>\<open>errno\<close> in messages; the flow statistics of
  \<^verbatim>\<open>BRUBECK_METRICS_FLOW\<close>; the unit tests; the thread libmicrohttpd makes for itself, whose calls are
  the turns of HTTP requests; memory exhaustion, where the program ends in \<^verbatim>\<open>xmalloc\<close> (the copy of the
  environment, which may fail without ending it, is modelled), and the release of memory at the end
  of the process.
\<close>

section \<open>Properties across components\<close>

definition demo_mem :: "thread \<Rightarrow> nat \<Rightarrow> string" where
  "demo_mem t n = (case t of SecureThread i \<Rightarrow> replicate SECURE_PACKET_SIZE NUL | _ \<Rightarrow> replicate MAX_PACKET_SIZE NUL)"

text \<open>
  C2. The daemon stays consistent: from a daemon that has started, however the turns of the receiving
  workers, the backend threads, the main loop and the HTTP requests interleave, the registry, the
  queues, the counter of unique keys, the threads, their packet buffers and the process title stay
  consistent, and the main loop can always make its next turn, which stops it exactly on a SIGINT or
  SIGTERM.
\<close>

theorem daemon_stays_consistent:
  assumes "ck_table (h_ck host) tinv" "\<forall>k m. length (hmac k m) = SHA_SIZE"
    "brubeck_server_init host path lg pt = Inr d" "length (srv_name (dm_server d)) \<le> 4031"
    "title_ready pt" "length (get_config_name path) \<le> 255" "NUL \<notin> set (get_config_name path)"
    "\<forall>i j n. length (fresh_mem (WorkerThread i j) n) = MAX_PACKET_SIZE" "\<forall>i n. length (fresh_mem (SecureThread i) n) = SECURE_PACKET_SIZE"
    "(daemon_step host pw hmac)\<^sup>*\<^sup>* (start_system fresh_mem d) sy"
  shows "system_ok host tinv sy
    \<and> (\<exists>d'. server_turn host ev (sys_daemon sy) = Inr d' \<and> running d' = (running (sys_daemon sy) \<and> \<not> stops ev))"
proof -
  note i = server_init_daemon_ok [OF assms(1,3,4)]
  have "daemon_ok host tinv d" "title_ok d" using i assms(5-7) by (simp_all add: title_ok_def)
  from daemon_steps_ok [OF assms(10,1,2) start_system_ok [OF this assms(8,9)]] have "system_ok host tinv sy" .
  with server_turn_total [OF assms(1), of "sys_daemon sy" ev] show ?thesis unfolding system_ok_def by blast
qed

theorem daemon_stays_consistent_witness:
  "\<exists>d sy. brubeck_server_init demo_host ''etc/b.json'' log_zero (dm_title demo_daemon) = Inr d
     \<and> (daemon_step demo_host dadd demo_hmac)\<^sup>*\<^sup>* (start_system demo_mem d) sy \<and> \<not> running (sys_daemon sy) \<and> system_ok demo_host list_inv sy"
proof -
  obtain d where d: "brubeck_server_init demo_host ''etc/b.json'' log_zero (dm_title demo_daemon) = Inr d"
    "srv_name (dm_server d) = ''brubeck''" using demo_starts by blast
  have ck: "ck_table (h_ck demo_host) list_inv" using list_table.ck_table_axioms by (simp add: demo_host_def)
  have c: "get_config_name ''etc/b.json'' = ''b''" by (simp add: get_config_name_def strrchr_def)
  have t: "title_ready (dm_title demo_daemon)" by (simp add: title_ready_def demo_daemon_def)
  have h: "\<forall>k m. length (demo_hmac k m) = SHA_SIZE" by (simp add: demo_hmac_def)
  have n: "length (srv_name (dm_server d)) \<le> 4031" using d(2) by simp
  have m: "\<forall>i j n. length (demo_mem (WorkerThread i j) n) = MAX_PACKET_SIZE" "\<forall>i n. length (demo_mem (SecureThread i) n) = SECURE_PACKET_SIZE"
    by (simp_all add: demo_mem_def)
  note consistent = daemon_stays_consistent [OF ck h d(1) n t _ _ m, unfolded c, of dadd]
  let ?s = "start_system demo_mem d"
  obtain d' where d': "server_turn demo_host sigterm (sys_daemon ?s) = Inr d'" "\<not> running d'"
    using consistent [of ?s sigterm] by (auto simp: stops_def sigterm_def)
  have "daemon_step demo_host dadd demo_hmac \<lparr>sys_daemon = sys_daemon ?s, sys_mem = sys_mem ?s\<rparr> \<lparr>sys_daemon = d', sys_mem = sys_mem ?s\<rparr>"
    by (rule daemon_step.main_loop [OF _ d'(1)]) (simp add: start_system_def)
  moreover have "\<lparr>sys_daemon = sys_daemon ?s, sys_mem = sys_mem ?s\<rparr> = ?s" by simp
  ultimately have "(daemon_step demo_host dadd demo_hmac)\<^sup>*\<^sup>* ?s \<lparr>sys_daemon = d', sys_mem = sys_mem ?s\<rparr>" by (metis r_into_rtranclp)
  with consistent [of "\<lparr>sys_daemon = d', sys_mem = sys_mem ?s\<rparr>"] d d'(2) show ?thesis by fastforce
qed

text \<open>
  C3. A value goes its whole way: a datagram with a value for a meter is received, and the metric stands
  in the queue of the backend that CityHash selects for its key. Whenever that backend has a
  connection, its next turn is exactly the sending of the samples of its queue, with the sum of the
  values of the meter since the last turn under its key among them, and the flush; the meter then
  starts again from zero.
\<close>

theorem meter_reaches_backend:
  assumes "ck_table ck tinv" "registry_ok ck tinv s" "\<not> at_capacity s"
    "plain_key key" "key \<noteq> []" "length key \<le> 4031" "LF \<notin> set key"
    "length (statsd_text key [] n MT_METER None) < MAX_PACKET_SIZE" "length buffer = MAX_PACKET_SIZE" "a + n < 2 ^ 53"
    "case view ck s key of None \<Rightarrow> a = 0 | Some m \<Rightarrow> m_type m = MT_METER \<and> as_value m = d_of_nat a"
    "\<forall>k m. view ck s k = Some m \<longrightarrow> metric_ok m"
  shows "\<exists>buffer' smp' s' h i es1 es2 heap stats m.
      recvmsg_turn pw ck (RecvData (statsd_text key [] n MT_METER None)) (buffer, smp, s) = Inr (buffer', smp', s')
    \<and> CityHash32 (key @ [NUL]) (word_of_nat (length key)) = Inr h \<and> i = unat h mod length (srv_backends s)
    \<and> (\<forall>ops now c c1. op_connect ops c = Inr (c1, 0) \<longrightarrow>
         backend_thread_turn ops now (srv_backends s' ! i) (srv_heap s') (srv_stats s') c =
           rbind (send_all ops now (es1 @ (key, d_of_nat (a + n)) # es2) c1) (\<lambda>c2.
             rbind (case op_flush ops of None \<Rightarrow> Inr c2 | Some flush \<Rightarrow> flush c2) (\<lambda>c'.
               Inr ((srv_backends s' ! i)\<lparr>be_tick_time := now\<rparr>, heap, stats, c'))))
    \<and> view ck (s'\<lparr>srv_heap := heap\<rparr>) key = Some m \<and> as_value m = 0"
proof -
  obtain buffer' smp' s' m where s': "recvmsg_turn pw ck (RecvData (statsd_text key [] n MT_METER None)) (buffer, smp, s) = Inr (buffer', smp', s')"
    "registry_ok ck tinv s'" "view ck s' = (view ck s)(key \<mapsto> m)" "m_type m = MT_METER" "m_expire m = BRUBECK_EXPIRE_ACTIVE" "as_value m = d_of_nat (a + n)"
    "length (srv_backends s') = length (srv_backends s)"
    using meter_text_recorded [OF assms(1-11), of pw smp] by blast
  obtain i p h where i: "i < length (srv_backends s')" "CityHash32 (key @ [NUL]) (word_of_nat (length key)) = Inr h"
    "i = unat h mod length (srv_backends s)"
    "p \<in> set (be_queue (srv_backends s' ! i))" "distinct (be_queue (srv_backends s' ! i))"
    "srv_heap s' p = Some m" "m_key m = key" "find_str ck (srv_metrics s') key = Some p" "short_key key"
    using view_queued [OF s'(2), of key m] s'(3,7) by auto
  have "metric_ok m" using registry_okD(5) [OF s'(2) i(6)] s'(4) by (simp add: wf_metric_def metric_ok_def)
  then have "\<forall>k m. view ck s' k = Some m \<longrightarrow> metric_ok m" using assms(12) s'(3) by simp
  from view_collects [OF s'(2) i(1) this] obtain es heap stats where
    col: "collect (be_sample_freq (srv_backends s' ! i)) (be_queue (srv_backends s' ! i)) (srv_heap s') (srv_stats s') = Inr (es, heap, stats)"
    by blast
  have k: "cstr key = key" using assms(4) by (auto simp: cstr_def plain_key_def takeWhile_eq_all_conv)
  from collect_meter [OF col i(5,4,6) s'(4)] s'(5) obtain es1 es2 where
    es: "es = es1 @ (key, d_of_nat (a + n)) # es2" "heap p = Some (m\<lparr>as_value := 0\<rparr>)" by (auto simp: i(7) k s'(6))
  have v: "view ck (s'\<lparr>srv_heap := heap\<rparr>) key = Some (m\<lparr>as_value := 0\<rparr>)" using i(8,9) es(2) by (simp add: view_def)
  note turn = backend_turn_eq [OF _ col, unfolded es(1)]
  show ?thesis
    by (rule exI [of _ buffer'], rule exI [of _ smp'], rule exI [of _ s'], rule exI [of _ h], rule exI [of _ i], rule exI [of _ es1],
        rule exI [of _ es2], rule exI [of _ heap], rule exI [of _ stats], rule exI [of _ "m\<lparr>as_value := 0\<rparr>"],
        intro conjI allI impI, rule s'(1), rule i(2), rule i(3), rule turn, assumption, rule v, simp)
qed

definition demo_ops :: "emission list backend_ops" where
  "demo_ops = \<lparr>op_connect = (\<lambda>c. Inr (c, 0)), op_sample = (\<lambda>t k v c. Inr (c @ [(k, v)])), op_flush = None\<rparr>"

lemma demo_ops_simps [simp]: "op_connect demo_ops c = Inr (c, 0)" "op_sample demo_ops t k v c = Inr (c @ [(k, v)])" "op_flush demo_ops = None"
  by (simp_all add: demo_ops_def)

lemma demo_send_all [simp]: "send_all demo_ops t es c = Inr (c @ es)"
  by (induction es arbitrary: c) auto

theorem meter_reaches_backend_witness:
  "\<exists>buffer' smp' s' be heap stats es. recvmsg_turn dadd list_ck (RecvData ''a:2|c'') (replicate MAX_PACKET_SIZE NUL, idle_sampler, one_backend ''b'')
       = Inr (buffer', smp', s')
     \<and> backend_thread_turn demo_ops 7 (srv_backends s' ! 0) (srv_heap s') (srv_stats s') [] = Inr (be, heap, stats, es)
     \<and> (''a'', d_of_nat 2) \<in> set es"
proof -
  let ?buffer = "replicate MAX_PACKET_SIZE NUL" and ?s = "one_backend ''b'' :: (string \<times> slab_ptr) list brubeck_server"
  have v: "view list_ck ?s = Map.empty"
    by (rule ext) (simp add: view_def one_backend_def find_str_def brubeck_hashtable_find_def list_ck_def)
  have "dec 2 = ''2''" by code_simp
  then have p: "statsd_text ''a'' [] 2 MT_METER None = ''a:2|c''" by (simp add: statsd_text_def)
  have pre: "plain_key ''a''" "''a'' \<noteq> []" "length ''a'' \<le> 4031" "LF \<notin> set ''a''"
    "length (statsd_text ''a'' [] 2 MT_METER None) < MAX_PACKET_SIZE" "length ?buffer = MAX_PACKET_SIZE" "0 + 2 < (2::nat) ^ 53"
    "case view list_ck ?s ''a'' of None \<Rightarrow> (0::nat) = 0 | Some m \<Rightarrow> m_type m = MT_METER \<and> as_value m = d_of_nat 0"
    "\<forall>k m. view list_ck ?s k = Some m \<longrightarrow> metric_ok m"
    unfolding p v by (simp_all add: plain_key_def)
  have cap: "\<not> at_capacity ?s" by (simp add: one_backend_def)
  obtain buffer' smp' s' h i es1 es2 heap stats where
    r: "recvmsg_turn dadd list_ck (RecvData ''a:2|c'') (?buffer, idle_sampler, ?s) = Inr (buffer', smp', s')"
    and i: "i = unat (h::u32) mod length (srv_backends ?s)"
    and t: "\<forall>ops now c c1. op_connect ops c = Inr (c1 :: emission list, 0) \<longrightarrow>
         backend_thread_turn ops now (srv_backends s' ! i) (srv_heap s') (srv_stats s') c =
           rbind (send_all ops now (es1 @ (''a'', d_of_nat (0 + 2)) # es2) c1) (\<lambda>c2.
             rbind (case op_flush ops of None \<Rightarrow> Inr c2 | Some flush \<Rightarrow> flush c2) (\<lambda>c'.
               Inr ((srv_backends s' ! i)\<lparr>be_tick_time := now\<rparr>, heap, stats, c')))"
    using meter_reaches_backend [OF list_table.ck_table_axioms one_backend_ok cap pre, of dadd idle_sampler]
    unfolding p by (elim exE conjE) (rule that; assumption)
  have "i = 0" using i by (simp add: one_backend_def)
  have two: "d_of_nat (0 + 2) = d_of_nat 2" by (simp only: add_0)
  have "backend_thread_turn demo_ops 7 (srv_backends s' ! 0) (srv_heap s') (srv_stats s') [] =
      Inr ((srv_backends s' ! 0)\<lparr>be_tick_time := 7\<rparr>, heap, stats, es1 @ (''a'', d_of_nat 2) # es2)"
    using t [rule_format, of demo_ops "[]" "[]" 7] unfolding \<open>i = 0\<close> two by simp
  with r show ?thesis by fastforce
qed

text \<open>
  C7. The whole program. When the first of its options that is neither a log nor a configuration file
  asks for the version, it exits with status 0, and when it is an unknown one with status 1; nothing
  is started then. Otherwise it takes the last configuration file named, or the default one. If that
  configuration loads, the program waits as long as no complete SIGINT or SIGTERM arrives, and after
  the first one exits with status 0, having asked every thread it created to end, backends first.
  These are requests: nothing joins the threads, which the end of the process removes, as it does
  the thread of the HTTP library, which is not one of them.
\<close>

theorem main_exits:
  assumes "ck_table (h_ck host) tinv" "args \<noteq> []" "\<forall>x\<in>set (args @ env). NUL \<notin> set x" "3 \<le> length (strings (args @ env))"
    "h_environ_malloc host" "\<forall>i. h_environ_strdup host i"
    "path = last (''config.default.json'' # [f. OptConfig f \<leftarrow> opts])" "log_file = last (None # [Some f. OptLog f \<leftarrow> opts])"
    "length (get_config_name path) \<le> 255" "NUL \<notin> set (get_config_name path)"
    "\<forall>pt. \<exists>d. brubeck_server_init host path (gh_log_open (h_fopen_log host) log_file log_zero) pt = Inr d
       \<and> length (srv_name (dm_server d)) \<le> 4031"
  shows "(\<forall>xs ys. opts = xs @ OptVersion # ys \<and> OptVersion \<notin> set xs \<and> OptUnknown \<notin> set xs \<longrightarrow>
        brubeck_main host opts args env evs = Inr (None, 0))
    \<and> (\<forall>xs ys. opts = xs @ OptUnknown # ys \<and> OptVersion \<notin> set xs \<and> OptUnknown \<notin> set xs \<longrightarrow>
        brubeck_main host opts args env evs = Inr (None, 1))
    \<and> (OptVersion \<notin> set opts \<and> OptUnknown \<notin> set opts \<longrightarrow>
        (if \<exists>ev\<in>set evs. stops ev
         then \<exists>d. brubeck_main host opts args env evs = Inr (Some d, 0) \<and> \<not> running d
           \<and> dm_threads d = map BackendThread [0..<length (srv_backends (dm_server d))] @ samplers_threads 0 (dm_samplers d)
           \<and> dm_cancelled d = dm_threads d
         else brubeck_main host opts args env evs = Inl Blocked))"
proof (intro conjI allI impI)
  fix xs ys assume "opts = xs @ OptVersion # ys \<and> OptVersion \<notin> set xs \<and> OptUnknown \<notin> set xs"
  then show "brubeck_main host opts args env evs = Inr (None, 0)" by (auto simp: brubeck_main_def parse_options_files)
next
  fix xs ys assume "opts = xs @ OptUnknown # ys \<and> OptVersion \<notin> set xs \<and> OptUnknown \<notin> set xs"
  then show "brubeck_main host opts args env evs = Inr (None, 1)" by (auto simp: brubeck_main_def parse_options_files)
next
  assume o: "OptVersion \<notin> set opts \<and> OptUnknown \<notin> set opts"
  have p: "parse_options opts None ''config.default.json'' = CliRun log_file path"
    using parse_options_files [of opts "[]" None "''config.default.json''"] o assms(7,8) by simp
  obtain pt where pt: "initproctitle True (\<lambda>_. True) (length args) (env_pointers args env) (start_memory args env) = Inr pt" "title_ready pt"
    using initproctitle_ready [OF assms(2-4)] by blast
  have m: "h_environ_malloc host = True" "h_environ_strdup host = (\<lambda>_. True)" using assms(5,6) by (simp_all add: fun_eq_iff)
  obtain d where d: "brubeck_server_init host path (gh_log_open (h_fopen_log host) log_file log_zero) pt = Inr d"
    "length (srv_name (dm_server d)) \<le> 4031" using assms(11) by blast
  note i = server_init_daemon_ok [OF assms(1) d]
  then have t: "title_ok d" using assms(9,10) pt(2) by (simp add: title_ok_def)
  have main: "brubeck_main host opts args env evs = rbind (brubeck_server_run host evs d) (\<lambda>(d, r). Inr (Some d, r))"
    by (simp add: brubeck_main_def p m pt(1) d(1))
  show "if \<exists>ev\<in>set evs. stops ev
      then \<exists>d. brubeck_main host opts args env evs = Inr (Some d, 0) \<and> \<not> running d
        \<and> dm_threads d = map BackendThread [0..<length (srv_backends (dm_server d))] @ samplers_threads 0 (dm_samplers d)
        \<and> dm_cancelled d = dm_threads d
      else brubeck_main host opts args env evs = Inl Blocked"
    using server_run_ends [OF assms(1) conjunct1 [OF i] t, of evs]
    by (auto simp: main all_threads_def split: if_splits)
qed

theorem main_exits_witness:
  "(\<exists>d. brubeck_main demo_host [OptConfig ''etc/b.json'', OptLog ''b.log''] [''brubeck''] [] [None, sigterm] = Inr (Some d, 0)
      \<and> dm_cancelled d = dm_threads d \<and> \<not> running d)
   \<and> brubeck_main demo_host [OptLog ''b.log'', OptVersion, OptUnknown] [''brubeck''] [] [] = Inr (None, 0)
   \<and> brubeck_main demo_host [OptUnknown] [''brubeck''] [] [] = Inr (None, 1)"
proof -
  have ck: "ck_table (h_ck demo_host) list_inv" using list_table.ck_table_axioms by (simp add: demo_host_def)
  have c: "get_config_name ''etc/b.json'' = ''b''" "get_config_name ''config.default.json'' = ''config.default''"
    by (simp_all add: get_config_name_def strrchr_def)
  have a: "[''brubeck''] \<noteq> []" "\<forall>x\<in>set ([''brubeck''] @ []). NUL \<notin> set x" "3 \<le> length (strings ([''brubeck''] @ []))"
    "h_environ_malloc demo_host" "\<forall>i. h_environ_strdup demo_host i"
    by (simp_all add: strings_def demo_host_def)
  note m = main_exits [OF ck a refl refl]
  have start: "\<forall>pt. \<exists>d. brubeck_server_init demo_host path lg pt = Inr d \<and> length (srv_name (dm_server d)) \<le> 4031" for path lg
    using demo_starts [of path lg] by fastforce
  have "brubeck_main demo_host [OptLog ''b.log'', OptVersion, OptUnknown] [''brubeck''] [] [] = Inr (None, 0)"
    by (rule m [THEN conjunct1, rule_format, of _ "[OptLog ''b.log'']"]) (use start in \<open>simp_all add: c\<close>)
  moreover have "brubeck_main demo_host [OptUnknown] [''brubeck''] [] [] = Inr (None, 1)"
    by (rule m [THEN conjunct2, THEN conjunct1, rule_format, of _ "[]"]) (use start in \<open>simp_all add: c\<close>)
  moreover have "\<exists>d. brubeck_main demo_host [OptConfig ''etc/b.json'', OptLog ''b.log''] [''brubeck''] [] [None, sigterm] = Inr (Some d, 0)
      \<and> dm_cancelled d = dm_threads d \<and> \<not> running d"
    using m [THEN conjunct2, THEN conjunct2, of "[OptConfig ''etc/b.json'', OptLog ''b.log'']" "[None, sigterm]"] start
    by (auto simp: c stops_def sigterm_def)
  ultimately show ?thesis by blast
qed

end
